theory Spec2Isabelle
  imports Main "HOL-Library.Word"
begin

section \<open>Strings of the host language\<close>

text \<open>
  A JavaScript string is a sequence of 16-bit code units; \<open>length\<close> counts code units,
  as \<^verbatim>\<open>String.prototype.length\<close> does.  \<open>js\<close> turns an ASCII literal into such a string.
\<close>

type_synonym cu = "16 word"
type_synonym jsstring = "cu list"

definition js :: "string \<Rightarrow> jsstring" where
  "js s = map (\<lambda>c. of_nat (of_char c)) s"

definition startsWith :: "jsstring \<Rightarrow> jsstring \<Rightarrow> bool" where
  "startsWith s p = (take (length p) s = p)"

definition endsWith :: "jsstring \<Rightarrow> jsstring \<Rightarrow> bool" where
  "endsWith s p = (length p \<le> length s \<and> drop (length s - length p) s = p)"

text \<open>\<^verbatim>\<open>Array.prototype.join\<close> and \<^verbatim>\<open>String.prototype.repeat\<close>.\<close>

fun join :: "jsstring \<Rightarrow> jsstring list \<Rightarrow> jsstring" where
  "join sep [] = []"
| "join sep [x] = x"
| "join sep (x # y # ys) = x @ sep @ join sep (y # ys)"

fun repeat :: "jsstring \<Rightarrow> nat \<Rightarrow> jsstring" where
  "repeat s 0 = []"
| "repeat s (Suc n) = s @ repeat s n"

text \<open>
  The character classes of the regular expressions: \<^verbatim>\<open>\s\<close> (WhiteSpace and LineTerminator
  of ECMAScript, also what \<^verbatim>\<open>trimEnd\<close> strips), \<^verbatim>\<open>.\<close> without the s flag (everything but
  the four line terminators) and \<^verbatim>\<open>\d\<close>.
\<close>

definition isSpace :: "cu \<Rightarrow> bool" where
  "isSpace c = (c = 0x09 \<or> c = 0x0A \<or> c = 0x0B \<or> c = 0x0C \<or> c = 0x0D \<or> c = 0x20
     \<or> c = 0xA0 \<or> c = 0x1680 \<or> (0x2000 \<le> c \<and> c \<le> 0x200A) \<or> c = 0x2028 \<or> c = 0x2029
     \<or> c = 0x202F \<or> c = 0x205F \<or> c = 0x3000 \<or> c = 0xFEFF)"

definition isDot :: "cu \<Rightarrow> bool" where
  "isDot c = (c \<noteq> 0x0A \<and> c \<noteq> 0x0D \<and> c \<noteq> 0x2028 \<and> c \<noteq> 0x2029)"

definition isDigit :: "cu \<Rightarrow> bool" where
  "isDigit c = (0x30 \<le> c \<and> c \<le> 0x39)"

fun trimEnd_rev :: "jsstring \<Rightarrow> jsstring" where
  "trimEnd_rev [] = []"
| "trimEnd_rev (c # cs) = (if isSpace c then trimEnd_rev cs else c # cs)"

definition trimEnd :: "jsstring \<Rightarrow> jsstring" where
  "trimEnd s = rev (trimEnd_rev (rev s))"

section \<open>Tokens\<close>

datatype TokenType =
  LBRACE | RBRACE | LBRACKET | RBRACKET | COLON | COMMA
  | STRING | NUMBER | BOOLEAN | NULL | COMMENT | WHITESPACE

datatype Token = Token (type: TokenType) (tvalue: jsstring) (line: nat)

section \<open>MaaLexer: the sticky patterns\<close>

text \<open>
  Every pattern carries the y flag and is run with \<open>lastIndex = pos\<close>, so it matches at
  the cursor or not at all.  A matcher takes the text from the cursor on and returns the
  length of \<open>match[0]\<close>.

  COMMENT is \<^verbatim>\<open>\/\/.*|\/\*[\s\S]*?\*\/\<close>: the first alternative is a greedy run of \<^verbatim>\<open>.\<close>
  after two slashes, the second the shortest text up to a closing star-slash.
\<close>

fun dotRun :: "jsstring \<Rightarrow> nat" where
  "dotRun [] = 0"
| "dotRun (c # cs) = (if isDot c then Suc (dotRun cs) else 0)"

fun blockEnd :: "jsstring \<Rightarrow> nat option" where
  "blockEnd [] = None"
| "blockEnd [c] = None"
| "blockEnd (c # d # cs) =
     (if c = 0x2A \<and> d = 0x2F then Some 2 else map_option Suc (blockEnd (d # cs)))"

definition matchComment :: "jsstring \<Rightarrow> nat option" where
  "matchComment s =
     (if startsWith s (js ''//'') then Some (2 + dotRun (drop 2 s))
      else if startsWith s (js ''/*'') then map_option (\<lambda>n. 2 + n) (blockEnd (drop 2 s))
      else None)"

text \<open>
  STRING is \<^verbatim>\<open>"(?:\\.|[^"])*"\<close>.  The star is greedy and backtracks: at each character the
  engine first tries a backslash with any \<^verbatim>\<open>.\<close> character, then any character but the
  quote, and only then leaves the loop and asks for the closing quote.  \<open>stringBody\<close> is
  that search; it returns the length matched from the cursor, closing quote included.
\<close>

fun stringBody :: "jsstring \<Rightarrow> nat option" where
  "stringBody [] = None"
| "stringBody (c # cs) =
     (case (if c = 0x5C then
              (case cs of [] \<Rightarrow> None
               | d # ds \<Rightarrow> if isDot d then map_option (\<lambda>n. n + 2) (stringBody ds) else None)
            else None) of
        Some n \<Rightarrow> Some n
      | None \<Rightarrow>
         (case (if c \<noteq> 0x22 then map_option Suc (stringBody cs) else None) of
            Some n \<Rightarrow> Some n
          | None \<Rightarrow> if c = 0x22 then Some 1 else None))"

definition matchString :: "jsstring \<Rightarrow> nat option" where
  "matchString s =
     (case s of [] \<Rightarrow> None
      | c # cs \<Rightarrow> if c = 0x22 then map_option Suc (stringBody cs) else None)"

text \<open>
  NUMBER is \<^verbatim>\<open>-?(?:0|[1-9]\d*)(?:\.\d+)?(?:[eE][+-]?\d+)?\<close>.  Nothing follows the optional
  groups, so each is taken when it matches and skipped otherwise.
\<close>

fun digitRun :: "jsstring \<Rightarrow> nat" where
  "digitRun [] = 0"
| "digitRun (c # cs) = (if isDigit c then Suc (digitRun cs) else 0)"

definition matchInt :: "jsstring \<Rightarrow> nat option" where
  "matchInt s =
     (case s of [] \<Rightarrow> None
      | c # cs \<Rightarrow>
          if c = 0x30 then Some 1
          else if 0x31 \<le> c \<and> c \<le> 0x39 then Some (Suc (digitRun cs))
          else None)"

definition matchFrac :: "jsstring \<Rightarrow> nat" where
  "matchFrac s =
     (case s of [] \<Rightarrow> 0
      | c # cs \<Rightarrow> if c = 0x2E \<and> 0 < digitRun cs then Suc (digitRun cs) else 0)"

definition matchSign :: "jsstring \<Rightarrow> nat" where
  "matchSign s = (case s of [] \<Rightarrow> 0 | c # cs \<Rightarrow> if c = 0x2B \<or> c = 0x2D then 1 else 0)"

definition matchExp :: "jsstring \<Rightarrow> nat" where
  "matchExp s =
     (case s of [] \<Rightarrow> 0
      | c # cs \<Rightarrow>
          if (c = 0x65 \<or> c = 0x45) \<and> 0 < digitRun (drop (matchSign cs) cs)
          then Suc (matchSign cs + digitRun (drop (matchSign cs) cs))
          else 0)"

definition matchNumber :: "jsstring \<Rightarrow> nat option" where
  "matchNumber s =
     (let m = (case s of [] \<Rightarrow> 0 | c # cs \<Rightarrow> if c = 0x2D then 1 else 0) in
      case matchInt (drop m s) of
        None \<Rightarrow> None
      | Some i \<Rightarrow>
          (let f = matchFrac (drop (m + i) s);
               e = matchExp (drop (m + i + f) s)
           in Some (m + i + f + e)))"

definition matchLiteral :: "jsstring \<Rightarrow> jsstring \<Rightarrow> nat option" where
  "matchLiteral lit s = (if startsWith s lit then Some (length lit) else None)"

definition matchBoolean :: "jsstring \<Rightarrow> nat option" where
  "matchBoolean s =
     (case matchLiteral (js ''true'') s of
        Some n \<Rightarrow> Some n
      | None \<Rightarrow> matchLiteral (js ''false'') s)"

fun spaceRun :: "jsstring \<Rightarrow> nat" where
  "spaceRun [] = 0"
| "spaceRun (c # cs) = (if isSpace c then Suc (spaceRun cs) else 0)"

definition matchWhitespace :: "jsstring \<Rightarrow> nat option" where
  "matchWhitespace s = (if 0 < spaceRun s then Some (spaceRun s) else None)"

text \<open>\<open>PATTERNS\<close>, in the order of the source; the scan takes the first that matches.\<close>

definition PATTERNS :: "(TokenType \<times> (jsstring \<Rightarrow> nat option)) list" where
  "PATTERNS =
     [(COMMENT, matchComment),
      (STRING, matchString),
      (NUMBER, matchNumber),
      (BOOLEAN, matchBoolean),
      (NULL, matchLiteral (js ''null'')),
      (LBRACE, matchLiteral (js ''{'')),
      (RBRACE, matchLiteral (js ''}'')),
      (LBRACKET, matchLiteral (js ''['')),
      (RBRACKET, matchLiteral (js '']'')),
      (COLON, matchLiteral (js '':'')),
      (COMMA, matchLiteral (js '','')),
      (WHITESPACE, matchWhitespace)]"

fun firstMatch :: "(TokenType \<times> (jsstring \<Rightarrow> nat option)) list \<Rightarrow> jsstring \<Rightarrow> (TokenType \<times> nat) option" where
  "firstMatch [] s = None"
| "firstMatch ((ty, m) # ps) s =
     (case m s of Some n \<Rightarrow> Some (ty, n) | None \<Rightarrow> firstMatch ps s)"


lemma dotRun_le: "dotRun s \<le> length s"
  by (induction s) auto

lemma digitRun_le: "digitRun s \<le> length s"
  by (induction s) auto

lemma spaceRun_le: "spaceRun s \<le> length s"
  by (induction s) auto

lemma blockEnd_bounds: "blockEnd s = Some n \<Longrightarrow> 0 < n \<and> n \<le> length s"
  by (induction s arbitrary: n rule: blockEnd.induct) (auto split: if_splits)

lemma stringBody_bounds: "stringBody s = Some n \<Longrightarrow> 0 < n \<and> n \<le> length s"
proof (induction s arbitrary: n rule: stringBody.induct)
  case 1
  then show ?case by simp
next
  case (2 c cs)
  show ?case
  proof (cases "c = 0x5C \<and> (\<exists>d ds k. cs = d # ds \<and> isDot d \<and> stringBody ds = Some k)")
    case True
    then obtain d ds k where h: "c = 0x5C" "cs = d # ds" "isDot d" "stringBody ds = Some k"
      by blast
    with "2.prems" have "n = k + 2" by simp
    moreover from "2.IH"(1) h have "k \<le> length ds" by blast
    ultimately show ?thesis using h by simp
  next
    case False
    then have esc: "(if c = 0x5C then
              (case cs of [] \<Rightarrow> None
               | d # ds \<Rightarrow> if isDot d then map_option (\<lambda>n. n + 2) (stringBody ds) else None)
            else None) = None"
      by (auto split: list.splits)
    show ?thesis
    proof (cases "c = 0x22")
      case True
      with "2.prems" esc show ?thesis by simp
    next
      case False
      show ?thesis
      proof (cases "stringBody cs")
        case None
        with "2.prems" esc False show ?thesis by simp
      next
        case (Some k)
        with "2.prems" esc False have "n = Suc k" by simp
        moreover from "2.IH"(2)[OF esc False Some] have "k \<le> length cs" by simp
        ultimately show ?thesis by simp
      qed
    qed
  qed
qed

lemma matchComment_bounds: "matchComment s = Some n \<Longrightarrow> 0 < n \<and> n \<le> length s"
proof -
  assume a: "matchComment s = Some n"
  show ?thesis
  proof (cases "startsWith s (js ''//'')")
    case True
    then have "2 \<le> length s"
      by (cases s; cases "tl s") (auto simp: startsWith_def js_def)
    moreover have "dotRun (drop 2 s) \<le> length s - 2"
      using dotRun_le [of "drop 2 s"] by simp
    ultimately show ?thesis using a True by (auto simp: matchComment_def)
  next
    case False
    with a obtain k where k: "startsWith s (js ''/*'')" "blockEnd (drop 2 s) = Some k" "n = 2 + k"
      by (auto simp: matchComment_def split: if_splits)
    from k(1) have "2 \<le> length s"
      by (cases s; cases "tl s") (auto simp: startsWith_def js_def)
    with blockEnd_bounds [OF k(2)] k(3) show ?thesis by auto
  qed
qed

lemma matchString_bounds: "matchString s = Some n \<Longrightarrow> 0 < n \<and> n \<le> length s"
  by (cases s) (auto simp: matchString_def split: if_splits dest: stringBody_bounds)

lemma matchInt_bounds: "matchInt s = Some n \<Longrightarrow> 0 < n \<and> n \<le> length s"
  using digitRun_le [of "tl s"]
  by (cases s) (auto simp: matchInt_def split: if_splits)

lemma matchFrac_le: "matchFrac s \<le> length s"
  using digitRun_le [of "tl s"]
  by (cases s) (auto simp: matchFrac_def)

lemma matchSign_le: "matchSign s \<le> length s"
  by (cases s) (auto simp: matchSign_def)

lemma matchExp_le: "matchExp s \<le> length s"
proof (cases s)
  case Nil
  then show ?thesis by (simp add: matchExp_def)
next
  case (Cons c cs)
  have "matchSign cs + digitRun (drop (matchSign cs) cs) \<le> length cs"
    using digitRun_le [of "drop (matchSign cs) cs"] matchSign_le [of cs] by simp
  with Cons show ?thesis by (simp add: matchExp_def)
qed

lemma matchNumber_bounds: "matchNumber s = Some n \<Longrightarrow> 0 < n \<and> n \<le> length s"
proof -
  assume a: "matchNumber s = Some n"
  define m :: nat where "m = (case s of [] \<Rightarrow> 0 | c # cs \<Rightarrow> if c = 0x2D then 1 else 0)"
  have m: "m \<le> length s" by (cases s) (auto simp: m_def)
  from a obtain i where i: "matchInt (drop m s) = Some i"
    and n: "n = m + i + matchFrac (drop (m + i) s)
              + matchExp (drop (m + i + matchFrac (drop (m + i) s)) s)"
    by (auto simp: matchNumber_def Let_def m_def split: option.splits)
  from matchInt_bounds [OF i] have i': "0 < i" "i \<le> length s - m" by auto
  have f: "matchFrac (drop (m + i) s) \<le> length s - (m + i)"
    using matchFrac_le [of "drop (m + i) s"] by simp
  have e: "matchExp (drop (m + i + matchFrac (drop (m + i) s)) s)
            \<le> length s - (m + i + matchFrac (drop (m + i) s))"
    using matchExp_le [of "drop (m + i + matchFrac (drop (m + i) s)) s"] by simp
  from m i' f e n show ?thesis by linarith
qed

lemma matchLiteral_bounds: "lit \<noteq> [] \<Longrightarrow> matchLiteral lit s = Some n \<Longrightarrow> 0 < n \<and> n \<le> length s"
proof -
  assume l: "lit \<noteq> []" and a: "matchLiteral lit s = Some n"
  then have t: "take (length lit) s = lit" and n: "n = length lit"
    by (auto simp: matchLiteral_def startsWith_def split: if_splits)
  have "length (take (length lit) s) \<le> length s" by simp
  with t have "length lit \<le> length s" by simp
  with l n show ?thesis by simp
qed

lemma matchBoolean_bounds: "matchBoolean s = Some n \<Longrightarrow> 0 < n \<and> n \<le> length s"
  by (auto simp: matchBoolean_def js_def split: option.splits dest!: matchLiteral_bounds [rotated])

lemma matchWhitespace_bounds: "matchWhitespace s = Some n \<Longrightarrow> 0 < n \<and> n \<le> length s"
  using spaceRun_le [of s] by (auto simp: matchWhitespace_def split: if_splits)

lemma firstMatch_PATTERNS_bounds:
  "firstMatch PATTERNS s = Some (ty, n) \<Longrightarrow> 0 < n \<and> n \<le> length s"
  unfolding PATTERNS_def
  by (auto simp: js_def split: option.splits
      dest: matchComment_bounds matchString_bounds matchNumber_bounds matchBoolean_bounds
        matchWhitespace_bounds dest!: matchLiteral_bounds [rotated])

section \<open>Errors\<close>

text \<open>
  The source throws \<^verbatim>\<open>Error\<close> objects told apart by their message; each message is a
  constructor, with the values it interpolates.  \<open>SyntaxError\<close> is what \<^verbatim>\<open>JSON.parse\<close>
  throws on the text of a string token that is not a JSON string.
\<close>

datatype error =
    UnexpectedCharacter nat cu
  | UnexpectedEndOfInput
  | ExpectedTokenType TokenType TokenType nat
  | UnexpectedToken jsstring nat
  | UnclosedObject
  | UnclosedArray
  | ExpectedStringKey jsstring
  | SyntaxError

section \<open>MaaLexer.tokenize\<close>

text \<open>
  The loop runs while \<open>pos < text.length\<close>; the model recurses on the text from the cursor
  on and on the line counter, and returns the tokens the loop pushes from there.
\<close>

function tokenizeFrom :: "jsstring \<Rightarrow> nat \<Rightarrow> error + Token list" where
  "tokenizeFrom text ln =
     (if text = [] then Inr []
      else
        (case firstMatch PATTERNS text of
           None \<Rightarrow> Inl (UnexpectedCharacter ln (hd text))
         | Some (ty, n) \<Rightarrow>
             (case tokenizeFrom (drop n text) (ln + count_list (take n text) 0x0A) of
                Inl e \<Rightarrow> Inl e
              | Inr ts \<Rightarrow>
                  Inr (if ty \<noteq> WHITESPACE then Token ty (take n text) ln # ts else ts))))"
  by pat_completeness auto
termination
  by (relation "measure (\<lambda>(text, ln). length text)")
     (auto dest: firstMatch_PATTERNS_bounds)

declare tokenizeFrom.simps [simp del]

definition tokenize :: "jsstring \<Rightarrow> error + Token list" where
  "tokenize text = tokenizeFrom text 1"

section \<open>The built-ins on strings\<close>

text \<open>
  \<^verbatim>\<open>JSON.parse\<close> on the text of a STRING token.  Such a text begins and ends with a quote, so
  the only JSON value it can hold is a string literal that ends at the last character:
  any code unit from U+0020 on except the quote and the backslash stands for itself, a
  backslash starts one of the escapes of the JSON grammar, and anything else is a
  \<open>SyntaxError\<close> (\<open>None\<close>).
\<close>

definition isHex :: "cu \<Rightarrow> bool" where
  "isHex c = ((0x30 \<le> c \<and> c \<le> 0x39) \<or> (0x41 \<le> c \<and> c \<le> 0x46) \<or> (0x61 \<le> c \<and> c \<le> 0x66))"

definition hexVal :: "cu \<Rightarrow> cu" where
  "hexVal c = (if c \<le> 0x39 then c - 0x30 else if c \<le> 0x46 then c - 0x37 else c - 0x57)"

definition hex4 :: "cu \<Rightarrow> cu \<Rightarrow> cu \<Rightarrow> cu \<Rightarrow> cu" where
  "hex4 a b c d = hexVal a * 0x1000 + hexVal b * 0x100 + hexVal c * 0x10 + hexVal d"

definition simpleEscape :: "cu \<Rightarrow> cu option" where
  "simpleEscape e =
     (if e = 0x22 then Some 0x22
      else if e = 0x5C then Some 0x5C
      else if e = 0x2F then Some 0x2F
      else if e = 0x62 then Some 0x08
      else if e = 0x66 then Some 0x0C
      else if e = 0x6E then Some 0x0A
      else if e = 0x72 then Some 0x0D
      else if e = 0x74 then Some 0x09
      else None)"

fun jsonChars :: "jsstring \<Rightarrow> jsstring option" where
  "jsonChars [] = None"
| "jsonChars (c # cs) =
     (if c = 0x22 then (if cs = [] then Some [] else None)
      else if c = 0x5C then
        (case cs of
           [] \<Rightarrow> None
         | e # es \<Rightarrow>
             if e = 0x75 then
               (case es of
                  h1 # h2 # h3 # h4 # rest \<Rightarrow>
                    if isHex h1 \<and> isHex h2 \<and> isHex h3 \<and> isHex h4
                    then map_option ((#) (hex4 h1 h2 h3 h4)) (jsonChars rest)
                    else None
                | _ \<Rightarrow> None)
             else
               (case simpleEscape e of
                  None \<Rightarrow> None
                | Some d \<Rightarrow> map_option ((#) d) (jsonChars es)))
      else if c < 0x20 then None
      else map_option ((#) c) (jsonChars cs))"

definition JSON_parse :: "jsstring \<Rightarrow> jsstring option" where
  "JSON_parse s = (case s of [] \<Rightarrow> None | c # cs \<Rightarrow> if c = 0x22 then jsonChars cs else None)"

text \<open>
  \<^verbatim>\<open>JSON.stringify\<close> on a string (QuoteJSONString): the quote, the backslash and the control
  characters are escaped, a surrogate that is not half of a pair is written as a
  \<^verbatim>\<open>\u\<close> escape, everything else is copied.
\<close>

definition hexDigit :: "cu \<Rightarrow> cu" where
  "hexDigit n = (if n < 10 then 0x30 + n else 0x57 + n)"

definition unicodeEscape :: "cu \<Rightarrow> jsstring" where
  "unicodeEscape c =
     [0x5C, 0x75, hexDigit (drop_bit 12 c), hexDigit (and (drop_bit 8 c) 0xF),
      hexDigit (and (drop_bit 4 c) 0xF), hexDigit (and c 0xF)]"

definition isHighSurrogate :: "cu \<Rightarrow> bool" where
  "isHighSurrogate c = (0xD800 \<le> c \<and> c \<le> 0xDBFF)"

definition isLowSurrogate :: "cu \<Rightarrow> bool" where
  "isLowSurrogate c = (0xDC00 \<le> c \<and> c \<le> 0xDFFF)"

fun quoteChars :: "jsstring \<Rightarrow> jsstring" where
  "quoteChars [] = []"
| "quoteChars (c # cs) =
     (if c = 0x08 then [0x5C, 0x62] @ quoteChars cs
      else if c = 0x09 then [0x5C, 0x74] @ quoteChars cs
      else if c = 0x0A then [0x5C, 0x6E] @ quoteChars cs
      else if c = 0x0C then [0x5C, 0x66] @ quoteChars cs
      else if c = 0x0D then [0x5C, 0x72] @ quoteChars cs
      else if c = 0x22 then [0x5C, 0x22] @ quoteChars cs
      else if c = 0x5C then [0x5C, 0x5C] @ quoteChars cs
      else if c < 0x20 then unicodeEscape c @ quoteChars cs
      else if isHighSurrogate c then
        (case cs of
           [] \<Rightarrow> unicodeEscape c
         | d # ds \<Rightarrow>
             if isLowSurrogate d then c # d # quoteChars ds
             else unicodeEscape c @ quoteChars cs)
      else if isLowSurrogate c then unicodeEscape c @ quoteChars cs
      else c # quoteChars cs)"

definition JSON_stringify :: "jsstring \<Rightarrow> jsstring" where
  "JSON_stringify v = [0x22] @ quoteChars v @ [0x22]"

section \<open>The built-ins on numbers\<close>

text \<open>
  A number token is decoded by \<^verbatim>\<open>parseFloat\<close> to a double and printed again by
  \<^verbatim>\<open>JSON.stringify\<close>.  The arithmetic of doubles is the host's, not this program's: the
  two functions are parameters of the model, over any type \<open>'n\<close> of numbers.
\<close>

record 'n NumberOps =
  parseFloat :: "jsstring \<Rightarrow> 'n"
  numberToJSON :: "'n \<Rightarrow> jsstring"

section \<open>The syntax tree\<close>

text \<open>
  \<open>JsonValue\<close> has the four subclasses for scalars, each with \<open>value\<close> and \<open>rawText\<close>; a
  comment has \<open>text\<close> and \<open>isBlock\<close>.  A child of an array is any node; a child of an
  object is a comment or a pair of key and value.
\<close>

datatype 'n AstNode =
    JsonString jsstring jsstring
  | JsonNumber 'n jsstring
  | JsonBoolean bool jsstring
  | JsonNull jsstring
  | JsonComment jsstring bool
  | JsonArray "'n AstNode list"
  | JsonObject "'n ObjChild list"
and 'n ObjChild =
    ObjComment jsstring bool
  | ObjPair jsstring "'n AstNode"

section \<open>MaaParser\<close>

text \<open>
  The parser's state is its cursor into the token array; the model passes the tokens from
  the cursor on and returns those that remain.
\<close>

definition peek :: "Token list \<Rightarrow> Token option" where
  "peek ts = (case ts of [] \<Rightarrow> None | t # _ \<Rightarrow> Some t)"

definition consume :: "TokenType option \<Rightarrow> Token list \<Rightarrow> error + (Token \<times> Token list)" where
  "consume expectedType ts =
     (case peek ts of
        None \<Rightarrow> Inl UnexpectedEndOfInput
      | Some token \<Rightarrow>
          (case expectedType of
             None \<Rightarrow> Inr (token, tl ts)
           | Some ty \<Rightarrow>
               if type token \<noteq> ty then Inl (ExpectedTokenType ty (type token) (line token))
               else Inr (token, tl ts)))"

definition commentOf :: "Token \<Rightarrow> jsstring \<times> bool" where
  "commentOf token = (tvalue token, startsWith (tvalue token) (js ''/*''))"

definition parseComment :: "Token list \<Rightarrow> error + ((jsstring \<times> bool) \<times> Token list)" where
  "parseComment ts =
     (case consume (Some COMMENT) ts of
        Inl e \<Rightarrow> Inl e
      | Inr (token, rest) \<Rightarrow> Inr (commentOf token, rest))"

text \<open>
  The loop \<^verbatim>\<open>while (this.peek()?.type === TokenType.COMMENT) push(this.parseComment())\<close>;
  under its guard \<open>parseComment\<close> cannot throw.
\<close>

fun parseComments :: "Token list \<Rightarrow> (jsstring \<times> bool) list \<times> Token list" where
  "parseComments [] = ([], [])"
| "parseComments (t # ts) =
     (if type t = COMMENT
      then (case parseComments ts of (cs, rest) \<Rightarrow> (commentOf t # cs, rest))
      else ([], t # ts))"

lemma parseComments_length: "length (snd (parseComments ts)) \<le> length ts"
  by (induction ts) (auto split: prod.splits)

definition objComment :: "jsstring \<times> bool \<Rightarrow> 'n ObjChild" where
  "objComment c = ObjComment (fst c) (snd c)"

definition nodeComment :: "jsstring \<times> bool \<Rightarrow> 'n AstNode" where
  "nodeComment c = JsonComment (fst c) (snd c)"

function parseValue :: "'n NumberOps \<Rightarrow> Token list \<Rightarrow> error + ('n AstNode \<times> Token list)"
  and parseObject :: "'n NumberOps \<Rightarrow> Token list \<Rightarrow> error + ('n AstNode \<times> Token list)"
  and objectLoop :: "'n NumberOps \<Rightarrow> Token list \<Rightarrow> error + ('n ObjChild list \<times> Token list)"
  and parseArray :: "'n NumberOps \<Rightarrow> Token list \<Rightarrow> error + ('n AstNode \<times> Token list)"
  and arrayLoop :: "'n NumberOps \<Rightarrow> Token list \<Rightarrow> error + ('n AstNode list \<times> Token list)"
where
  "parseValue ops ts =
     (case ts of
        [] \<Rightarrow> Inl UnexpectedEndOfInput
      | token # rest \<Rightarrow>
          (case type token of
             LBRACE \<Rightarrow> parseObject ops ts
           | LBRACKET \<Rightarrow> parseArray ops ts
           | STRING \<Rightarrow>
               (case JSON_parse (tvalue token) of
                  None \<Rightarrow> Inl SyntaxError
                | Some v \<Rightarrow> Inr (JsonString v (tvalue token), rest))
           | NUMBER \<Rightarrow> Inr (JsonNumber (parseFloat ops (tvalue token)) (tvalue token), rest)
           | BOOLEAN \<Rightarrow> Inr (JsonBoolean (tvalue token = js ''true'') (tvalue token), rest)
           | NULL \<Rightarrow> Inr (JsonNull (tvalue token), rest)
           | COMMENT \<Rightarrow>
               (case parseComment ts of
                  Inl e \<Rightarrow> Inl e
                | Inr (c, rest') \<Rightarrow> Inr (nodeComment c, rest'))
           | _ \<Rightarrow> Inl (UnexpectedToken (tvalue token) (line token))))"
| "parseObject ops ts =
     (case consume (Some LBRACE) ts of
        Inl e \<Rightarrow> Inl e
      | Inr (_, rest) \<Rightarrow>
          (case objectLoop ops rest of
             Inl e \<Rightarrow> Inl e
           | Inr (children, rest') \<Rightarrow> Inr (JsonObject children, rest')))"
| "objectLoop ops ts =
     (case ts of
        [] \<Rightarrow> Inl UnclosedObject
      | token # rest \<Rightarrow>
          if type token = RBRACE then Inr ([], rest)
          else if type token = COMMENT then
            (case objectLoop ops rest of
               Inl e \<Rightarrow> Inl e
             | Inr (children, rest') \<Rightarrow> Inr (objComment (commentOf token) # children, rest'))
          else if type token = COMMA then objectLoop ops rest
          else if type token = STRING then
            (case JSON_parse (tvalue token) of
               None \<Rightarrow> Inl SyntaxError
             | Some keyStr \<Rightarrow>
                 (case parseComments rest of
                    (cs1, ts1) \<Rightarrow>
                      (case consume (Some COLON) ts1 of
                         Inl e \<Rightarrow> Inl e
                       | Inr (_, ts2) \<Rightarrow>
                           (case parseComments ts2 of
                              (cs2, ts3) \<Rightarrow>
                                (case parseValue ops ts3 of
                                   Inl e \<Rightarrow> Inl e
                                 | Inr (v, ts4) \<Rightarrow>
                                     (case objectLoop ops ts4 of
                                        Inl e \<Rightarrow> Inl e
                                      | Inr (children, rest') \<Rightarrow>
                                          Inr (map objComment cs1 @ map objComment cs2
                                                 @ ObjPair keyStr v # children, rest')))))))
          else Inl (ExpectedStringKey (tvalue token)))"
| "parseArray ops ts =
     (case consume (Some LBRACKET) ts of
        Inl e \<Rightarrow> Inl e
      | Inr (_, rest) \<Rightarrow>
          (case arrayLoop ops rest of
             Inl e \<Rightarrow> Inl e
           | Inr (children, rest') \<Rightarrow> Inr (JsonArray children, rest')))"
| "arrayLoop ops ts =
     (case ts of
        [] \<Rightarrow> Inl UnclosedArray
      | token # rest \<Rightarrow>
          if type token = RBRACKET then Inr ([], rest)
          else if type token = COMMENT then
            (case arrayLoop ops rest of
               Inl e \<Rightarrow> Inl e
             | Inr (children, rest') \<Rightarrow> Inr (nodeComment (commentOf token) # children, rest'))
          else if type token = COMMA then arrayLoop ops rest
          else
            (case parseValue ops ts of
               Inl e \<Rightarrow> Inl e
             | Inr (val, ts') \<Rightarrow>
                 (case arrayLoop ops ts' of
                    Inl e \<Rightarrow> Inl e
                  | Inr (children, rest') \<Rightarrow> Inr (val # children, rest'))))"
  by pat_completeness auto

lemma consume_length: "consume ety ts = Inr (t, r) \<Longrightarrow> length ts = Suc (length r)"
  by (cases ts) (auto simp: consume_def peek_def split: option.splits if_splits)

lemma parseComment_length: "parseComment ts = Inr (c, r) \<Longrightarrow> length ts = Suc (length r)"
  by (auto simp: parseComment_def split: sum.splits dest: consume_length)

lemma parseComments_length': "parseComments ts = (cs, r) \<Longrightarrow> length r \<le> length ts"
  using parseComments_length [of ts] by simp

lemma parse_shrinks_dom:
  "parseValue_parseObject_objectLoop_parseArray_arrayLoop_dom (Inl (Inl (ops, ts))) \<Longrightarrow>
     (\<forall>v r. parseValue ops ts = Inr (v, r) \<longrightarrow> length r < length ts)"
  "parseValue_parseObject_objectLoop_parseArray_arrayLoop_dom (Inl (Inr (ops, ts))) \<Longrightarrow>
     (\<forall>v r. parseObject ops ts = Inr (v, r) \<longrightarrow> length r < length ts)"
  "parseValue_parseObject_objectLoop_parseArray_arrayLoop_dom (Inr (Inl (ops, ts))) \<Longrightarrow>
     (\<forall>cs r. objectLoop ops ts = Inr (cs, r) \<longrightarrow> length r < length ts)"
  "parseValue_parseObject_objectLoop_parseArray_arrayLoop_dom (Inr (Inr (Inl (ops, ts)))) \<Longrightarrow>
     (\<forall>v r. parseArray ops ts = Inr (v, r) \<longrightarrow> length r < length ts)"
  "parseValue_parseObject_objectLoop_parseArray_arrayLoop_dom (Inr (Inr (Inr (ops, ts)))) \<Longrightarrow>
     (\<forall>cs r. arrayLoop ops ts = Inr (cs, r) \<longrightarrow> length r < length ts)"
proof (induct rule: parseValue_parseObject_objectLoop_parseArray_arrayLoop.pinduct)
  case (1 ops ts)
  then show ?case
    by (auto simp: parseValue.psimps split: list.splits TokenType.splits option.splits sum.splits
        dest: parseComment_length)
next
  case (2 ops ts)
  then show ?case
    by (fastforce simp: parseObject.psimps split: sum.splits dest: consume_length)
next
  case (3 ops ts)
  show ?case
  proof (intro allI impI)
    fix cs r
    assume a: "objectLoop ops ts = Inr (cs, r)"
    show "length r < length ts"
    proof (cases ts)
      case Nil
      with a 3(1) show ?thesis by (simp add: objectLoop.psimps)
    next
      case (Cons token rest)
      note ps = objectLoop.psimps [OF 3(1)]
      consider (rb) "type token = RBRACE"
        | (cm) "type token \<noteq> RBRACE" "type token = COMMENT"
        | (co) "type token \<noteq> RBRACE" "type token \<noteq> COMMENT" "type token = COMMA"
        | (st) "type token \<noteq> RBRACE" "type token \<noteq> COMMENT" "type token \<noteq> COMMA" "type token = STRING"
        | (ot) "type token \<noteq> RBRACE" "type token \<noteq> COMMENT" "type token \<noteq> COMMA" "type token \<noteq> STRING"
        by blast
      then show ?thesis
      proof cases
        case rb
        with a Cons ps show ?thesis by simp
      next
        case cm
        with a Cons ps obtain cs' where "objectLoop ops rest = Inr (cs', r)"
          by (auto split: sum.splits)
        with 3(2)[OF Cons cm] Cons show ?thesis by fastforce
      next
        case co
        with a Cons ps have "objectLoop ops rest = Inr (cs, r)" by simp
        with 3(3)[OF Cons co] Cons show ?thesis by fastforce
      next
        case st
        with a Cons ps obtain k cs1 ts1 c ts2 cs2 ts3 v ts4 cs' where
          h: "JSON_parse (tvalue token) = Some k" "parseComments rest = (cs1, ts1)"
             "consume (Some COLON) ts1 = Inr (c, ts2)" "parseComments ts2 = (cs2, ts3)"
             "parseValue ops ts3 = Inr (v, ts4)" "objectLoop ops ts4 = Inr (cs', r)"
          by (auto split: sum.splits option.splits prod.splits)
        have l1: "length ts1 \<le> length rest" using h(2) by (rule parseComments_length')
        have l2: "length ts1 = Suc (length ts2)" using h(3) by (rule consume_length)
        have l3: "length ts3 \<le> length ts2" using h(4) by (rule parseComments_length')
        have "length ts4 < length ts3"
          using 3(4)[OF Cons st h(1) h(2)[symmetric] h(3) refl h(4)[symmetric]] h(5) by blast
        moreover have "length r < length ts4"
          using 3(5)[OF Cons st h(1) h(2)[symmetric] h(3) refl h(4)[symmetric] h(5) refl] h(6) by blast
        ultimately show ?thesis using l1 l2 l3 Cons by simp
      next
        case ot
        with a Cons ps show ?thesis by simp
      qed
    qed
  qed
next
  case (4 ops ts)
  then show ?case
    by (fastforce simp: parseArray.psimps split: sum.splits dest: consume_length)
next
  case (5 ops ts)
  show ?case
  proof (intro allI impI)
    fix cs r
    assume a: "arrayLoop ops ts = Inr (cs, r)"
    show "length r < length ts"
    proof (cases ts)
      case Nil
      with a 5(1) show ?thesis by (simp add: arrayLoop.psimps)
    next
      case (Cons token rest)
      note ps = arrayLoop.psimps [OF 5(1)]
      consider (rb) "type token = RBRACKET"
        | (cm) "type token \<noteq> RBRACKET" "type token = COMMENT"
        | (co) "type token \<noteq> RBRACKET" "type token \<noteq> COMMENT" "type token = COMMA"
        | (ot) "type token \<noteq> RBRACKET" "type token \<noteq> COMMENT" "type token \<noteq> COMMA"
        by blast
      then show ?thesis
      proof cases
        case rb
        with a Cons ps show ?thesis by simp
      next
        case cm
        with a Cons ps obtain cs' where "arrayLoop ops rest = Inr (cs', r)"
          by (auto split: sum.splits)
        with 5(2)[OF Cons cm] Cons show ?thesis by fastforce
      next
        case co
        with a Cons ps have "arrayLoop ops rest = Inr (cs, r)" by simp
        with 5(3)[OF Cons co] Cons show ?thesis by fastforce
      next
        case ot
        with a Cons ps obtain v ts' cs' where
          h: "parseValue ops ts = Inr (v, ts')" "arrayLoop ops ts' = Inr (cs', r)"
          by (auto split: sum.splits)
        have "length ts' < length ts" using 5(4)[OF Cons ot] h(1) by blast
        moreover have "length r < length ts'" using 5(5)[OF Cons ot h(1) refl] h(2) by blast
        ultimately show ?thesis by simp
      qed
    qed
  qed
qed

termination parseValue
proof (relation "measure (\<lambda>x. case x of
          Inl (Inl (ops, ts)) \<Rightarrow> 3 * length ts + 1
        | Inl (Inr (ops, ts)) \<Rightarrow> 3 * length ts
        | Inr (Inl (ops, ts)) \<Rightarrow> 3 * length ts + 2
        | Inr (Inr (Inl (ops, ts))) \<Rightarrow> 3 * length ts
        | Inr (Inr (Inr (ops, ts))) \<Rightarrow> 3 * length ts + 2)", goal_cases)
  case 1
  show ?case by simp
next
  case 2 then show ?case by simp
next
  case 3 then show ?case by simp
next
  case (4 ops ts b x y)
  then show ?case by (auto dest: consume_length)
next
  case 5 then show ?case by simp
next
  case 6 then show ?case by simp
next
  case (7 ops ts x21 x22 x2 x y b xa ya xaa yb)
  then show ?case
    using parseComments_length' [of x22 x y] parseComments_length' [of ya xaa yb]
    by (auto dest!: consume_length)
next
  case (8 ops ts x21 x22 x2 x y b xa ya xaa yb ba xab yc)
  then show ?case
    using parseComments_length' [of x22 x y] parseComments_length' [of ya xaa yb]
      parse_shrinks_dom(1) [of ops yb]
    by (auto dest!: consume_length)
next
  case (9 ops ts b x y)
  then show ?case by (auto dest: consume_length)
next
  case 10 then show ?case by simp
next
  case 11 then show ?case by simp
next
  case 12 then show ?case by simp
next
  case (13 ops ts x21 x22 b x y)
  then show ?case using parse_shrinks_dom(1) [of ops ts] by auto
qed

declare parseValue.simps [simp del] parseObject.simps [simp del] objectLoop.simps [simp del]
  parseArray.simps [simp del] arrayLoop.simps [simp del]

text \<open>
  \<open>parse\<close>: the leading comments, then one value; the comments are put in front of the
  children of a root that is an object or an array.  What follows the value is not looked
  at.
\<close>

definition parse :: "'n NumberOps \<Rightarrow> Token list \<Rightarrow> error + 'n AstNode" where
  "parse ops tokens =
     (case parseComments tokens of
        (rootComments, ts) \<Rightarrow>
          if peek ts = None then Inr (JsonObject (map objComment rootComments))
          else
            (case parseValue ops ts of
               Inl e \<Rightarrow> Inl e
             | Inr (root, _) \<Rightarrow>
                 Inr (case root of
                        JsonObject children \<Rightarrow> JsonObject (map objComment rootComments @ children)
                      | JsonArray children \<Rightarrow> JsonArray (map nodeComment rootComments @ children)
                      | _ \<Rightarrow> root)))"

section \<open>Configuration\<close>

datatype IndentStyle = IndentSpace | IndentTab

datatype Newline = LF | CRLF

text \<open>
  \<open>MaaFormatConfig\<close>, its nested groups flattened.  \<open>indent.width\<close> is the argument of
  \<^verbatim>\<open>String.prototype.repeat\<close> in the constructor, which throws on a negative count, so
  a formatter exists for natural widths only; the threshold is compared with a length
  and is an integer of either sign.
\<close>

record MaaFormatConfig =
  version :: "jsstring option"
  indent_style :: IndentStyle
  indent_width :: nat
  insert_final_newline :: bool
  simple_array_threshold :: int
  coordinate_fields :: "jsstring list"
  control_flow_fields :: "jsstring list"
  always_multiline_fields :: "jsstring list"
  preserve_comments :: bool
  output_suffix :: jsstring
  encoding :: jsstring
  newline :: Newline

definition DEFAULT_CONFIG :: MaaFormatConfig where
  "DEFAULT_CONFIG =
     \<lparr>version = Some (js ''1.0''),
      indent_style = IndentTab,
      indent_width = 1,
      insert_final_newline = False,
      simple_array_threshold = 50,
      coordinate_fields =
        [js ''roi'', js ''roi_offset'', js ''target'', js ''target_offset'', js ''begin'',
         js ''begin_offset'', js ''end'', js ''end_offset'', js ''lower'', js ''upper''],
      control_flow_fields = [js ''next'', js ''interrupt'', js ''on_error'', js ''template''],
      always_multiline_fields =
        [js ''custom_action_param'', js ''custom_param'', js ''parameters'', js ''params'',
         js ''options'', js ''config''],
      preserve_comments = True,
      output_suffix = js '''',
      encoding = js ''utf-8'',
      newline = LF\<rparr>"

section \<open>MaaPipelineFormatter\<close>

text \<open>The object the constructor builds: the configuration, the indent unit and the three sets.\<close>

record MaaPipelineFormatter =
  config :: MaaFormatConfig
  indentStr :: jsstring
  coordinateFields :: "jsstring set"
  controlFlowFields :: "jsstring set"
  alwaysMultilineFields :: "jsstring set"

definition newFormatter :: "MaaFormatConfig \<Rightarrow> MaaPipelineFormatter" where
  "newFormatter cfg =
     \<lparr>config = cfg,
      indentStr = repeat (if indent_style cfg = IndentTab then [0x09] else [0x20]) (indent_width cfg),
      coordinateFields = set (coordinate_fields cfg),
      controlFlowFields = set (control_flow_fields cfg),
      alwaysMultilineFields = set (always_multiline_fields cfg)\<rparr>"

text \<open>The \<^verbatim>\<open>instanceof\<close> tests.\<close>

fun isComment :: "'n AstNode \<Rightarrow> bool" where
  "isComment (JsonComment text isBlock) = True"
| "isComment _ = False"

fun isNumber :: "'n AstNode \<Rightarrow> bool" where
  "isNumber (JsonNumber v raw) = True"
| "isNumber _ = False"

fun isArray :: "'n AstNode \<Rightarrow> bool" where
  "isArray (JsonArray children) = True"
| "isArray _ = False"

fun isObject :: "'n AstNode \<Rightarrow> bool" where
  "isObject (JsonObject children) = True"
| "isObject _ = False"

fun isObjComment :: "'n ObjChild \<Rightarrow> bool" where
  "isObjComment (ObjComment text isBlock) = True"
| "isObjComment _ = False"

fun allNumbers :: "'n AstNode list \<Rightarrow> bool" where
  "allNumbers [] = True"
| "allNumbers (child # rest) =
     (if isComment child then False
      else if \<not> isNumber child then False
      else allNumbers rest)"

definition isCoordinateArray :: "MaaPipelineFormatter \<Rightarrow> jsstring \<Rightarrow> 'n AstNode list \<Rightarrow> bool" where
  "isCoordinateArray this key children =
     (if key \<notin> coordinateFields this then False else allNumbers children)"

fun hasContainerValue :: "'n ObjChild list \<Rightarrow> bool" where
  "hasContainerValue [] = False"
| "hasContainerValue (child # rest) =
     (case child of
        ObjComment text isBlock \<Rightarrow> hasContainerValue rest
      | ObjPair key v \<Rightarrow> if isObject v \<or> isArray v then True else hasContainerValue rest)"

text \<open>
  \<open>valueIndices\<close> and \<open>lastValueIdx\<close> of the expanded branches: the positions of the
  children that are not comments, and the last of them, or \<open>-1\<close>.
\<close>

definition valueIndices :: "('a \<Rightarrow> bool) \<Rightarrow> 'a list \<Rightarrow> int list" where
  "valueIndices isC children =
     filter (\<lambda>i. i \<noteq> - 1)
       (map (\<lambda>(c, i). if isC c then - 1 else int i) (zip children [0..<length children]))"

definition lastValueIdx :: "('a \<Rightarrow> bool) \<Rightarrow> 'a list \<Rightarrow> int" where
  "lastValueIdx isC children =
     (let vi = valueIndices isC children
      in if length vi > 0 then vi ! (length vi - 1) else - 1)"

text \<open>
  \<open>formatNode\<close> with its helpers.  The helpers that take a \<open>JsonArray\<close> or a \<open>JsonObject\<close>
  in the source take its \<open>children\<close> here.  \<open>arrayLines\<close> and \<open>objectLines\<close> are the two
  \<^verbatim>\<open>for\<close> loops of the expanded branches: they carry the index \<open>i\<close>, the length \<open>n\<close> of
  \<open>node.children\<close> and \<open>lastValueIdx\<close>, and return the lines pushed from \<open>i\<close> on.
\<close>

function formatNode :: "'n NumberOps \<Rightarrow> MaaPipelineFormatter \<Rightarrow> 'n AstNode \<Rightarrow> nat \<Rightarrow> jsstring \<Rightarrow> bool \<Rightarrow> jsstring"
  and shouldInlineArray :: "'n NumberOps \<Rightarrow> MaaPipelineFormatter \<Rightarrow> jsstring \<Rightarrow> 'n AstNode list \<Rightarrow> bool"
  and shouldInlineObject :: "'n NumberOps \<Rightarrow> MaaPipelineFormatter \<Rightarrow> jsstring \<Rightarrow> 'n ObjChild list \<Rightarrow> bool"
  and formatInlineArray :: "'n NumberOps \<Rightarrow> MaaPipelineFormatter \<Rightarrow> 'n AstNode list \<Rightarrow> jsstring"
  and inlineArrayParts :: "'n NumberOps \<Rightarrow> MaaPipelineFormatter \<Rightarrow> 'n AstNode list \<Rightarrow> jsstring list"
  and formatInlineObject :: "'n NumberOps \<Rightarrow> MaaPipelineFormatter \<Rightarrow> 'n ObjChild list \<Rightarrow> jsstring"
  and inlineObjectParts :: "'n NumberOps \<Rightarrow> MaaPipelineFormatter \<Rightarrow> 'n ObjChild list \<Rightarrow> jsstring list"
  and arrayLines :: "'n NumberOps \<Rightarrow> MaaPipelineFormatter \<Rightarrow> nat \<Rightarrow> int \<Rightarrow> nat \<Rightarrow> nat \<Rightarrow> 'n AstNode list \<Rightarrow> jsstring list"
  and objectLines :: "'n NumberOps \<Rightarrow> MaaPipelineFormatter \<Rightarrow> nat \<Rightarrow> int \<Rightarrow> nat \<Rightarrow> nat \<Rightarrow> 'n ObjChild list \<Rightarrow> jsstring list"
where
  "formatNode ops this (JsonString v raw) level parentKey inlineMode = JSON_stringify v"
| "formatNode ops this (JsonNumber v raw) level parentKey inlineMode = numberToJSON ops v"
| "formatNode ops this (JsonBoolean v raw) level parentKey inlineMode =
     (if v then js ''true'' else js ''false'')"
| "formatNode ops this (JsonNull raw) level parentKey inlineMode = js ''null''"
| "formatNode ops this (JsonComment text isBlock) level parentKey inlineMode =
     (if inlineMode then [] else text)"
| "formatNode ops this (JsonArray children) level parentKey inlineMode =
     (if inlineMode then formatInlineArray ops this children
      else if shouldInlineArray ops this parentKey children then formatInlineArray ops this children
      else
        join [0x0A]
          ([js ''['']
           @ arrayLines ops this level (lastValueIdx isComment children) (length children) 0 children
           @ [repeat (indentStr this) level @ js '']'']))"
| "formatNode ops this (JsonObject children) level parentKey inlineMode =
     (if inlineMode then formatInlineObject ops this children
      else if shouldInlineObject ops this parentKey children then formatInlineObject ops this children
      else
        join [0x0A]
          ([js ''{'']
           @ objectLines ops this level (lastValueIdx isObjComment children) (length children) 0 children
           @ [repeat (indentStr this) level @ js ''}'']))"
| "shouldInlineArray ops this key children =
     (if length children = 0 then True
      else if list_ex (\<lambda>c. isComment c \<or> isObject c \<or> isArray c) children then False
      else if isCoordinateArray this key children then True
      else if key \<in> controlFlowFields this then False
      else int (length (formatInlineArray ops this children))
             \<le> simple_array_threshold (config this))"
| "shouldInlineObject ops this key children =
     (if length children = 0 then True
      else if key \<in> alwaysMultilineFields this then False
      else if list_ex isObjComment children then False
      else if hasContainerValue children then False
      else int (length (formatInlineObject ops this children))
             \<le> simple_array_threshold (config this))"
| "formatInlineArray ops this children =
     js ''['' @ join (js '', '') (inlineArrayParts ops this children) @ js '']''"
| "inlineArrayParts ops this [] = []"
| "inlineArrayParts ops this (child # rest) =
     formatNode ops this child 0 [] True # inlineArrayParts ops this rest"
| "formatInlineObject ops this children =
     js ''{'' @ join (js '', '') (inlineObjectParts ops this children) @ js ''}''"
| "inlineObjectParts ops this [] = []"
| "inlineObjectParts ops this (ObjComment text isBlock # rest) = inlineObjectParts ops this rest"
| "inlineObjectParts ops this (ObjPair key v # rest) =
     (JSON_stringify key @ js '': '' @ formatNode ops this v 0 [] True)
       # inlineObjectParts ops this rest"
| "arrayLines ops this level lastIdx n i [] = []"
| "arrayLines ops this level lastIdx n i (child # rest) =
     (let indent = repeat (indentStr this) (level + 1);
          childStr = formatNode ops this child (level + 1) [] False
      in (if isComment child then indent @ childStr
          else indent @ childStr @ (if i < n \<and> int i \<noteq> lastIdx then js '','' else [])))
       # arrayLines ops this level lastIdx n (i + 1) rest"
| "objectLines ops this level lastIdx n i [] = []"
| "objectLines ops this level lastIdx n i (ObjComment text isBlock # rest) =
     (repeat (indentStr this) (level + 1) @ text)
       # objectLines ops this level lastIdx n (i + 1) rest"
| "objectLines ops this level lastIdx n i (ObjPair key v # rest) =
     (repeat (indentStr this) (level + 1) @ JSON_stringify key @ js '': ''
        @ formatNode ops this v (level + 1) key False
        @ (if i < n \<and> int i \<noteq> lastIdx then js '','' else []))
       # objectLines ops this level lastIdx n (i + 1) rest"
  by pat_completeness auto
termination
  by (relation "measure (\<lambda>x. case x of
        Inl (Inl (Inl (ops, this, node, level, parentKey, inlineMode))) \<Rightarrow> 4 * size node
      | Inl (Inl (Inr (ops, this, key, children))) \<Rightarrow> 4 * size_list size children + 3
      | Inl (Inr (Inl (ops, this, key, children))) \<Rightarrow> 4 * size_list size children + 3
      | Inl (Inr (Inr (ops, this, children))) \<Rightarrow> 4 * size_list size children + 2
      | Inr (Inl (Inl (ops, this, children))) \<Rightarrow> 4 * size_list size children + 1
      | Inr (Inl (Inr (ops, this, children))) \<Rightarrow> 4 * size_list size children + 2
      | Inr (Inr (Inl (ops, this, children))) \<Rightarrow> 4 * size_list size children + 1
      | Inr (Inr (Inr (Inl (ops, this, level, lastIdx, n, i, children)))) \<Rightarrow>
          4 * size_list size children + 1
      | Inr (Inr (Inr (Inr (ops, this, level, lastIdx, n, i, children)))) \<Rightarrow>
          4 * size_list size children + 1)")
    auto

text \<open>\<^verbatim>\<open>replace(/\r?\n/g, newline)\<close>: scanning from the left, a line feed with the carriage
  return before it, if there is one, is replaced.\<close>

fun replaceNewlines :: "jsstring \<Rightarrow> jsstring \<Rightarrow> jsstring" where
  "replaceNewlines nl [] = []"
| "replaceNewlines nl [c] = (if c = 0x0A then nl else [c])"
| "replaceNewlines nl (c # d # cs) =
     (if c = 0x0D \<and> d = 0x0A then nl @ replaceNewlines nl cs
      else if c = 0x0A then nl @ replaceNewlines nl (d # cs)
      else c # replaceNewlines nl (d # cs))"

definition finalNewline :: "MaaFormatConfig \<Rightarrow> jsstring \<Rightarrow> jsstring" where
  "finalNewline cfg formatted =
     (if insert_final_newline cfg then
        (if formatted \<noteq> [] \<and> \<not> endsWith formatted [0x0A] then formatted @ [0x0A] else formatted)
      else
        (if formatted \<noteq> [] \<and> endsWith formatted [0x0A] then trimEnd formatted else formatted))"

definition format :: "'n NumberOps \<Rightarrow> MaaFormatConfig \<Rightarrow> jsstring \<Rightarrow> error + jsstring" where
  "format ops cfg text =
     (case tokenize text of
        Inl e \<Rightarrow> Inl e
      | Inr tokens \<Rightarrow>
          (case parse ops tokens of
             Inl e \<Rightarrow> Inl e
           | Inr ast \<Rightarrow>
               (let formatted = finalNewline cfg (formatNode ops (newFormatter cfg) ast 0 [] False);
                    nl = (if newline cfg = CRLF then [0x0D, 0x0A] else [0x0A])
                in Inr (replaceNewlines nl formatted))))"

declare formatNode.simps [simp del] shouldInlineArray.simps [simp del]
  shouldInlineObject.simps [simp del] formatInlineArray.simps [simp del]
  formatInlineObject.simps [simp del]

section \<open>Vocabulary of the properties\<close>

text \<open>
  \<open>literalOps\<close> is an instance of the number built-ins for closed examples: a number is
  the text of its literal and is printed as that text, which is what the host does for the
  short integers used there; a text that is no number literal is printed as \<^verbatim>\<open>null\<close>.
\<close>

definition literalOps :: "jsstring NumberOps" where
  "literalOps =
     \<lparr>parseFloat = (\<lambda>s. s),
      numberToJSON = (\<lambda>s. if matchNumber s = Some (length s) then s else js ''null'')\<rparr>"

text \<open>The text of the expanded branches of \<open>formatNode\<close>.\<close>

definition expandedArray :: "'n NumberOps \<Rightarrow> MaaPipelineFormatter \<Rightarrow> nat \<Rightarrow> 'n AstNode list \<Rightarrow> jsstring" where
  "expandedArray ops this level children =
     join [0x0A]
       ([js ''['']
        @ arrayLines ops this level (lastValueIdx isComment children) (length children) 0 children
        @ [repeat (indentStr this) level @ js '']''])"

definition expandedObject :: "'n NumberOps \<Rightarrow> MaaPipelineFormatter \<Rightarrow> nat \<Rightarrow> 'n ObjChild list \<Rightarrow> jsstring" where
  "expandedObject ops this level children =
     join [0x0A]
       ([js ''{'']
        @ objectLines ops this level (lastValueIdx isObjComment children) (length children) 0 children
        @ [repeat (indentStr this) level @ js ''}''])"

text \<open>An object child whose value is an object or an array.\<close>

fun isContainerPair :: "'n ObjChild \<Rightarrow> bool" where
  "isContainerPair (ObjComment text isBlock) = False"
| "isContainerPair (ObjPair key v) = (isObject v \<or> isArray v)"

lemma allNumbers_iff: "allNumbers cs \<longleftrightarrow> list_all isNumber cs"
proof (induction cs)
  case Nil
  show ?case by simp
next
  case (Cons c cs)
  have "isNumber c \<Longrightarrow> \<not> isComment c" by (cases c) auto
  with Cons show ?case by auto
qed

lemma hasContainerValue_iff: "hasContainerValue cs \<longleftrightarrow> list_ex isContainerPair cs"
proof (induction cs)
  case Nil
  show ?case by simp
next
  case (Cons c cs)
  then show ?case by (cases c) auto
qed

lemma formatNode_array:
  "formatNode ops this (JsonArray children) level k False =
     (if shouldInlineArray ops this k children then formatInlineArray ops this children
      else expandedArray ops this level children)"
  by (simp add: formatNode.simps expandedArray_def)

lemma formatNode_object:
  "formatNode ops this (JsonObject children) level k False =
     (if shouldInlineObject ops this k children then formatInlineObject ops this children
      else expandedObject ops this level children)"
  by (simp add: formatNode.simps expandedObject_def)

section \<open>The inline decisions\<close>

text \<open>
  C3.  An array under key \<open>k\<close> is rendered inline exactly when it is empty, or it has no
  comment, object or array among its children and either \<open>k\<close> is a coordinate field and
  every child is a number, or \<open>k\<close> is not a control-flow field and the inline text is no
  longer than the threshold; otherwise it is rendered expanded.  So a non-empty array
  under a control-flow key that is not a numeric coordinate array is expanded whatever
  its length, as the array of \<^verbatim>\<open>{"next": ["taskA", "taskB"]}\<close> is under the default
  configuration.
\<close>

theorem array_inline_decision:
  \<open>(shouldInlineArray ops (newFormatter cfg) k children \<longleftrightarrow>
      children = [] \<or>
      (\<not> list_ex (\<lambda>c. isComment c \<or> isObject c \<or> isArray c) children \<and>
       ((k \<in> set (coordinate_fields cfg) \<and> list_all isNumber children) \<or>
        (k \<notin> set (control_flow_fields cfg) \<and>
         int (length (formatInlineArray ops (newFormatter cfg) children))
           \<le> simple_array_threshold cfg))))
   \<and> formatNode ops (newFormatter cfg) (JsonArray children) level k False =
       (if shouldInlineArray ops (newFormatter cfg) k children
        then formatInlineArray ops (newFormatter cfg) children
        else expandedArray ops (newFormatter cfg) level children)
   \<and> (children \<noteq> [] \<and> k \<in> set (control_flow_fields cfg) \<and>
        \<not> (k \<in> set (coordinate_fields cfg) \<and> list_all isNumber children) \<longrightarrow>
      formatNode ops (newFormatter cfg) (JsonArray children) level k False =
        expandedArray ops (newFormatter cfg) level children)
   \<and> format ops DEFAULT_CONFIG (js ''{"next": ["taskA", "taskB"]}'') =
       Inr (js ''{'' @ [0x0A, 0x09] @ js ''"next": ['' @ [0x0A, 0x09, 0x09] @ js ''"taskA",''
            @ [0x0A, 0x09, 0x09] @ js ''"taskB"'' @ [0x0A, 0x09] @ js '']'' @ [0x0A] @ js ''}'')\<close>
proof -
  have dec: "shouldInlineArray ops (newFormatter cfg) k children \<longleftrightarrow>
      children = [] \<or>
      (\<not> list_ex (\<lambda>c. isComment c \<or> isObject c \<or> isArray c) children \<and>
       ((k \<in> set (coordinate_fields cfg) \<and> list_all isNumber children) \<or>
        (k \<notin> set (control_flow_fields cfg) \<and>
         int (length (formatInlineArray ops (newFormatter cfg) children))
           \<le> simple_array_threshold cfg)))"
    by (simp add: shouldInlineArray.simps isCoordinateArray_def allNumbers_iff newFormatter_def)
  have ex: "format ops DEFAULT_CONFIG (js ''{\"next\": [\"taskA\", \"taskB\"]}'') =
       Inr (js ''{'' @ [0x0A, 0x09] @ js ''\"next\": ['' @ [0x0A, 0x09, 0x09] @ js ''\"taskA\",''
            @ [0x0A, 0x09, 0x09] @ js ''\"taskB\"'' @ [0x0A, 0x09] @ js '']'' @ [0x0A] @ js ''}'')"
    by code_simp
  from dec ex show ?thesis
    by (simp only: formatNode_array) simp
qed

theorem array_inline_decision_witness:
  \<open>\<not> shouldInlineArray literalOps (newFormatter DEFAULT_CONFIG) (js ''next'')
       [JsonString (js ''taskA'') (js ''"taskA"''), JsonString (js ''taskB'') (js ''"taskB"'')]
   \<and> shouldInlineArray literalOps (newFormatter DEFAULT_CONFIG) (js ''roi'')
       [JsonNumber (js ''10'') (js ''10''), JsonNumber (js ''20'') (js ''20'')]\<close>
proof -
  have a: "js ''next'' \<in> set (control_flow_fields DEFAULT_CONFIG)"
    by (simp add: DEFAULT_CONFIG_def)
  have b: "js ''next'' \<notin> set (coordinate_fields DEFAULT_CONFIG)"
    by (simp add: DEFAULT_CONFIG_def js_def)
  have c: "js ''roi'' \<in> set (coordinate_fields DEFAULT_CONFIG)"
    by (simp add: DEFAULT_CONFIG_def)
  show ?thesis
    using array_inline_decision [of literalOps DEFAULT_CONFIG "js ''next''"
        "[JsonString (js ''taskA'') (js ''\"taskA\"''), JsonString (js ''taskB'') (js ''\"taskB\"'')]" 0]
      array_inline_decision [of literalOps DEFAULT_CONFIG "js ''roi''"
        "[JsonNumber (js ''10'') (js ''10''), JsonNumber (js ''20'') (js ''20'')]" 0]
      a b c
    by simp
qed

text \<open>
  C4.  An object under key \<open>k\<close> is rendered inline exactly when it is empty, or \<open>k\<close> is not
  an always-multiline field, no child is a comment, no value is an object or an array, and
  the inline text is no longer than the threshold; otherwise it is rendered expanded.
  Under the default configuration the object of \<^verbatim>\<open>{"params": {"a": 1}}\<close> is expanded
  although its inline text has 8 characters when the number is printed as one character.
\<close>

theorem object_inline_decision:
  \<open>(shouldInlineObject ops (newFormatter cfg) k children \<longleftrightarrow>
      children = [] \<or>
      (k \<notin> set (always_multiline_fields cfg) \<and> \<not> list_ex isObjComment children \<and>
       \<not> list_ex isContainerPair children \<and>
       int (length (formatInlineObject ops (newFormatter cfg) children))
         \<le> simple_array_threshold cfg))
   \<and> formatNode ops (newFormatter cfg) (JsonObject children) level k False =
       (if shouldInlineObject ops (newFormatter cfg) k children
        then formatInlineObject ops (newFormatter cfg) children
        else expandedObject ops (newFormatter cfg) level children)
   \<and> formatNode ops (newFormatter DEFAULT_CONFIG)
        (JsonObject [ObjPair (js ''params'') (JsonObject [ObjPair (js ''a'') (JsonNumber v raw)])])
        0 [] False =
       js ''{'' @ [0x0A, 0x09] @ js ''"params": {'' @ [0x0A, 0x09, 0x09] @ js ''"a": ''
         @ numberToJSON ops v @ [0x0A, 0x09] @ js ''}'' @ [0x0A] @ js ''}''
   \<and> (length (numberToJSON ops v) \<le> 43 \<longrightarrow>
        int (length (formatInlineObject ops (newFormatter DEFAULT_CONFIG)
                   [ObjPair (js ''a'') (JsonNumber v raw)]))
          \<le> simple_array_threshold DEFAULT_CONFIG)\<close>
proof -
  have dec: "shouldInlineObject ops (newFormatter cfg) k children \<longleftrightarrow>
      children = [] \<or>
      (k \<notin> set (always_multiline_fields cfg) \<and> \<not> list_ex isObjComment children \<and>
       \<not> list_ex isContainerPair children \<and>
       int (length (formatInlineObject ops (newFormatter cfg) children))
         \<le> simple_array_threshold cfg)"
    by (simp add: shouldInlineObject.simps hasContainerValue_iff newFormatter_def)
  have ex: "formatNode ops (newFormatter DEFAULT_CONFIG)
        (JsonObject [ObjPair (js ''params'') (JsonObject [ObjPair (js ''a'') (JsonNumber v raw)])])
        0 [] False =
       js ''{'' @ [0x0A, 0x09] @ js ''\"params\": {'' @ [0x0A, 0x09, 0x09] @ js ''\"a\": ''
         @ numberToJSON ops v @ [0x0A, 0x09] @ js ''}'' @ [0x0A] @ js ''}''"
    by code_simp simp
  have len: "formatInlineObject ops (newFormatter DEFAULT_CONFIG)
                   [ObjPair (js ''a'') (JsonNumber v raw)]
      = js ''{\"a\": '' @ numberToJSON ops v @ js ''}''"
    by code_simp
  have thr: "simple_array_threshold DEFAULT_CONFIG = 50"
    by (simp add: DEFAULT_CONFIG_def)
  have one: "length (js ''{\"a\": '') = 6" "length (js ''}'') = 1"
    by (simp_all add: js_def)
  have under: "length (numberToJSON ops v) \<le> 43 \<longrightarrow>
        int (length (formatInlineObject ops (newFormatter DEFAULT_CONFIG)
                   [ObjPair (js ''a'') (JsonNumber v raw)]))
          \<le> simple_array_threshold DEFAULT_CONFIG"
    by (simp add: len thr one)
  from dec ex under show ?thesis
    by (simp only: formatNode_object)
qed

theorem object_inline_decision_witness:
  \<open>\<not> shouldInlineObject literalOps (newFormatter DEFAULT_CONFIG) (js ''params'')
       [ObjPair (js ''a'') (JsonNumber (js ''1'') (js ''1''))]
   \<and> shouldInlineObject literalOps (newFormatter DEFAULT_CONFIG) (js ''p'')
       [ObjPair (js ''a'') (JsonNumber (js ''1'') (js ''1''))]
   \<and> format literalOps DEFAULT_CONFIG (js ''{"params": {"a": 1}}'') =
          Inr (js ''{'' @ [0x0A, 0x09] @ js ''"params": {'' @ [0x0A, 0x09, 0x09] @ js ''"a": 1''
               @ [0x0A, 0x09] @ js ''}'' @ [0x0A] @ js ''}'')\<close>
proof -
  have a: "js ''params'' \<in> set (always_multiline_fields DEFAULT_CONFIG)"
    by (simp add: DEFAULT_CONFIG_def)
  have b: "js ''p'' \<notin> set (always_multiline_fields DEFAULT_CONFIG)"
    by (simp add: DEFAULT_CONFIG_def js_def)
  have c: "length (numberToJSON literalOps (js ''1'')) \<le> 43"
    by code_simp
  have e: "format literalOps DEFAULT_CONFIG (js ''{\"params\": {\"a\": 1}}'') =
          Inr (js ''{'' @ [0x0A, 0x09] @ js ''\"params\": {'' @ [0x0A, 0x09, 0x09] @ js ''\"a\": 1''
               @ [0x0A, 0x09] @ js ''}'' @ [0x0A] @ js ''}'')"
    by code_simp
  show ?thesis
    using object_inline_decision [of literalOps DEFAULT_CONFIG "js ''params''"
        "[ObjPair (js ''a'') (JsonNumber (js ''1'') (js ''1''))]" 0 "js ''1''" "js ''1''"]
      object_inline_decision [of literalOps DEFAULT_CONFIG "js ''p''"
        "[ObjPair (js ''a'') (JsonNumber (js ''1'') (js ''1''))]" 0 "js ''1''" "js ''1''"]
      a b c e
    by simp
qed

section \<open>The threshold\<close>

text \<open>
  C5, as the claim states it, fails for an array that another rule inlines whatever its
  length: under the default configuration the array below, under the coordinate field
  \<^verbatim>\<open>roi\<close>, has no comment, object or array child, its key is no control-flow field, its
  inline text has 51 characters, one more than the threshold, and it is rendered inline.
\<close>

theorem threshold_boundary_counterexample:
  \<open>(let children = [JsonNumber (js ''10000000000'') (js ''10000000000''),
                     JsonNumber (js ''10000000000'') (js ''10000000000''),
                     JsonNumber (js ''10000000000'') (js ''10000000000''),
                     JsonNumber (js ''1000000000'') (js ''1000000000'')];
         this = newFormatter DEFAULT_CONFIG
     in \<not> list_ex (\<lambda>c. isComment c \<or> isObject c \<or> isArray c) children
        \<and> js ''roi'' \<notin> set (control_flow_fields DEFAULT_CONFIG)
        \<and> int (length (formatInlineArray literalOps this children))
            = simple_array_threshold DEFAULT_CONFIG + 1
        \<and> formatNode literalOps this (JsonArray children) 1 (js ''roi'') False
            = formatInlineArray literalOps this children
        \<and> formatNode literalOps this (JsonArray children) 1 (js ''roi'') False
            \<noteq> expandedArray literalOps this 1 children)\<close>
  by code_simp

text \<open>
  C5, amended.  For a non-empty array with no comment, object or array child, whose key is
  not a control-flow field and which is not a numeric array under a coordinate field, and
  for a non-empty object whose key is not an always-multiline field, with no comment child
  and no object or array value: an inline text exactly as long as the threshold is
  rendered inline, one a character longer is rendered expanded.
\<close>

theorem threshold_boundary:
  \<open>(children \<noteq> [] \<and> \<not> list_ex (\<lambda>c. isComment c \<or> isObject c \<or> isArray c) children \<and>
     k \<notin> set (control_flow_fields cfg) \<and>
     \<not> (k \<in> set (coordinate_fields cfg) \<and> list_all isNumber children) \<longrightarrow>
       (int (length (formatInlineArray ops (newFormatter cfg) children)) = simple_array_threshold cfg \<longrightarrow>
          formatNode ops (newFormatter cfg) (JsonArray children) level k False =
            formatInlineArray ops (newFormatter cfg) children) \<and>
       (int (length (formatInlineArray ops (newFormatter cfg) children)) = simple_array_threshold cfg + 1 \<longrightarrow>
          formatNode ops (newFormatter cfg) (JsonArray children) level k False =
            expandedArray ops (newFormatter cfg) level children))
   \<and> (members \<noteq> [] \<and> k \<notin> set (always_multiline_fields cfg) \<and>
       \<not> list_ex isObjComment members \<and> \<not> list_ex isContainerPair members \<longrightarrow>
       (int (length (formatInlineObject ops (newFormatter cfg) members)) = simple_array_threshold cfg \<longrightarrow>
          formatNode ops (newFormatter cfg) (JsonObject members) level k False =
            formatInlineObject ops (newFormatter cfg) members) \<and>
       (int (length (formatInlineObject ops (newFormatter cfg) members)) = simple_array_threshold cfg + 1 \<longrightarrow>
          formatNode ops (newFormatter cfg) (JsonObject members) level k False =
            expandedObject ops (newFormatter cfg) level members))\<close>
  by (simp add: formatNode_array formatNode_object shouldInlineArray.simps
      shouldInlineObject.simps isCoordinateArray_def allNumbers_iff hasContainerValue_iff
      newFormatter_def)

theorem threshold_boundary_witness:
  \<open>(let children = [JsonString (js ''ab'') (js ''"ab"'')];
         members = [ObjPair (js ''a'') (JsonNull (js ''null''))];
         at6 = DEFAULT_CONFIG\<lparr>simple_array_threshold := 6\<rparr>;
         at5 = DEFAULT_CONFIG\<lparr>simple_array_threshold := 5\<rparr>;
         at11 = DEFAULT_CONFIG\<lparr>simple_array_threshold := 11\<rparr>;
         at10 = DEFAULT_CONFIG\<lparr>simple_array_threshold := 10\<rparr>
     in formatNode literalOps (newFormatter at6) (JsonArray children) 0 (js ''k'') False = js ''["ab"]''
        \<and> formatNode literalOps (newFormatter at5) (JsonArray children) 0 (js ''k'') False
            = js ''['' @ [0x0A, 0x09] @ js ''"ab"'' @ [0x0A] @ js '']''
        \<and> formatNode literalOps (newFormatter at11) (JsonObject members) 0 (js ''k'') False
            = js ''{"a": null}''
        \<and> formatNode literalOps (newFormatter at10) (JsonObject members) 0 (js ''k'') False
            = js ''{'' @ [0x0A, 0x09] @ js ''"a": null'' @ [0x0A] @ js ''}'')\<close>
proof -
  define children :: "jsstring AstNode list" where "children = [JsonString (js ''ab'') (js ''\"ab\"'')]"
  define members :: "jsstring ObjChild list" where "members = [ObjPair (js ''a'') (JsonNull (js ''null''))]"
  define at6 where "at6 = DEFAULT_CONFIG\<lparr>simple_array_threshold := 6\<rparr>"
  define at5 where "at5 = DEFAULT_CONFIG\<lparr>simple_array_threshold := 5\<rparr>"
  define at11 where "at11 = DEFAULT_CONFIG\<lparr>simple_array_threshold := 11\<rparr>"
  define at10 where "at10 = DEFAULT_CONFIG\<lparr>simple_array_threshold := 10\<rparr>"
  note defs = children_def members_def at6_def at5_def at11_def at10_def
  have side: "children \<noteq> []" "\<not> list_ex (\<lambda>c. isComment c \<or> isObject c \<or> isArray c) children"
    "members \<noteq> []" "\<not> list_ex isObjComment members" "\<not> list_ex isContainerPair members"
    by (simp_all add: defs)
  have keys: "js ''k'' \<notin> set (control_flow_fields at6)" "js ''k'' \<notin> set (coordinate_fields at6)"
    "js ''k'' \<notin> set (control_flow_fields at5)" "js ''k'' \<notin> set (coordinate_fields at5)"
    "js ''k'' \<notin> set (always_multiline_fields at11)" "js ''k'' \<notin> set (always_multiline_fields at10)"
    by (simp_all add: defs DEFAULT_CONFIG_def js_def)
  have ia: "formatInlineArray literalOps (newFormatter at6) children = js ''[\"ab\"]''"
    "formatInlineArray literalOps (newFormatter at5) children = js ''[\"ab\"]''"
    unfolding defs by code_simp+
  have io: "formatInlineObject literalOps (newFormatter at11) members = js ''{\"a\": null}''"
    "formatInlineObject literalOps (newFormatter at10) members = js ''{\"a\": null}''"
    unfolding defs by code_simp+
  have ea: "expandedArray literalOps (newFormatter at5) 0 children
              = js ''['' @ [0x0A, 0x09] @ js ''\"ab\"'' @ [0x0A] @ js '']''"
    unfolding defs by code_simp
  have eo: "expandedObject literalOps (newFormatter at10) 0 members
              = js ''{'' @ [0x0A, 0x09] @ js ''\"a\": null'' @ [0x0A] @ js ''}''"
    unfolding defs by code_simp
  have thr: "simple_array_threshold at6 = 6" "simple_array_threshold at5 = 5"
    "simple_array_threshold at11 = 11" "simple_array_threshold at10 = 10"
    by (simp_all add: defs)
  have lens: "int (length (js ''[\"ab\"]'')) = 6" "int (length (js ''{\"a\": null}'')) = 11"
    by (simp_all add: js_def)
  have r1: "formatNode literalOps (newFormatter at6) (JsonArray children) 0 (js ''k'') False = js ''[\"ab\"]''"
    using threshold_boundary [of children "js ''k''" at6 literalOps 0 members] side keys ia thr lens
    by simp
  have r2: "formatNode literalOps (newFormatter at5) (JsonArray children) 0 (js ''k'') False
            = js ''['' @ [0x0A, 0x09] @ js ''\"ab\"'' @ [0x0A] @ js '']''"
    using threshold_boundary [of children "js ''k''" at5 literalOps 0 members] side keys ia ea thr lens
    by simp
  have r3: "formatNode literalOps (newFormatter at11) (JsonObject members) 0 (js ''k'') False
            = js ''{\"a\": null}''"
    using threshold_boundary [of children "js ''k''" at11 literalOps 0 members] side keys io thr lens
    by simp
  have r4: "formatNode literalOps (newFormatter at10) (JsonObject members) 0 (js ''k'') False
            = js ''{'' @ [0x0A, 0x09] @ js ''\"a\": null'' @ [0x0A] @ js ''}''"
    using threshold_boundary [of children "js ''k''" at10 literalOps 0 members] side keys io eo thr lens
    by simp
  from r1 r2 r3 r4 show ?thesis
    unfolding defs Let_def by blast
qed

section \<open>Commas in the expanded branches\<close>

lemma valueIndices_snoc:
  "valueIndices isC (xs @ [x]) = valueIndices isC xs @ (if isC x then [] else [int (length xs)])"
  by (simp add: valueIndices_def)

lemma lastValueIdx_Nil: "lastValueIdx isC [] = - 1"
  by (simp add: lastValueIdx_def valueIndices_def)

lemma lastValueIdx_snoc:
  "lastValueIdx isC (xs @ [x]) = (if isC x then lastValueIdx isC xs else int (length xs))"
  by (simp add: lastValueIdx_def valueIndices_snoc Let_def nth_append)

text \<open>A child that is a value differs from \<open>lastValueIdx\<close> exactly when a value follows it.\<close>

lemma lastValueIdx_later:
  "i < length xs \<Longrightarrow> \<not> isC (xs ! i) \<Longrightarrow>
     int i \<noteq> lastValueIdx isC xs \<longleftrightarrow> list_ex (\<lambda>c. \<not> isC c) (drop (Suc i) xs)"
proof (induction xs rule: rev_induct)
  case Nil
  then show ?case by simp
next
  case (snoc x xs)
  show ?case
  proof (cases "i < length xs")
    case True
    with snoc.prems have v: "\<not> isC (xs ! i)" by (simp add: nth_append)
    from True have d: "drop (Suc i) (xs @ [x]) = drop (Suc i) xs @ [x]" by simp
    show ?thesis
      using snoc.IH [OF True v] True by (simp add: lastValueIdx_snoc d)
  next
    case False
    with snoc.prems have i: "i = length xs" by simp
    with snoc.prems have "\<not> isC x" by simp
    with i show ?thesis by (simp add: lastValueIdx_snoc)
  qed
qed

lemma arrayLines_map:
  "arrayLines ops this level lastIdx n i rest =
     map (\<lambda>j. repeat (indentStr this) (level + 1)
               @ formatNode ops this (rest ! j) (level + 1) [] False
               @ (if \<not> isComment (rest ! j) \<and> i + j < n \<and> int (i + j) \<noteq> lastIdx then js '','' else []))
       [0..<length rest]"
proof (induction rest arbitrary: i)
  case Nil
  show ?case by simp
next
  case (Cons child rest)
  show ?case
    by (simp add: Cons.IH [of "Suc i"] map_upt_Suc Let_def del: upt_Suc)
qed

lemma objectLines_map:
  "objectLines ops this level lastIdx n i rest =
     map (\<lambda>j. repeat (indentStr this) (level + 1)
               @ (case rest ! j of
                    ObjComment text isBlock \<Rightarrow> text
                  | ObjPair key v \<Rightarrow>
                      JSON_stringify key @ js '': '' @ formatNode ops this v (level + 1) key False
                        @ (if i + j < n \<and> int (i + j) \<noteq> lastIdx then js '','' else [])))
       [0..<length rest]"
proof (induction rest arbitrary: i)
  case Nil
  show ?case by simp
next
  case (Cons child rest)
  show ?case
    by (cases child) (auto simp add: Cons.IH [of "Suc i"] map_upt_Suc simp del: upt_Suc)
qed

text \<open>
  C6.  An array or object that is rendered expanded is the opening bracket, one line for
  each child in order, and the closing bracket at the indent of the container, joined by
  line feeds.  The line of a child starts one indent deeper than the container.  The line
  of a value ends with a comma exactly when another value follows it among the children,
  comments being skipped; the line of a comment is the comment and never has a comma.
\<close>

theorem expanded_comma_placement:
  \<open>(\<not> shouldInlineArray ops this k children \<longrightarrow>
      formatNode ops this (JsonArray children) level k False =
        join [0x0A]
          ([js ''['']
           @ map (\<lambda>i. repeat (indentStr this) (level + 1)
                     @ formatNode ops this (children ! i) (level + 1) [] False
                     @ (if \<not> isComment (children ! i)
                           \<and> list_ex (\<lambda>c. \<not> isComment c) (drop (Suc i) children)
                        then js '','' else []))
               [0..<length children]
           @ [repeat (indentStr this) level @ js '']'']))
   \<and> (\<not> shouldInlineObject ops this k members \<longrightarrow>
      formatNode ops this (JsonObject members) level k False =
        join [0x0A]
          ([js ''{'']
           @ map (\<lambda>i. repeat (indentStr this) (level + 1)
                     @ (case members ! i of
                          ObjComment text isBlock \<Rightarrow> text
                        | ObjPair key v \<Rightarrow>
                            JSON_stringify key @ js '': ''
                              @ formatNode ops this v (level + 1) key False
                              @ (if list_ex (\<lambda>c. \<not> isObjComment c) (drop (Suc i) members)
                                 then js '','' else [])))
               [0..<length members]
           @ [repeat (indentStr this) level @ js ''}'']))
   \<and> (\<forall>text isBlock lvl key mode. mode = False \<longrightarrow>
        formatNode ops this (JsonComment text isBlock) lvl key mode = text)\<close>
proof -
  have arr: "arrayLines ops this level (lastValueIdx isComment children) (length children) 0 children =
      map (\<lambda>i. repeat (indentStr this) (level + 1)
                @ formatNode ops this (children ! i) (level + 1) [] False
                @ (if \<not> isComment (children ! i)
                      \<and> list_ex (\<lambda>c. \<not> isComment c) (drop (Suc i) children)
                   then js '','' else []))
        [0..<length children]"
    unfolding arrayLines_map
  proof (rule map_cong [OF refl])
    fix i assume "i \<in> set [0..<length children]"
    then have i: "i < length children" by simp
    show "repeat (indentStr this) (level + 1)
            @ formatNode ops this (children ! i) (level + 1) [] False
            @ (if \<not> isComment (children ! i) \<and> 0 + i < length children
                  \<and> int (0 + i) \<noteq> lastValueIdx isComment children then js '','' else [])
          = repeat (indentStr this) (level + 1)
            @ formatNode ops this (children ! i) (level + 1) [] False
            @ (if \<not> isComment (children ! i)
                  \<and> list_ex (\<lambda>c. \<not> isComment c) (drop (Suc i) children)
               then js '','' else [])"
      using i lastValueIdx_later [of i children isComment] by auto
  qed
  have obj: "objectLines ops this level (lastValueIdx isObjComment members) (length members) 0 members =
      map (\<lambda>i. repeat (indentStr this) (level + 1)
                @ (case members ! i of
                     ObjComment text isBlock \<Rightarrow> text
                   | ObjPair key v \<Rightarrow>
                       JSON_stringify key @ js '': ''
                         @ formatNode ops this v (level + 1) key False
                         @ (if list_ex (\<lambda>c. \<not> isObjComment c) (drop (Suc i) members)
                            then js '','' else [])))
        [0..<length members]"
    unfolding objectLines_map
  proof (rule map_cong [OF refl])
    fix i assume "i \<in> set [0..<length members]"
    then have i: "i < length members" by simp
    show "repeat (indentStr this) (level + 1)
            @ (case members ! i of
                 ObjComment text isBlock \<Rightarrow> text
               | ObjPair key v \<Rightarrow>
                   JSON_stringify key @ js '': '' @ formatNode ops this v (level + 1) key False
                     @ (if 0 + i < length members \<and> int (0 + i) \<noteq> lastValueIdx isObjComment members
                        then js '','' else []))
          = repeat (indentStr this) (level + 1)
            @ (case members ! i of
                 ObjComment text isBlock \<Rightarrow> text
               | ObjPair key v \<Rightarrow>
                   JSON_stringify key @ js '': '' @ formatNode ops this v (level + 1) key False
                     @ (if list_ex (\<lambda>c. \<not> isObjComment c) (drop (Suc i) members)
                        then js '','' else []))"
      using i lastValueIdx_later [of i members isObjComment]
      by (cases "members ! i") auto
  qed
  show ?thesis
    by (simp add: formatNode_array formatNode_object expandedArray_def expandedObject_def arr obj
        formatNode.simps)
qed

theorem expanded_comma_placement_witness:
  \<open>formatNode literalOps (newFormatter DEFAULT_CONFIG)
      (JsonArray [JsonComment (js ''// a'') False, JsonNumber (js ''1'') (js ''1''),
                  JsonComment (js ''/* b */'') True, JsonArray [],
                  JsonComment (js ''// c'') False]) 0 (js ''next'') False
     = js ''['' @ [0x0A, 0x09] @ js ''// a'' @ [0x0A, 0x09] @ js ''1,'' @ [0x0A, 0x09] @ js ''/* b */''
         @ [0x0A, 0x09] @ js ''[]'' @ [0x0A, 0x09] @ js ''// c'' @ [0x0A] @ js '']''
   \<and> formatNode literalOps (newFormatter DEFAULT_CONFIG)
      (JsonObject [ObjPair (js ''x'') (JsonNull (js ''null'')), ObjComment (js ''// a'') False,
                   ObjPair (js ''y'') (JsonBoolean True (js ''true'')),
                   ObjComment (js ''// b'') False]) 0 [] False
     = js ''{'' @ [0x0A, 0x09] @ js ''"x": null,'' @ [0x0A, 0x09] @ js ''// a'' @ [0x0A, 0x09]
         @ js ''"y": true'' @ [0x0A, 0x09] @ js ''// b'' @ [0x0A] @ js ''}''\<close>
proof -
  define children :: "jsstring AstNode list" where
    "children = [JsonComment (js ''// a'') False, JsonNumber (js ''1'') (js ''1''),
                  JsonComment (js ''/* b */'') True, JsonArray [],
                  JsonComment (js ''// c'') False]"
  define members :: "jsstring ObjChild list" where
    "members = [ObjPair (js ''x'') (JsonNull (js ''null'')), ObjComment (js ''// a'') False,
                   ObjPair (js ''y'') (JsonBoolean True (js ''true'')),
                   ObjComment (js ''// b'') False]"
  have a: "\<not> shouldInlineArray literalOps (newFormatter DEFAULT_CONFIG) (js ''next'') children"
    unfolding children_def by code_simp
  have b: "\<not> shouldInlineObject literalOps (newFormatter DEFAULT_CONFIG) [] members"
    unfolding members_def by code_simp
  have ra: "join [0x0A]
          ([js ''['']
           @ map (\<lambda>i. repeat (indentStr (newFormatter DEFAULT_CONFIG)) (0 + 1)
                     @ formatNode literalOps (newFormatter DEFAULT_CONFIG) (children ! i) (0 + 1) [] False
                     @ (if \<not> isComment (children ! i)
                           \<and> list_ex (\<lambda>c. \<not> isComment c) (drop (Suc i) children)
                        then js '','' else []))
               [0..<length children]
           @ [repeat (indentStr (newFormatter DEFAULT_CONFIG)) 0 @ js '']''])
     = js ''['' @ [0x0A, 0x09] @ js ''// a'' @ [0x0A, 0x09] @ js ''1,'' @ [0x0A, 0x09] @ js ''/* b */''
         @ [0x0A, 0x09] @ js ''[]'' @ [0x0A, 0x09] @ js ''// c'' @ [0x0A] @ js '']''"
    unfolding children_def by code_simp
  have rb: "join [0x0A]
          ([js ''{'']
           @ map (\<lambda>i. repeat (indentStr (newFormatter DEFAULT_CONFIG)) (0 + 1)
                     @ (case members ! i of
                          ObjComment text isBlock \<Rightarrow> text
                        | ObjPair key v \<Rightarrow>
                            JSON_stringify key @ js '': ''
                              @ formatNode literalOps (newFormatter DEFAULT_CONFIG) v (0 + 1) key False
                              @ (if list_ex (\<lambda>c. \<not> isObjComment c) (drop (Suc i) members)
                                 then js '','' else [])))
               [0..<length members]
           @ [repeat (indentStr (newFormatter DEFAULT_CONFIG)) 0 @ js ''}''])
     = js ''{'' @ [0x0A, 0x09] @ js ''\"x\": null,'' @ [0x0A, 0x09] @ js ''// a'' @ [0x0A, 0x09]
         @ js ''\"y\": true'' @ [0x0A, 0x09] @ js ''// b'' @ [0x0A] @ js ''}''"
    unfolding members_def by code_simp
  show ?thesis
    using expanded_comma_placement [of literalOps "newFormatter DEFAULT_CONFIG" "js ''next''"
        children 0 members]
      expanded_comma_placement [of literalOps "newFormatter DEFAULT_CONFIG" "[]"
        children 0 members] a b ra rb
    unfolding children_def [symmetric] members_def [symmetric]
    by simp
qed

section \<open>What the parser consumes\<close>

text \<open>
  The nesting depth of a run of tokens: an opening brace or bracket counts \<open>1\<close>, a closing
  one \<open>-1\<close>.
\<close>

fun delta :: "Token \<Rightarrow> int" where
  "delta t =
     (if type t = LBRACE \<or> type t = LBRACKET then 1
      else if type t = RBRACE \<or> type t = RBRACKET then - 1
      else 0)"

definition depth :: "Token list \<Rightarrow> int" where
  "depth ts = sum_list (map delta ts)"

lemma depth_simps [simp]:
  "depth [] = 0" "depth (t # ts) = delta t + depth ts" "depth (xs @ ys) = depth xs + depth ys"
  by (simp_all add: depth_def)

lemma depth_comments: "list_all (\<lambda>t. type t = COMMENT) c \<Longrightarrow> depth c = 0"
  by (induction c) auto

text \<open>
  \<open>consumes f d ts x r\<close>: the call \<open>f ts\<close> returned \<open>x\<close> and left \<open>r\<close>; it read a non-empty
  prefix of depth \<open>d\<close>, and returns \<open>x\<close> again whatever follows that prefix.
\<close>

definition consumes :: "(Token list \<Rightarrow> error + ('a \<times> Token list)) \<Rightarrow> int \<Rightarrow> Token list \<Rightarrow> 'a \<Rightarrow> Token list \<Rightarrow> bool" where
  "consumes f d ts x r \<longleftrightarrow>
     (\<exists>p. ts = p @ r \<and> p \<noteq> [] \<and> depth p = d \<and> (\<forall>r'. f (p @ r') = Inr (x, r')))"

lemma consumesI:
  "ts = p @ r \<Longrightarrow> p \<noteq> [] \<Longrightarrow> depth p = d \<Longrightarrow> (\<And>r'. f (p @ r') = Inr (x, r')) \<Longrightarrow> consumes f d ts x r"
  unfolding consumes_def by blast

lemma parseValue_Cons:
  "parseValue ops (token # rest) =
          (case type token of
             LBRACE \<Rightarrow> parseObject ops (token # rest)
           | LBRACKET \<Rightarrow> parseArray ops (token # rest)
           | STRING \<Rightarrow>
               (case JSON_parse (tvalue token) of
                  None \<Rightarrow> Inl SyntaxError
                | Some v \<Rightarrow> Inr (JsonString v (tvalue token), rest))
           | NUMBER \<Rightarrow> Inr (JsonNumber (parseFloat ops (tvalue token)) (tvalue token), rest)
           | BOOLEAN \<Rightarrow> Inr (JsonBoolean (tvalue token = js ''true'') (tvalue token), rest)
           | NULL \<Rightarrow> Inr (JsonNull (tvalue token), rest)
           | COMMENT \<Rightarrow> Inr (nodeComment (commentOf token), rest)
           | _ \<Rightarrow> Inl (UnexpectedToken (tvalue token) (line token)))"
  by (simp add: parseValue.simps parseComment_def consume_def peek_def split: TokenType.splits)

lemma parseObject_Cons:
  "parseObject ops (token # rest) =
     (if type token \<noteq> LBRACE then Inl (ExpectedTokenType LBRACE (type token) (line token))
      else (case objectLoop ops rest of
             Inl e \<Rightarrow> Inl e
           | Inr (children, rest') \<Rightarrow> Inr (JsonObject children, rest')))"
  by (simp add: parseObject.simps consume_def peek_def)

lemma parseArray_Cons:
  "parseArray ops (token # rest) =
     (if type token \<noteq> LBRACKET then Inl (ExpectedTokenType LBRACKET (type token) (line token))
      else (case arrayLoop ops rest of
             Inl e \<Rightarrow> Inl e
           | Inr (children, rest') \<Rightarrow> Inr (JsonArray children, rest')))"
  by (simp add: parseArray.simps consume_def peek_def)

lemma parseComments_split:
  "parseComments ts = (cs, r) \<Longrightarrow>
     \<exists>c. ts = c @ r \<and> list_all (\<lambda>t. type t = COMMENT) c \<and> cs = map commentOf c
         \<and> (r = [] \<or> type (hd r) \<noteq> COMMENT)"
proof (induction ts arbitrary: cs r)
  case Nil
  then show ?case by simp
next
  case (Cons t ts)
  show ?case
  proof (cases "type t = COMMENT")
    case True
    obtain cs' r' where p: "parseComments ts = (cs', r')" by (cases "parseComments ts")
    with Cons.prems True have e: "cs = commentOf t # cs'" "r = r'" by auto
    from Cons.IH [OF p] obtain c where
      "ts = c @ r'" "list_all (\<lambda>t. type t = COMMENT) c" "cs' = map commentOf c"
      "r' = [] \<or> type (hd r') \<noteq> COMMENT" by blast
    with e True show ?thesis by (intro exI [of _ "t # c"]) simp
  next
    case False
    with Cons.prems show ?thesis by (intro exI [of _ "[]"]) auto
  qed
qed

lemma parseComments_append:
  "list_all (\<lambda>t. type t = COMMENT) c \<Longrightarrow> r = [] \<or> type (hd r) \<noteq> COMMENT \<Longrightarrow>
     parseComments (c @ r) = (map commentOf c, r)"
proof (induction c)
  case Nil
  then show ?case by (cases r) auto
next
  case (Cons t c)
  then show ?case by simp
qed

lemma parse_consumes:
  shows "\<forall>v r. parseValue ops ts = Inr (v, r) \<longrightarrow> consumes (parseValue ops) 0 ts v r"
    and "\<forall>v r. parseObject ops ts = Inr (v, r) \<longrightarrow> consumes (parseObject ops) 0 ts v r"
    and "\<forall>cs r. objectLoop ops ts = Inr (cs, r) \<longrightarrow> consumes (objectLoop ops) (- 1) ts cs r"
    and "\<forall>v r. parseArray ops ts = Inr (v, r) \<longrightarrow> consumes (parseArray ops) 0 ts v r"
    and "\<forall>cs r. arrayLoop ops ts = Inr (cs, r) \<longrightarrow> consumes (arrayLoop ops) (- 1) ts cs r"
proof (induct ops ts and ops ts and ops ts and ops ts and ops ts
    rule: parseValue_parseObject_objectLoop_parseArray_arrayLoop.induct)
  case (1 ops ts)
  show ?case
  proof (intro allI impI)
    fix v r assume a: "parseValue ops ts = Inr (v, r)"
    then obtain token rest where ts: "ts = token # rest"
      by (cases ts) (auto simp: parseValue.simps)
    show "consumes (parseValue ops) 0 ts v r"
    proof (cases "type token = LBRACE \<or> type token = LBRACKET")
      case True
      then show ?thesis
      proof
        assume t: "type token = LBRACE"
        with a ts have "parseObject ops ts = Inr (v, r)" by (simp add: parseValue_Cons)
        with 1(1) [OF ts t] obtain p where p: "ts = p @ r" "p \<noteq> []" "depth p = 0"
          "\<And>r'. parseObject ops (p @ r') = Inr (v, r')"
          unfolding consumes_def by blast
        from p(1,2) ts obtain p' where p': "p = token # p'" by (cases p) auto
        have "\<And>r'. parseValue ops (p @ r') = Inr (v, r')"
          using p(4) t unfolding p' by (simp add: parseValue_Cons)
        with p show ?thesis by (intro consumesI [of ts p r]) auto
      next
        assume t: "type token = LBRACKET"
        with a ts have "parseArray ops ts = Inr (v, r)" by (simp add: parseValue_Cons)
        with 1(2) [OF ts t] obtain p where p: "ts = p @ r" "p \<noteq> []" "depth p = 0"
          "\<And>r'. parseArray ops (p @ r') = Inr (v, r')"
          unfolding consumes_def by blast
        from p(1,2) ts obtain p' where p': "p = token # p'" by (cases p) auto
        have "\<And>r'. parseValue ops (p @ r') = Inr (v, r')"
          using p(4) t unfolding p' by (simp add: parseValue_Cons)
        with p show ?thesis by (intro consumesI [of ts p r]) auto
      qed
    next
      case False
      with a ts have r: "r = rest" and "\<And>r'. parseValue ops (token # r') = Inr (v, r')"
        and "type token \<noteq> RBRACE" "type token \<noteq> RBRACKET"
        by (auto simp: parseValue_Cons split: TokenType.splits option.splits)
      with False ts show ?thesis
        by (intro consumesI [of ts "[token]" r]) auto
    qed
  qed
next
  case (2 ops ts)
  show ?case
  proof (intro allI impI)
    fix v r assume a: "parseObject ops ts = Inr (v, r)"
    then obtain token rest where ts: "ts = token # rest"
      by (cases ts) (auto simp: parseObject.simps consume_def peek_def)
    from a ts have t: "type token = LBRACE" by (auto simp: parseObject_Cons split: if_splits)
    from a ts t obtain cs where l: "objectLoop ops rest = Inr (cs, r)" and v: "v = JsonObject cs"
      by (auto simp: parseObject_Cons split: sum.splits)
    have c: "consume (Some LBRACE) ts = Inr (token, rest)"
      using ts t by (simp add: consume_def peek_def)
    from 2 [OF c refl] l obtain p where p: "rest = p @ r" "p \<noteq> []" "depth p = - 1"
      "\<And>r'. objectLoop ops (p @ r') = Inr (cs, r')"
      unfolding consumes_def by blast
    show "consumes (parseObject ops) 0 ts v r"
      using p ts t v by (intro consumesI [of ts "token # p" r]) (auto simp: parseObject_Cons)
  qed
next
  case (3 ops ts)
  show ?case
  proof (intro allI impI)
    fix cs r assume a: "objectLoop ops ts = Inr (cs, r)"
    then obtain token rest where ts: "ts = token # rest"
      by (cases ts) (auto simp: objectLoop.simps)
    note eq = objectLoop.simps [of ops "token # rest", simplified]
    consider (rb) "type token = RBRACE"
      | (cm) "type token \<noteq> RBRACE" "type token = COMMENT"
      | (co) "type token \<noteq> RBRACE" "type token \<noteq> COMMENT" "type token = COMMA"
      | (st) "type token \<noteq> RBRACE" "type token \<noteq> COMMENT" "type token \<noteq> COMMA" "type token = STRING"
      | (ot) "type token \<noteq> RBRACE" "type token \<noteq> COMMENT" "type token \<noteq> COMMA" "type token \<noteq> STRING"
      by blast
    then show "consumes (objectLoop ops) (- 1) ts cs r"
    proof cases
      case rb
      with a ts have "cs = []" "r = rest" by (auto simp: eq)
      with rb ts show ?thesis
        by (intro consumesI [of ts "[token]" r]) (auto simp: objectLoop.simps)
    next
      case cm
      with a ts obtain cs' where l: "objectLoop ops rest = Inr (cs', r)"
        and cs: "cs = objComment (commentOf token) # cs'"
        by (auto simp: eq split: sum.splits)
      from 3(1) [OF ts cm] l obtain p where p: "rest = p @ r" "p \<noteq> []" "depth p = - 1"
        "\<And>r'. objectLoop ops (p @ r') = Inr (cs', r')"
        unfolding consumes_def by blast
      show ?thesis
        using p ts cm cs by (intro consumesI [of ts "token # p" r]) (auto simp: objectLoop.simps [of ops "token # _"])
    next
      case co
      with a ts have l: "objectLoop ops rest = Inr (cs, r)" by (auto simp: eq)
      from 3(2) [OF ts co] l obtain p where p: "rest = p @ r" "p \<noteq> []" "depth p = - 1"
        "\<And>r'. objectLoop ops (p @ r') = Inr (cs, r')"
        unfolding consumes_def by blast
      show ?thesis
        using p ts co by (intro consumesI [of ts "token # p" r]) (auto simp: objectLoop.simps [of ops "token # _"])
    next
      case st
      with a ts obtain k cs1 ts1 c ts2 cs2 ts3 v ts4 cs' where
        h: "JSON_parse (tvalue token) = Some k" "parseComments rest = (cs1, ts1)"
          "consume (Some COLON) ts1 = Inr (c, ts2)" "parseComments ts2 = (cs2, ts3)"
          "parseValue ops ts3 = Inr (v, ts4)" "objectLoop ops ts4 = Inr (cs', r)"
        and cs: "cs = map objComment cs1 @ map objComment cs2 @ ObjPair k v # cs'"
        by (auto simp: eq split: sum.splits option.splits prod.splits)
      from parseComments_split [OF h(2)] obtain c1 where
        c1: "rest = c1 @ ts1" "list_all (\<lambda>t. type t = COMMENT) c1" "cs1 = map commentOf c1"
        by blast
      from h(3) have ts1: "ts1 = c # ts2" and colon: "type c = COLON"
        by (cases ts1; auto simp: consume_def peek_def split: if_splits)+
      from parseComments_split [OF h(4)] obtain c2 where
        c2: "ts2 = c2 @ ts3" "list_all (\<lambda>t. type t = COMMENT) c2" "cs2 = map commentOf c2"
          "ts3 = [] \<or> type (hd ts3) \<noteq> COMMENT"
        by blast
      from 3(3) [OF ts st h(1) h(2)[symmetric] h(3) refl h(4)[symmetric]] h(5)
      obtain pv where pv: "ts3 = pv @ ts4" "pv \<noteq> []" "depth pv = 0"
        "\<And>r'. parseValue ops (pv @ r') = Inr (v, r')"
        unfolding consumes_def by blast
      from 3(4) [OF ts st h(1) h(2)[symmetric] h(3) refl h(4)[symmetric] h(5) refl] h(6)
      obtain pl where pl: "ts4 = pl @ r" "pl \<noteq> []" "depth pl = - 1"
        "\<And>r'. objectLoop ops (pl @ r') = Inr (cs', r')"
        unfolding consumes_def by blast
      from pv(1,2) c2(4) have hd_pv: "type (hd pv) \<noteq> COMMENT" by (cases pv) auto
      note dc = depth_comments
      define p where "p = token # c1 @ c # c2 @ pv @ pl"
      have 1: "ts = p @ r" unfolding p_def using ts c1(1) ts1 c2(1) pv(1) pl(1) by simp
      have 2: "depth p = - 1"
        unfolding p_def using st colon dc [OF c1(2)] dc [OF c2(2)] pv(3) pl(3) by simp
      have 3: "objectLoop ops (p @ r') = Inr (cs, r')" for r'
      proof -
        have a1: "parseComments (c1 @ c # c2 @ pv @ pl @ r') = (cs1, c # c2 @ pv @ pl @ r')"
          using parseComments_append [OF c1(2), of "c # c2 @ pv @ pl @ r'"] colon c1(3) by simp
        have a2: "parseComments (c2 @ pv @ pl @ r') = (cs2, pv @ pl @ r')"
          using parseComments_append [OF c2(2), of "pv @ pl @ r'"] hd_pv pv(2) c2(3)
          by (cases pv) auto
        have a3: "consume (Some COLON) (c # c2 @ pv @ pl @ r') = Inr (c, c2 @ pv @ pl @ r')"
          using colon by (simp add: consume_def peek_def)
        show ?thesis
          unfolding p_def
          using st h(1) a1 a2 a3 pv(4) [of "pl @ r'"] pl(4) [of r'] cs
          by (simp add: objectLoop.simps [of ops "token # _"])
      qed
      show ?thesis
        using 1 2 3 by (intro consumesI [of ts p r]) (auto simp: p_def)
    next
      case ot
      with a ts show ?thesis by (auto simp: eq)
    qed
  qed
next
  case (4 ops ts)
  show ?case
  proof (intro allI impI)
    fix v r assume a: "parseArray ops ts = Inr (v, r)"
    then obtain token rest where ts: "ts = token # rest"
      by (cases ts) (auto simp: parseArray.simps consume_def peek_def)
    from a ts have t: "type token = LBRACKET" by (auto simp: parseArray_Cons split: if_splits)
    from a ts t obtain cs where l: "arrayLoop ops rest = Inr (cs, r)" and v: "v = JsonArray cs"
      by (auto simp: parseArray_Cons split: sum.splits)
    have c: "consume (Some LBRACKET) ts = Inr (token, rest)"
      using ts t by (simp add: consume_def peek_def)
    from 4 [OF c refl] l obtain p where p: "rest = p @ r" "p \<noteq> []" "depth p = - 1"
      "\<And>r'. arrayLoop ops (p @ r') = Inr (cs, r')"
      unfolding consumes_def by blast
    show "consumes (parseArray ops) 0 ts v r"
      using p ts t v by (intro consumesI [of ts "token # p" r]) (auto simp: parseArray_Cons)
  qed
next
  case (5 ops ts)
  show ?case
  proof (intro allI impI)
    fix cs r assume a: "arrayLoop ops ts = Inr (cs, r)"
    then obtain token rest where ts: "ts = token # rest"
      by (cases ts) (auto simp: arrayLoop.simps)
    note eq = arrayLoop.simps [of ops "token # rest", simplified]
    consider (rb) "type token = RBRACKET"
      | (cm) "type token \<noteq> RBRACKET" "type token = COMMENT"
      | (co) "type token \<noteq> RBRACKET" "type token \<noteq> COMMENT" "type token = COMMA"
      | (ot) "type token \<noteq> RBRACKET" "type token \<noteq> COMMENT" "type token \<noteq> COMMA"
      by blast
    then show "consumes (arrayLoop ops) (- 1) ts cs r"
    proof cases
      case rb
      with a ts have "cs = []" "r = rest" by (auto simp: eq)
      with rb ts show ?thesis
        by (intro consumesI [of ts "[token]" r]) (auto simp: arrayLoop.simps)
    next
      case cm
      with a ts obtain cs' where l: "arrayLoop ops rest = Inr (cs', r)"
        and cs: "cs = nodeComment (commentOf token) # cs'"
        by (auto simp: eq split: sum.splits)
      from 5(1) [OF ts cm] l obtain p where p: "rest = p @ r" "p \<noteq> []" "depth p = - 1"
        "\<And>r'. arrayLoop ops (p @ r') = Inr (cs', r')"
        unfolding consumes_def by blast
      show ?thesis
        using p ts cm cs by (intro consumesI [of ts "token # p" r]) (auto simp: arrayLoop.simps [of ops "token # _"])
    next
      case co
      with a ts have l: "arrayLoop ops rest = Inr (cs, r)" by (auto simp: eq)
      from 5(2) [OF ts co] l obtain p where p: "rest = p @ r" "p \<noteq> []" "depth p = - 1"
        "\<And>r'. arrayLoop ops (p @ r') = Inr (cs, r')"
        unfolding consumes_def by blast
      show ?thesis
        using p ts co by (intro consumesI [of ts "token # p" r]) (auto simp: arrayLoop.simps [of ops "token # _"])
    next
      case ot
      with a ts obtain v ts' cs' where
        h: "parseValue ops ts = Inr (v, ts')" "arrayLoop ops ts' = Inr (cs', r)"
        and cs: "cs = v # cs'"
        by (auto simp: eq split: sum.splits)
      from 5(3) [OF ts ot] h(1) obtain pv where pv: "ts = pv @ ts'" "pv \<noteq> []" "depth pv = 0"
        "\<And>r'. parseValue ops (pv @ r') = Inr (v, r')"
        unfolding consumes_def by blast
      from 5(4) [OF ts ot h(1) refl] h(2) obtain pl where pl: "ts' = pl @ r" "pl \<noteq> []" "depth pl = - 1"
        "\<And>r'. arrayLoop ops (pl @ r') = Inr (cs', r')"
        unfolding consumes_def by blast
      from pv(1,2) ts obtain pv' where pv': "pv = token # pv'" by (cases pv) auto
      have 3: "arrayLoop ops ((pv @ pl) @ r') = Inr (cs, r')" for r'
        using ot pv(4) [of "pl @ r'"] pl(4) [of r'] cs
        unfolding pv' by (simp add: arrayLoop.simps [of ops "token # _"])
      show ?thesis
        using pv pl 3 by (intro consumesI [of ts "pv @ pl" r]) auto
    qed
  qed
qed

section \<open>Tokens that run out, tokens left over\<close>

text \<open>The three errors raised where the tokens run out.\<close>

definition endError :: "error + 'a \<Rightarrow> bool" where
  "endError x \<longleftrightarrow> x = Inl UnclosedObject \<or> x = Inl UnclosedArray \<or> x = Inl UnexpectedEndOfInput"

lemma parseComments_trunc:
  "parseComments ts = (cs, r) \<Longrightarrow> r \<noteq> [] \<Longrightarrow> parseComments (ts @ extra) = (cs, r @ extra)"
proof -
  assume a: "parseComments ts = (cs, r)" and r: "r \<noteq> []"
  from parseComments_split [OF a] obtain c where
    c: "ts = c @ r" "list_all (\<lambda>t. type t = COMMENT) c" "cs = map commentOf c"
      "r = [] \<or> type (hd r) \<noteq> COMMENT" by blast
  from c(4) r have "r @ extra = [] \<or> type (hd (r @ extra)) \<noteq> COMMENT" by simp
  from parseComments_append [OF c(2) this] c show ?thesis by simp
qed

lemma parseComments_dropWhile:
  "snd (parseComments ts) = dropWhile (\<lambda>t. type t = COMMENT) ts"
  by (induction ts) (auto split: prod.splits)

lemma parseComments_all:
  "snd (parseComments ts) = [] \<longleftrightarrow> list_all (\<lambda>t. type t = COMMENT) ts"
  by (induction ts) (auto split: prod.splits)

text \<open>
  C10.  Tokens after the first complete root value are never looked at: when a token
  sequence that holds a root value parses, it parses to the same tree with any tokens
  appended, and the formatted text is the same; nothing fails.
\<close>

theorem trailing_tokens_ignored:
  \<open>(parse ops tokens = Inr ast \<and> \<not> list_all (\<lambda>t. type t = COMMENT) tokens \<longrightarrow>
      parse ops (tokens @ extra) = Inr ast)
   \<and> (tokenize text = Inr tokens \<and> tokenize text' = Inr (tokens @ extra) \<and>
       \<not> list_all (\<lambda>t. type t = COMMENT) tokens \<and> format ops cfg text = Inr out \<longrightarrow>
      format ops cfg text' = Inr out)\<close>
proof -
  have main: "parse ops (tokens @ extra) = Inr ast"
    if a: "parse ops tokens = Inr ast" and nc: "\<not> list_all (\<lambda>t. type t = COMMENT) tokens"
    for ast :: "'a AstNode"
  proof -
    obtain cs ts where pc: "parseComments tokens = (cs, ts)" by (cases "parseComments tokens")
    with nc parseComments_all [of tokens] have ts: "ts \<noteq> []" by simp
    from parseComments_trunc [OF pc ts] have pc': "parseComments (tokens @ extra) = (cs, ts @ extra)" .
    from a pc ts obtain root r where pv: "parseValue ops ts = Inr (root, r)"
      by (cases "parseValue ops ts") (auto simp: parse_def peek_def split: list.splits)
    from parse_consumes(1) [of ops ts] pv obtain p where
      p: "ts = p @ r" "\<And>r'. parseValue ops (p @ r') = Inr (root, r')"
      unfolding consumes_def by blast
    have "parseValue ops (ts @ extra) = Inr (root, r @ extra)"
      using p(2) [of "r @ extra"] p(1) by simp
    with a pc pc' pv ts show ?thesis
      by (cases ts) (auto simp: parse_def peek_def)
  qed
  show ?thesis
  proof (intro conjI impI)
    assume "parse ops tokens = Inr ast \<and> \<not> list_all (\<lambda>t. type t = COMMENT) tokens"
    then show "parse ops (tokens @ extra) = Inr ast" using main by blast
  next
    assume h: "tokenize text = Inr tokens \<and> tokenize text' = Inr (tokens @ extra) \<and>
       \<not> list_all (\<lambda>t. type t = COMMENT) tokens \<and> format ops cfg text = Inr out"
    then obtain ast' where "parse ops tokens = Inr ast'"
      by (cases "parse ops tokens") (auto simp: format_def)
    with h main [of ast'] show "format ops cfg text' = Inr out"
      by (auto simp: format_def)
  qed
qed

theorem trailing_tokens_ignored_witness:
  \<open>format literalOps DEFAULT_CONFIG (js ''{}{"b": 2}'') = Inr (js ''{}'')
   \<and> format literalOps DEFAULT_CONFIG (js ''{} 1'') = Inr (js ''{}'')
   \<and> parse literalOps [Token LBRACE (js ''{'') 1, Token RBRACE (js ''}'') 1, Token NUMBER (js ''1'') 1]
       = Inr (JsonObject [])\<close>
proof -
  define tokens where "tokens = [Token LBRACE (js ''{'') 1, Token RBRACE (js ''}'') 1]"
  define extra1 where "extra1 = [Token LBRACE (js ''{'') 1, Token STRING (js ''\"b\"'') 1,
    Token COLON (js '':'') 1, Token NUMBER (js ''2'') 1, Token RBRACE (js ''}'') 1]"
  define extra2 where "extra2 = [Token NUMBER (js ''1'') 1]"
  have t0: "tokenize (js ''{}'') = Inr tokens"
    unfolding tokens_def by code_simp
  have t1: "tokenize (js ''{}{\"b\": 2}'') = Inr (tokens @ extra1)"
    unfolding tokens_def extra1_def by code_simp
  have t2: "tokenize (js ''{} 1'') = Inr (tokens @ extra2)"
    unfolding tokens_def extra2_def by code_simp
  have nc: "\<not> list_all (\<lambda>t. type t = COMMENT) tokens"
    by (simp add: tokens_def)
  have f0: "format literalOps DEFAULT_CONFIG (js ''{}'') = Inr (js ''{}'')"
    by code_simp
  have p0: "parse literalOps tokens = Inr (JsonObject [])"
    unfolding tokens_def by code_simp
  have a: "format literalOps DEFAULT_CONFIG (js ''{}{\"b\": 2}'') = Inr (js ''{}'')"
    using trailing_tokens_ignored [of literalOps tokens "JsonObject []" extra1 "js ''{}''"
        "js ''{}{\"b\": 2}''" DEFAULT_CONFIG "js ''{}''"] t0 t1 nc f0 by blast
  have b: "format literalOps DEFAULT_CONFIG (js ''{} 1'') = Inr (js ''{}'')"
    using trailing_tokens_ignored [of literalOps tokens "JsonObject []" extra2 "js ''{}''"
        "js ''{} 1''" DEFAULT_CONFIG "js ''{}''"] t0 t2 nc f0 by blast
  have c: "parse literalOps (tokens @ extra2) = Inr (JsonObject [])"
    using trailing_tokens_ignored [of literalOps tokens "JsonObject []" extra2 "js ''{}''"
        "js ''{} 1''" DEFAULT_CONFIG "js ''{}''"] p0 nc by blast
  from a b c show ?thesis by (simp add: tokens_def extra2_def)
qed

text \<open>
  \<open>closes ok ts r\<close>: what was read of \<open>ts\<close> down to \<open>r\<close> is not empty and ends with a token
  whose type satisfies \<open>ok\<close>.  A container ends with its closing token, a scalar is one
  token.
\<close>

definition closes :: "(TokenType \<Rightarrow> bool) \<Rightarrow> Token list \<Rightarrow> Token list \<Rightarrow> bool" where
  "closes ok ts r \<longleftrightarrow> (\<exists>p. ts = p @ r \<and> p \<noteq> [] \<and> ok (type (last p)))"

lemma closes_single: "ok (type t) \<Longrightarrow> closes ok (t # r) r"
  unfolding closes_def by (intro exI [of _ "[t]"]) simp

lemma closes_append: "closes ok u r \<Longrightarrow> closes ok (pre @ u) r"
  unfolding closes_def
proof -
  assume "\<exists>p. u = p @ r \<and> p \<noteq> [] \<and> ok (type (last p))"
  then obtain p where "u = p @ r" "p \<noteq> []" "ok (type (last p))" by blast
  then show "\<exists>p. pre @ u = p @ r \<and> p \<noteq> [] \<and> ok (type (last p))"
    by (intro exI [of _ "pre @ p"]) simp
qed

lemma closes_Cons: "closes ok u r \<Longrightarrow> closes ok (t # u) r"
  using closes_append [of ok u r "[t]"] by simp

lemma closes_mono: "closes ok ts r \<Longrightarrow> (\<And>ty. ok ty \<Longrightarrow> ok' ty) \<Longrightarrow> closes ok' ts r"
  unfolding closes_def by blast

lemma parseComments_suffix: "parseComments ts = (cs, r) \<Longrightarrow> \<exists>c. ts = c @ r"
  using parseComments_split by blast

lemma parse_closes:
  shows "\<forall>v r. parseValue ops ts = Inr (v, r) \<longrightarrow>
           closes (\<lambda>ty. ty \<noteq> COLON \<and> (ty = COMMENT \<longrightarrow> type (hd ts) = COMMENT)) ts r"
    and "\<forall>v r. parseObject ops ts = Inr (v, r) \<longrightarrow> closes (\<lambda>ty. ty = RBRACE) ts r"
    and "\<forall>cs r. objectLoop ops ts = Inr (cs, r) \<longrightarrow> closes (\<lambda>ty. ty = RBRACE) ts r"
    and "\<forall>v r. parseArray ops ts = Inr (v, r) \<longrightarrow> closes (\<lambda>ty. ty = RBRACKET) ts r"
    and "\<forall>cs r. arrayLoop ops ts = Inr (cs, r) \<longrightarrow> closes (\<lambda>ty. ty = RBRACKET) ts r"
proof (induct ops ts and ops ts and ops ts and ops ts and ops ts
    rule: parseValue_parseObject_objectLoop_parseArray_arrayLoop.induct)
  case (1 ops ts)
  show ?case
  proof (intro allI impI)
    fix v r assume a: "parseValue ops ts = Inr (v, r)"
    then obtain token rest where ts: "ts = token # rest"
      by (cases ts) (auto simp: parseValue.simps)
    let ?ok = "\<lambda>ty. ty \<noteq> COLON \<and> (ty = COMMENT \<longrightarrow> type (hd ts) = COMMENT)"
    consider (ob) "type token = LBRACE" | (ar) "type token = LBRACKET"
      | (ot) "type token \<noteq> LBRACE" "type token \<noteq> LBRACKET"
      by blast
    then show "closes ?ok ts r"
    proof cases
      case ob
      with a ts have "parseObject ops ts = Inr (v, r)" by (simp add: parseValue_Cons)
      with 1(1) [OF ts ob] have "closes (\<lambda>ty. ty = RBRACE) ts r" by blast
      then show ?thesis by (rule closes_mono) simp
    next
      case ar
      with a ts have "parseArray ops ts = Inr (v, r)" by (simp add: parseValue_Cons)
      with 1(2) [OF ts ar] have "closes (\<lambda>ty. ty = RBRACKET) ts r" by blast
      then show ?thesis by (rule closes_mono) simp
    next
      case ot
      with a ts have "r = rest" and "type token \<noteq> COLON"
        by (auto simp: parseValue_Cons split: TokenType.splits option.splits)
      then show ?thesis
        unfolding ts using closes_single [of "\<lambda>ty. ty \<noteq> COLON \<and> (ty = COMMENT \<longrightarrow> type (hd (token # rest)) = COMMENT)" token rest]
        by simp
    qed
  qed
next
  case (2 ops ts)
  show ?case
  proof (intro allI impI)
    fix v r assume a: "parseObject ops ts = Inr (v, r)"
    then obtain token rest where ts: "ts = token # rest"
      by (cases ts) (auto simp: parseObject.simps consume_def peek_def)
    from a ts have t: "type token = LBRACE" by (auto simp: parseObject_Cons split: if_splits)
    from a ts t obtain cs where l: "objectLoop ops rest = Inr (cs, r)"
      by (auto simp: parseObject_Cons split: sum.splits)
    have c: "consume (Some LBRACE) ts = Inr (token, rest)"
      using ts t by (simp add: consume_def peek_def)
    from 2 [OF c refl] l have "closes (\<lambda>ty. ty = RBRACE) rest r" by blast
    then show "closes (\<lambda>ty. ty = RBRACE) ts r" unfolding ts by (rule closes_Cons)
  qed
next
  case (3 ops ts)
  show ?case
  proof (intro allI impI)
    fix cs r assume a: "objectLoop ops ts = Inr (cs, r)"
    then obtain token rest where ts: "ts = token # rest"
      by (cases ts) (auto simp: objectLoop.simps)
    note eq = objectLoop.simps [of ops "token # rest", simplified]
    consider (rb) "type token = RBRACE"
      | (cm) "type token \<noteq> RBRACE" "type token = COMMENT"
      | (co) "type token \<noteq> RBRACE" "type token \<noteq> COMMENT" "type token = COMMA"
      | (st) "type token \<noteq> RBRACE" "type token \<noteq> COMMENT" "type token \<noteq> COMMA" "type token = STRING"
      | (ot) "type token \<noteq> RBRACE" "type token \<noteq> COMMENT" "type token \<noteq> COMMA" "type token \<noteq> STRING"
      by blast
    then show "closes (\<lambda>ty. ty = RBRACE) ts r"
    proof cases
      case rb
      with a ts have "r = rest" by (auto simp: eq)
      with rb show ?thesis unfolding ts by (simp add: closes_single)
    next
      case cm
      with a ts obtain cs' where l: "objectLoop ops rest = Inr (cs', r)"
        by (auto simp: eq split: sum.splits)
      from 3(1) [OF ts cm] l show ?thesis unfolding ts by (intro closes_Cons) blast
    next
      case co
      with a ts have l: "objectLoop ops rest = Inr (cs, r)" by (auto simp: eq)
      from 3(2) [OF ts co] l show ?thesis unfolding ts by (intro closes_Cons) blast
    next
      case st
      with a ts obtain k cs1 ts1 c ts2 cs2 ts3 v ts4 cs' where
        h: "JSON_parse (tvalue token) = Some k" "parseComments rest = (cs1, ts1)"
          "consume (Some COLON) ts1 = Inr (c, ts2)" "parseComments ts2 = (cs2, ts3)"
          "parseValue ops ts3 = Inr (v, ts4)" "objectLoop ops ts4 = Inr (cs', r)"
        by (auto simp: eq split: sum.splits option.splits prod.splits)
      from parseComments_suffix [OF h(2)] obtain c1 where c1: "rest = c1 @ ts1" by blast
      from h(3) have ts1: "ts1 = c # ts2"
        by (cases ts1) (auto simp: consume_def peek_def split: if_splits)
      from parseComments_suffix [OF h(4)] obtain c2 where c2: "ts2 = c2 @ ts3" by blast
      from parse_consumes(1) [of ops ts3] h(5) obtain pv where pv: "ts3 = pv @ ts4"
        unfolding consumes_def by blast
      from 3(4) [OF ts st h(1) h(2)[symmetric] h(3) refl h(4)[symmetric] h(5) refl] h(6)
      have "closes (\<lambda>ty. ty = RBRACE) ts4 r" by blast
      then have "closes (\<lambda>ty. ty = RBRACE) ((token # c1 @ c # c2 @ pv) @ ts4) r"
        by (rule closes_append)
      then show ?thesis unfolding ts c1 ts1 c2 pv by simp
    next
      case ot
      with a ts show ?thesis by (auto simp: eq)
    qed
  qed
next
  case (4 ops ts)
  show ?case
  proof (intro allI impI)
    fix v r assume a: "parseArray ops ts = Inr (v, r)"
    then obtain token rest where ts: "ts = token # rest"
      by (cases ts) (auto simp: parseArray.simps consume_def peek_def)
    from a ts have t: "type token = LBRACKET" by (auto simp: parseArray_Cons split: if_splits)
    from a ts t obtain cs where l: "arrayLoop ops rest = Inr (cs, r)"
      by (auto simp: parseArray_Cons split: sum.splits)
    have c: "consume (Some LBRACKET) ts = Inr (token, rest)"
      using ts t by (simp add: consume_def peek_def)
    from 4 [OF c refl] l have "closes (\<lambda>ty. ty = RBRACKET) rest r" by blast
    then show "closes (\<lambda>ty. ty = RBRACKET) ts r" unfolding ts by (rule closes_Cons)
  qed
next
  case (5 ops ts)
  show ?case
  proof (intro allI impI)
    fix cs r assume a: "arrayLoop ops ts = Inr (cs, r)"
    then obtain token rest where ts: "ts = token # rest"
      by (cases ts) (auto simp: arrayLoop.simps)
    note eq = arrayLoop.simps [of ops "token # rest", simplified]
    consider (rb) "type token = RBRACKET"
      | (cm) "type token \<noteq> RBRACKET" "type token = COMMENT"
      | (co) "type token \<noteq> RBRACKET" "type token \<noteq> COMMENT" "type token = COMMA"
      | (ot) "type token \<noteq> RBRACKET" "type token \<noteq> COMMENT" "type token \<noteq> COMMA"
      by blast
    then show "closes (\<lambda>ty. ty = RBRACKET) ts r"
    proof cases
      case rb
      with a ts have "r = rest" by (auto simp: eq)
      with rb show ?thesis unfolding ts by (simp add: closes_single)
    next
      case cm
      with a ts obtain cs' where l: "arrayLoop ops rest = Inr (cs', r)"
        by (auto simp: eq split: sum.splits)
      from 5(1) [OF ts cm] l show ?thesis unfolding ts by (intro closes_Cons) blast
    next
      case co
      with a ts have l: "arrayLoop ops rest = Inr (cs, r)" by (auto simp: eq)
      from 5(2) [OF ts co] l show ?thesis unfolding ts by (intro closes_Cons) blast
    next
      case ot
      with a ts obtain v ts' cs' where h: "parseValue ops ts = Inr (v, ts')"
        "arrayLoop ops ts' = Inr (cs', r)"
        by (auto simp: eq split: sum.splits)
      from parse_consumes(1) [of ops ts] h(1) obtain pv where pv: "ts = pv @ ts'"
        unfolding consumes_def by blast
      from 5(4) [OF ts ot h(1) refl] h(2) have "closes (\<lambda>ty. ty = RBRACKET) ts' r" by blast
      then have "closes (\<lambda>ty. ty = RBRACKET) (pv @ ts') r" by (rule closes_append)
      then show ?thesis unfolding pv [symmetric] .
    qed
  qed
qed

text \<open>The type of the last token that is not a comment.\<close>

definition lastVisible :: "Token list \<Rightarrow> TokenType option" where
  "lastVisible ts =
     (case rev (filter (\<lambda>t. type t \<noteq> COMMENT) ts) of
        [] \<Rightarrow> None
      | v # vs \<Rightarrow> Some (type v))"

lemma lastVisible_Nil [simp]: "lastVisible [] = None"
  by (simp add: lastVisible_def)

lemma lastVisible_append:
  "lastVisible (a @ b) = (case lastVisible b of None \<Rightarrow> lastVisible a | Some ty \<Rightarrow> Some ty)"
  by (cases "rev (filter (\<lambda>t. type t \<noteq> COMMENT) b)") (simp_all add: lastVisible_def)

lemma lastVisible_single:
  "lastVisible [t] = (if type t = COMMENT then None else Some (type t))"
  by (simp add: lastVisible_def)

lemma lastVisible_Cons:
  "lastVisible (t # ts) =
     (case lastVisible ts of
        None \<Rightarrow> (if type t = COMMENT then None else Some (type t))
      | Some ty \<Rightarrow> Some ty)"
  using lastVisible_append [of "[t]" ts] by (simp add: lastVisible_single split: option.splits)

lemma lastVisible_hd: "ts \<noteq> [] \<Longrightarrow> type (hd ts) \<noteq> COMMENT \<Longrightarrow> lastVisible ts \<noteq> None"
  by (cases ts) (auto simp: lastVisible_Cons split: option.splits)

lemma lastVisible_last:
  "p \<noteq> [] \<Longrightarrow> type (last p) \<noteq> COMMENT \<Longrightarrow> lastVisible p = Some (type (last p))"
proof (induction p rule: rev_induct)
  case Nil
  then show ?case by simp
next
  case (snoc t p)
  then show ?case by (simp add: lastVisible_append lastVisible_single)
qed

lemma lastVisible_comments: "list_all (\<lambda>t. type t = COMMENT) c \<Longrightarrow> lastVisible c = None"
  by (induction c) (simp_all add: lastVisible_Cons)

text \<open>
  The error raised where the tokens run out, as the token that could come next and the
  last token tell it: where a closing brace could follow, the loop of an object found no
  token and the error is \<^verbatim>\<open>Unclosed object\<close>; where a closing bracket could follow, it is
  \<^verbatim>\<open>Unclosed array\<close>; where a colon is due, or after a colon, it is
  \<^verbatim>\<open>Unexpected end of input\<close>.
\<close>

definition nextOK :: "Token list \<Rightarrow> error + 'a \<Rightarrow> bool" where
  "nextOK extra x \<longleftrightarrow>
     (case extra of
        [] \<Rightarrow> True
      | c # r \<Rightarrow>
          (type c = RBRACE \<longrightarrow> x = Inl UnclosedObject)
          \<and> (type c = RBRACKET \<longrightarrow> x = Inl UnclosedArray)
          \<and> (type c = COLON \<longrightarrow> x = Inl UnexpectedEndOfInput))"

definition endsAs :: "Token list \<Rightarrow> Token list \<Rightarrow> error + 'a \<Rightarrow> bool" where
  "endsAs ts extra x \<longleftrightarrow>
     endError x \<and> nextOK extra x \<and> (lastVisible ts = Some COLON \<longrightarrow> x = Inl UnexpectedEndOfInput)"

lemma endsAs_prefix:
  assumes "endsAs u extra x" and "lastVisible u = None \<longrightarrow> lastVisible pre \<noteq> Some COLON"
  shows "endsAs (pre @ u) extra x"
  using assms by (auto simp: endsAs_def lastVisible_append split: option.splits)

lemma endsAs_Cons:
  assumes "endsAs u extra x" and "type t \<noteq> COLON"
  shows "endsAs (t # u) extra x"
  using endsAs_prefix [OF assms(1), of "[t]"] assms(2) by (simp add: lastVisible_single)

lemma endsAs_same: "endsAs u extra (Inl e) \<Longrightarrow> endsAs u extra (Inl e :: error + 'b)"
  by (simp add: endsAs_def endError_def nextOK_def split: list.splits)

text \<open>Where the tokens run out before a value or a colon.\<close>

lemma endsAs_eoi:
  assumes "extra = [] \<or> (type (hd extra) \<noteq> RBRACE \<and> type (hd extra) \<noteq> RBRACKET)"
  shows "endsAs ts extra (Inl UnexpectedEndOfInput)"
  using assms by (auto simp: endsAs_def endError_def nextOK_def split: list.splits)

lemma dropWhile_hd:
  "dropWhile P xs = c # r \<Longrightarrow> xs \<noteq> [] \<and> (P (hd xs) \<or> hd xs = c)"
  by (cases xs) (auto split: if_splits)

lemma parseComments_after:
  assumes "list_all (\<lambda>t. type t = COMMENT) u" and "parseComments (u @ extra) = (cs, c # r)"
  shows "extra \<noteq> [] \<and> (type (hd extra) = COMMENT \<or> hd extra = c)"
proof -
  from assms(2) parseComments_dropWhile [of "u @ extra"]
  have "dropWhile (\<lambda>t. type t = COMMENT) (u @ extra) = c # r" by simp
  moreover from assms(1) have "dropWhile (\<lambda>t. type t = COMMENT) (u @ extra)
      = dropWhile (\<lambda>t. type t = COMMENT) extra"
    by (induction u) simp_all
  ultimately show ?thesis using dropWhile_hd [of "\<lambda>t. type t = COMMENT" extra c r] by simp
qed

definition truncates :: "(Token list \<Rightarrow> error + ('a \<times> Token list)) \<Rightarrow> Token list \<Rightarrow> Token list \<Rightarrow> bool" where
  "truncates f ts extra \<longleftrightarrow>
     (\<forall>x r. f (ts @ extra) = Inr (x, r) \<longrightarrow>
        (\<exists>r'. f ts = Inr (x, r') \<and> r = r' @ extra) \<or> endsAs ts extra (f ts))"

lemma truncatesI:
  "(\<And>x r. f (ts @ extra) = Inr (x, r) \<Longrightarrow> (\<exists>r'. f ts = Inr (x, r') \<and> r = r' @ extra) \<or> endsAs ts extra (f ts))
     \<Longrightarrow> truncates f ts extra"
  unfolding truncates_def by blast

lemma truncatesD:
  "truncates f ts extra \<Longrightarrow> f (ts @ extra) = Inr (x, r) \<Longrightarrow>
     (\<exists>r'. f ts = Inr (x, r') \<and> r = r' @ extra) \<or> endsAs ts extra (f ts)"
  unfolding truncates_def by blast

lemma endsAs_Inl: "endsAs ts extra x \<Longrightarrow> \<exists>e. x = Inl e"
  by (auto simp: endsAs_def endError_def)

lemma endsAs_unclosedObject:
  assumes "extra = [] \<or> (type (hd extra) \<noteq> RBRACKET \<and> type (hd extra) \<noteq> COLON)"
  shows "endsAs [] extra (Inl UnclosedObject)"
  using assms by (auto simp: endsAs_def endError_def nextOK_def split: list.splits)

lemma endsAs_unclosedArray:
  assumes "extra = [] \<or> (type (hd extra) \<noteq> RBRACE \<and> type (hd extra) \<noteq> COLON)"
  shows "endsAs [] extra (Inl UnclosedArray)"
  using assms by (auto simp: endsAs_def endError_def nextOK_def split: list.splits)

lemma parseValue_starts:
  "parseValue ops ts = Inr (v, r) \<Longrightarrow>
     ts \<noteq> [] \<and> type (hd ts) \<noteq> RBRACE \<and> type (hd ts) \<noteq> RBRACKET \<and> type (hd ts) \<noteq> COLON"
  by (cases ts) (auto simp: parseValue.simps [of ops "[]"] parseValue_Cons split: TokenType.splits)

lemma parseObject_starts: "parseObject ops ts = Inr (v, r) \<Longrightarrow> ts \<noteq> [] \<and> type (hd ts) = LBRACE"
  by (cases ts) (auto simp: parseObject.simps consume_def peek_def split: if_splits)

lemma parseArray_starts: "parseArray ops ts = Inr (v, r) \<Longrightarrow> ts \<noteq> [] \<and> type (hd ts) = LBRACKET"
  by (cases ts) (auto simp: parseArray.simps consume_def peek_def split: if_splits)

lemma objectLoop_starts:
  "objectLoop ops ts = Inr (cs, r) \<Longrightarrow>
     ts \<noteq> [] \<and> type (hd ts) \<noteq> RBRACKET \<and> type (hd ts) \<noteq> COLON"
  by (cases ts) (auto simp: objectLoop.simps split: if_splits)

lemma arrayLoop_starts:
  "arrayLoop ops ts = Inr (cs, r) \<Longrightarrow>
     ts \<noteq> [] \<and> type (hd ts) \<noteq> RBRACE \<and> type (hd ts) \<noteq> COLON"
proof (cases ts)
  case Nil
  assume "arrayLoop ops ts = Inr (cs, r)"
  with Nil show ?thesis by (simp add: arrayLoop.simps)
next
  case (Cons token rest)
  assume a: "arrayLoop ops ts = Inr (cs, r)"
  show ?thesis
  proof (cases "type token = RBRACE \<or> type token = COLON")
    case True
    then have "parseValue ops (token # rest) = Inl (UnexpectedToken (tvalue token) (line token))"
      by (auto simp: parseValue_Cons)
    with a Cons True show ?thesis
      by (auto simp: arrayLoop.simps [of ops "token # rest"])
  next
    case False
    with Cons show ?thesis by simp
  qed
qed

text \<open>What was read as a value that is not a comment ends with a token that is neither a
  colon nor a comment.\<close>

lemma parseValue_lastVisible:
  assumes "parseValue ops ts = Inr (v, r)" and "type (hd ts) \<noteq> COMMENT"
  shows "\<exists>p ty. ts = p @ r \<and> lastVisible p = Some ty \<and> ty \<noteq> COLON"
proof -
  from parse_closes(1) [of ops ts] assms(1) obtain p where
    p: "ts = p @ r" "p \<noteq> []" "type (last p) \<noteq> COLON"
      "type (last p) = COMMENT \<longrightarrow> type (hd ts) = COMMENT"
    unfolding closes_def by blast
  with assms(2) have "type (last p) \<noteq> COMMENT" by blast
  from lastVisible_last [OF p(2) this] p(1,3) show ?thesis by blast
qed

lemma parse_truncates:
  shows "truncates (parseValue ops) ts extra"
    and "truncates (parseObject ops) ts extra"
    and "truncates (objectLoop ops) ts extra"
    and "truncates (parseArray ops) ts extra"
    and "truncates (arrayLoop ops) ts extra"
proof (induct ops ts and ops ts and ops ts and ops ts and ops ts
    rule: parseValue_parseObject_objectLoop_parseArray_arrayLoop.induct)
  case (1 ops ts)
  show ?case
  proof (rule truncatesI)
    fix v r assume a: "parseValue ops (ts @ extra) = Inr (v, r)"
    show "(\<exists>r'. parseValue ops ts = Inr (v, r') \<and> r = r' @ extra) \<or> endsAs ts extra (parseValue ops ts)"
    proof (cases ts)
      case Nil
      with a have "parseValue ops extra = Inr (v, r)" by simp
      from parseValue_starts [OF this]
      have "endsAs ts extra (Inl UnexpectedEndOfInput :: error + ('a AstNode \<times> Token list))"
        by (intro endsAs_eoi) simp
      with Nil show ?thesis by (simp add: parseValue.simps)
    next
      case (Cons token rest)
      show ?thesis
      proof (cases "type token = LBRACE \<or> type token = LBRACKET")
        case True
        then show ?thesis
        proof
          assume t: "type token = LBRACE"
          with a Cons have "parseObject ops (ts @ extra) = Inr (v, r)" by (simp add: parseValue_Cons)
          from truncatesD [OF 1(1) [OF Cons t] this] t Cons show ?thesis
            by (simp add: parseValue_Cons)
        next
          assume t: "type token = LBRACKET"
          with a Cons have "parseArray ops (ts @ extra) = Inr (v, r)" by (simp add: parseValue_Cons)
          from truncatesD [OF 1(2) [OF Cons t] this] t Cons show ?thesis
            by (simp add: parseValue_Cons)
        qed
      next
        case False
        with a Cons show ?thesis
          by (auto simp: parseValue_Cons split: TokenType.splits option.splits)
      qed
    qed
  qed
next
  case (2 ops ts)
  show ?case
  proof (rule truncatesI)
    fix v r assume a: "parseObject ops (ts @ extra) = Inr (v, r)"
    show "(\<exists>r'. parseObject ops ts = Inr (v, r') \<and> r = r' @ extra) \<or> endsAs ts extra (parseObject ops ts)"
    proof (cases ts)
      case Nil
      with a have "parseObject ops extra = Inr (v, r)" by simp
      from parseObject_starts [OF this]
      have "endsAs ts extra (Inl UnexpectedEndOfInput :: error + ('a AstNode \<times> Token list))"
        by (intro endsAs_eoi) simp
      with Nil show ?thesis by (simp add: parseObject.simps consume_def peek_def)
    next
      case (Cons token rest)
      from a Cons have t: "type token = LBRACE" by (auto simp: parseObject_Cons split: if_splits)
      from a Cons t obtain cs where l: "objectLoop ops (rest @ extra) = Inr (cs, r)" and v: "v = JsonObject cs"
        by (auto simp: parseObject_Cons split: sum.splits)
      have c: "consume (Some LBRACE) ts = Inr (token, rest)"
        using Cons t by (simp add: consume_def peek_def)
      from truncatesD [OF 2 [OF c refl] l] show ?thesis
      proof
        assume "\<exists>r'. objectLoop ops rest = Inr (cs, r') \<and> r = r' @ extra"
        then show ?thesis using Cons t v by (auto simp: parseObject_Cons)
      next
        assume e: "endsAs rest extra (objectLoop ops rest)"
        then obtain er where er: "objectLoop ops rest = Inl er" using endsAs_Inl by blast
        from e have "endsAs rest extra (Inl er :: error + ('a AstNode \<times> Token list))"
          unfolding er by (rule endsAs_same)
        then have "endsAs (token # rest) extra (Inl er :: error + ('a AstNode \<times> Token list))"
          using t by (intro endsAs_Cons) simp_all
        then show ?thesis using Cons t er by (simp add: parseObject_Cons)
      qed
    qed
  qed
next
  case (3 ops ts)
  show ?case
  proof (rule truncatesI)
    fix cs r assume a: "objectLoop ops (ts @ extra) = Inr (cs, r)"
    show "(\<exists>r'. objectLoop ops ts = Inr (cs, r') \<and> r = r' @ extra) \<or> endsAs ts extra (objectLoop ops ts)"
    proof (cases ts)
      case Nil
      with a have "objectLoop ops extra = Inr (cs, r)" by simp
      from objectLoop_starts [OF this]
      have "endsAs [] extra (Inl UnclosedObject :: error + ('a ObjChild list \<times> Token list))"
        by (intro endsAs_unclosedObject) simp
      with Nil show ?thesis by (simp add: objectLoop.simps)
    next
      case (Cons token rest)
      note eq = objectLoop.simps [of ops "token # rest", simplified]
      note eqm = objectLoop.simps [of ops "token # rest @ extra", simplified]
      from a Cons have am: "objectLoop ops (token # rest @ extra) = Inr (cs, r)" by simp
      consider (rb) "type token = RBRACE"
        | (cm) "type token \<noteq> RBRACE" "type token = COMMENT"
        | (co) "type token \<noteq> RBRACE" "type token \<noteq> COMMENT" "type token = COMMA"
        | (st) "type token \<noteq> RBRACE" "type token \<noteq> COMMENT" "type token \<noteq> COMMA" "type token = STRING"
        | (ot) "type token \<noteq> RBRACE" "type token \<noteq> COMMENT" "type token \<noteq> COMMA" "type token \<noteq> STRING"
        by blast
      then show ?thesis
      proof cases
        case rb
        with am Cons show ?thesis by (auto simp: eq eqm)
      next
        case cm
        with am obtain cs' where l: "objectLoop ops (rest @ extra) = Inr (cs', r)"
          and cs: "cs = objComment (commentOf token) # cs'"
          by (auto simp: eqm split: sum.splits)
        from truncatesD [OF 3(1) [OF Cons cm] l] show ?thesis
        proof
          assume "\<exists>r'. objectLoop ops rest = Inr (cs', r') \<and> r = r' @ extra"
          then show ?thesis using Cons cm cs by (auto simp: eq)
        next
          assume e: "endsAs rest extra (objectLoop ops rest)"
          then obtain er where er: "objectLoop ops rest = Inl er" using endsAs_Inl by blast
          from e have "endsAs (token # rest) extra (objectLoop ops rest)"
            using cm by (intro endsAs_Cons) simp_all
          then show ?thesis using Cons cm er by (simp add: eq)
        qed
      next
        case co
        with am have l: "objectLoop ops (rest @ extra) = Inr (cs, r)" by (auto simp: eqm)
        from truncatesD [OF 3(2) [OF Cons co] l] show ?thesis
        proof
          assume "\<exists>r'. objectLoop ops rest = Inr (cs, r') \<and> r = r' @ extra"
          then show ?thesis using Cons co by (auto simp: eq)
        next
          assume e: "endsAs rest extra (objectLoop ops rest)"
          then have "endsAs (token # rest) extra (objectLoop ops rest)"
            using co by (intro endsAs_Cons) simp_all
          then show ?thesis using Cons co by (simp add: eq)
        qed
      next
        case st
        with am obtain k cs1 ts1 c ts2 cs2 ts3 v ts4 cs' where
          h: "JSON_parse (tvalue token) = Some k" "parseComments (rest @ extra) = (cs1, ts1)"
            "consume (Some COLON) ts1 = Inr (c, ts2)" "parseComments ts2 = (cs2, ts3)"
            "parseValue ops ts3 = Inr (v, ts4)" "objectLoop ops ts4 = Inr (cs', r)"
          and cs: "cs = map objComment cs1 @ map objComment cs2 @ ObjPair k v # cs'"
          by (auto simp: eqm split: sum.splits option.splits prod.splits)
        from h(3) have ts1c: "ts1 = c # ts2" and colon: "type c = COLON"
          by (cases ts1; auto simp: consume_def peek_def split: if_splits)+
        obtain d1 u1 where p1: "parseComments rest = (d1, u1)" by (cases "parseComments rest")
        from parseComments_split [OF p1] obtain k1 where
          k1: "rest = k1 @ u1" "list_all (\<lambda>t. type t = COMMENT) k1" by blast
        show ?thesis
        proof (cases "u1 = []")
          case True
          with k1 have "list_all (\<lambda>t. type t = COMMENT) rest" by simp
          from parseComments_after [OF this h(2) [unfolded ts1c]] colon
          have "extra \<noteq> [] \<and> type (hd extra) \<noteq> RBRACE \<and> type (hd extra) \<noteq> RBRACKET" by auto
          then have "endsAs ts extra (Inl UnexpectedEndOfInput :: error + ('a ObjChild list \<times> Token list))"
            by (intro endsAs_eoi) simp
          moreover have "objectLoop ops ts = Inl UnexpectedEndOfInput"
            using p1 True st h(1) Cons by (simp add: eq consume_def peek_def)
          ultimately show ?thesis by simp
        next
          case False
          from parseComments_trunc [OF p1 False, of extra] h(2)
          have e1: "cs1 = d1" "ts1 = u1 @ extra" by auto
          from False obtain u2 where u1: "u1 = c # u2" and ts2: "ts2 = u2 @ extra"
            using ts1c unfolding e1 by (cases u1) auto
          have c1: "consume (Some COLON) u1 = Inr (c, u2)"
            using u1 colon by (simp add: consume_def peek_def)
          obtain d2 u3 where p2: "parseComments u2 = (d2, u3)" by (cases "parseComments u2")
          from parseComments_split [OF p2] obtain k2 where
            k2: "u2 = k2 @ u3" "list_all (\<lambda>t. type t = COMMENT) k2"
              "u3 = [] \<or> type (hd u3) \<noteq> COMMENT" by blast
          have tsd: "ts = (token # k1 @ c # k2) @ u3"
            unfolding Cons k1(1) u1 k2(1) by simp
          show ?thesis
          proof (cases "u3 = []")
            case True
            with k2 have "list_all (\<lambda>t. type t = COMMENT) u2" by simp
            moreover from parseValue_starts [OF h(5)] obtain t3 r3 where
              t3: "ts3 = t3 # r3" "type t3 \<noteq> RBRACE" "type t3 \<noteq> RBRACKET"
              by (cases ts3) auto
            ultimately have "extra \<noteq> [] \<and> (type (hd extra) = COMMENT \<or> hd extra = t3)"
              using parseComments_after [of u2 extra cs2 t3 r3] h(4) unfolding ts2 by simp
            with t3 have "extra \<noteq> [] \<and> type (hd extra) \<noteq> RBRACE \<and> type (hd extra) \<noteq> RBRACKET"
              by auto
            then have "endsAs ts extra (Inl UnexpectedEndOfInput :: error + ('a ObjChild list \<times> Token list))"
              by (intro endsAs_eoi) simp
            moreover have "objectLoop ops ts = Inl UnexpectedEndOfInput"
              using p1 p2 c1 True st h(1) Cons by (simp add: eq parseValue.simps)
            ultimately show ?thesis by simp
          next
            case u3: False
            with k2(3) have hd3: "type (hd u3) \<noteq> COMMENT" by simp
            from parseComments_trunc [OF p2 u3, of extra] h(4)
            have e2: "cs2 = d2" "ts3 = u3 @ extra" unfolding ts2 by auto
            from h(5) have "parseValue ops (u3 @ extra) = Inr (v, ts4)" unfolding e2 .
            from truncatesD [OF 3(3) [OF Cons st h(1) p1 [symmetric] c1 refl p2 [symmetric]] this]
            show ?thesis
            proof
              assume "\<exists>r'. parseValue ops u3 = Inr (v, r') \<and> ts4 = r' @ extra"
              then obtain u4 where pv: "parseValue ops u3 = Inr (v, u4)" and ts4: "ts4 = u4 @ extra"
                by blast
              from h(6) have "objectLoop ops (u4 @ extra) = Inr (cs', r)" unfolding ts4 .
              from truncatesD [OF 3(4) [OF Cons st h(1) p1 [symmetric] c1 refl p2 [symmetric] pv refl] this]
              show ?thesis
              proof
                assume "\<exists>r'. objectLoop ops u4 = Inr (cs', r') \<and> r = r' @ extra"
                then show ?thesis
                  using p1 p2 c1 pv st h(1) Cons cs e1 e2 by (auto simp: eq)
              next
                assume e: "endsAs u4 extra (objectLoop ops u4)"
                then obtain er where er: "objectLoop ops u4 = Inl er" using endsAs_Inl by blast
                from parseValue_lastVisible [OF pv hd3] obtain p ty where
                  p: "u3 = p @ u4" "lastVisible p = Some ty" "ty \<noteq> COLON" by blast
                have "lastVisible ((token # k1 @ c # k2) @ p) \<noteq> Some COLON"
                  using p(2,3) lastVisible_append [of "token # k1 @ c # k2" p] by simp
                with e have "endsAs (((token # k1 @ c # k2) @ p) @ u4) extra (objectLoop ops u4)"
                  by (intro endsAs_prefix) simp_all
                then have "endsAs ts extra (objectLoop ops u4)"
                  unfolding tsd p(1) by simp
                moreover have "objectLoop ops ts = Inl er"
                  using p1 p2 c1 pv er st h(1) Cons by (simp add: eq)
                ultimately show ?thesis unfolding er by simp
              qed
            next
              assume e: "endsAs u3 extra (parseValue ops u3)"
              then obtain er where er: "parseValue ops u3 = Inl er" using endsAs_Inl by blast
              from lastVisible_hd [OF u3 hd3] e
              have "endsAs ((token # k1 @ c # k2) @ u3) extra (parseValue ops u3)"
                by (intro endsAs_prefix) auto
              then have "endsAs ts extra (Inl er :: error + ('a ObjChild list \<times> Token list))"
                unfolding tsd [symmetric] er by (rule endsAs_same)
              moreover have "objectLoop ops ts = Inl er"
                using p1 p2 c1 er st h(1) Cons by (simp add: eq)
              ultimately show ?thesis by simp
            qed
          qed
        qed
      next
        case ot
        with am show ?thesis by (auto simp: eqm)
      qed
    qed
  qed
next
  case (4 ops ts)
  show ?case
  proof (rule truncatesI)
    fix v r assume a: "parseArray ops (ts @ extra) = Inr (v, r)"
    show "(\<exists>r'. parseArray ops ts = Inr (v, r') \<and> r = r' @ extra) \<or> endsAs ts extra (parseArray ops ts)"
    proof (cases ts)
      case Nil
      with a have "parseArray ops extra = Inr (v, r)" by simp
      from parseArray_starts [OF this]
      have "endsAs ts extra (Inl UnexpectedEndOfInput :: error + ('a AstNode \<times> Token list))"
        by (intro endsAs_eoi) simp
      with Nil show ?thesis by (simp add: parseArray.simps consume_def peek_def)
    next
      case (Cons token rest)
      from a Cons have t: "type token = LBRACKET" by (auto simp: parseArray_Cons split: if_splits)
      from a Cons t obtain cs where l: "arrayLoop ops (rest @ extra) = Inr (cs, r)" and v: "v = JsonArray cs"
        by (auto simp: parseArray_Cons split: sum.splits)
      have c: "consume (Some LBRACKET) ts = Inr (token, rest)"
        using Cons t by (simp add: consume_def peek_def)
      from truncatesD [OF 4 [OF c refl] l] show ?thesis
      proof
        assume "\<exists>r'. arrayLoop ops rest = Inr (cs, r') \<and> r = r' @ extra"
        then show ?thesis using Cons t v by (auto simp: parseArray_Cons)
      next
        assume e: "endsAs rest extra (arrayLoop ops rest)"
        then obtain er where er: "arrayLoop ops rest = Inl er" using endsAs_Inl by blast
        from e have "endsAs rest extra (Inl er :: error + ('a AstNode \<times> Token list))"
          unfolding er by (rule endsAs_same)
        then have "endsAs (token # rest) extra (Inl er :: error + ('a AstNode \<times> Token list))"
          using t by (intro endsAs_Cons) simp_all
        then show ?thesis using Cons t er by (simp add: parseArray_Cons)
      qed
    qed
  qed
next
  case (5 ops ts)
  show ?case
  proof (rule truncatesI)
    fix cs r assume a: "arrayLoop ops (ts @ extra) = Inr (cs, r)"
    show "(\<exists>r'. arrayLoop ops ts = Inr (cs, r') \<and> r = r' @ extra) \<or> endsAs ts extra (arrayLoop ops ts)"
    proof (cases ts)
      case Nil
      with a have "arrayLoop ops extra = Inr (cs, r)" by simp
      from arrayLoop_starts [OF this]
      have "endsAs [] extra (Inl UnclosedArray :: error + ('a AstNode list \<times> Token list))"
        by (intro endsAs_unclosedArray) simp
      with Nil show ?thesis by (simp add: arrayLoop.simps)
    next
      case (Cons token rest)
      note eq = arrayLoop.simps [of ops "token # rest", simplified]
      note eqm = arrayLoop.simps [of ops "token # rest @ extra", simplified]
      from a Cons have am: "arrayLoop ops (token # rest @ extra) = Inr (cs, r)" by simp
      consider (rb) "type token = RBRACKET"
        | (cm) "type token \<noteq> RBRACKET" "type token = COMMENT"
        | (co) "type token \<noteq> RBRACKET" "type token \<noteq> COMMENT" "type token = COMMA"
        | (ot) "type token \<noteq> RBRACKET" "type token \<noteq> COMMENT" "type token \<noteq> COMMA"
        by blast
      then show ?thesis
      proof cases
        case rb
        with am Cons show ?thesis by (auto simp: eq eqm)
      next
        case cm
        with am obtain cs' where l: "arrayLoop ops (rest @ extra) = Inr (cs', r)"
          and cs: "cs = nodeComment (commentOf token) # cs'"
          by (auto simp: eqm split: sum.splits)
        from truncatesD [OF 5(1) [OF Cons cm] l] show ?thesis
        proof
          assume "\<exists>r'. arrayLoop ops rest = Inr (cs', r') \<and> r = r' @ extra"
          then show ?thesis using Cons cm cs by (auto simp: eq)
        next
          assume e: "endsAs rest extra (arrayLoop ops rest)"
          then obtain er where er: "arrayLoop ops rest = Inl er" using endsAs_Inl by blast
          from e have "endsAs (token # rest) extra (arrayLoop ops rest)"
            using cm by (intro endsAs_Cons) simp_all
          then show ?thesis using Cons cm er by (simp add: eq)
        qed
      next
        case co
        with am have l: "arrayLoop ops (rest @ extra) = Inr (cs, r)" by (auto simp: eqm)
        from truncatesD [OF 5(2) [OF Cons co] l] show ?thesis
        proof
          assume "\<exists>r'. arrayLoop ops rest = Inr (cs, r') \<and> r = r' @ extra"
          then show ?thesis using Cons co by (auto simp: eq)
        next
          assume e: "endsAs rest extra (arrayLoop ops rest)"
          then have "endsAs (token # rest) extra (arrayLoop ops rest)"
            using co by (intro endsAs_Cons) simp_all
          then show ?thesis using Cons co by (simp add: eq)
        qed
      next
        case ot
        with am obtain v ts' cs' where
          h: "parseValue ops (token # rest @ extra) = Inr (v, ts')" "arrayLoop ops ts' = Inr (cs', r)"
          and cs: "cs = v # cs'"
          by (auto simp: eqm split: sum.splits)
        from h(1) Cons have "parseValue ops (ts @ extra) = Inr (v, ts')" by simp
        from truncatesD [OF 5(3) [OF Cons ot] this]
        show ?thesis
        proof
          assume "\<exists>r'. parseValue ops ts = Inr (v, r') \<and> ts' = r' @ extra"
          then obtain u where pv: "parseValue ops ts = Inr (v, u)" and ts': "ts' = u @ extra" by blast
          from h(2) have "arrayLoop ops (u @ extra) = Inr (cs', r)" unfolding ts' .
          from truncatesD [OF 5(4) [OF Cons ot pv refl] this]
          show ?thesis
          proof
            assume "\<exists>r'. arrayLoop ops u = Inr (cs', r') \<and> r = r' @ extra"
            then show ?thesis using pv ot Cons cs by (auto simp: eq)
          next
            assume e: "endsAs u extra (arrayLoop ops u)"
            then obtain er where er: "arrayLoop ops u = Inl er" using endsAs_Inl by blast
            have "type (hd ts) \<noteq> COMMENT" using Cons ot by simp
            from parseValue_lastVisible [OF pv this] obtain p ty where
              p: "ts = p @ u" "lastVisible p = Some ty" "ty \<noteq> COLON" by blast
            from e p(2,3) have "endsAs (p @ u) extra (arrayLoop ops u)"
              by (intro endsAs_prefix) simp_all
            then have "endsAs ts extra (arrayLoop ops u)" unfolding p(1) [symmetric] .
            moreover have "arrayLoop ops ts = Inl er"
              using pv er ot Cons by (simp add: eq)
            ultimately show ?thesis unfolding er by simp
          qed
        next
          assume e: "endsAs ts extra (parseValue ops ts)"
          then obtain er where er: "parseValue ops ts = Inl er" using endsAs_Inl by blast
          from e have "endsAs ts extra (Inl er :: error + ('a AstNode list \<times> Token list))"
            unfolding er by (rule endsAs_same)
          moreover have "arrayLoop ops ts = Inl er"
            using er ot Cons by (simp add: eq)
          ultimately show ?thesis by simp
        qed
      qed
    qed
  qed
qed

text \<open>
  A token sequence is cut off inside its root container when, after the leading comments,
  at least one token remains and every non-empty prefix has more opening than closing
  braces and brackets.
\<close>

definition unclosed :: "Token list \<Rightarrow> bool" where
  "unclosed tokens =
     (let ts = dropWhile (\<lambda>t. type t = COMMENT) tokens
      in ts \<noteq> [] \<and> list_all (\<lambda>n. 0 < depth (take n ts)) [1..<Suc (length ts)])"

text \<open>
  C9, as the claim states it, fails for \<^verbatim>\<open>{"a":\<close>: the tokens run out inside the object,
  and the error is \<^verbatim>\<open>Unexpected end of input\<close>, which names no container; none of the
  errors at the end of the tokens has a line number.
\<close>

theorem unclosed_container_counterexample:
  \<open>tokenize (js ''{"a":'') =
      Inr [Token LBRACE (js ''{'') 1, Token STRING (js ''"a"'') 1, Token COLON (js '':'') 1]
   \<and> unclosed [Token LBRACE (js ''{'') 1, Token STRING (js ''"a"'') 1, Token COLON (js '':'') 1]
   \<and> parse literalOps [Token LBRACE (js ''{'') 1, Token STRING (js ''"a"'') 1, Token COLON (js '':'') 1]
       = Inl UnexpectedEndOfInput
   \<and> format literalOps DEFAULT_CONFIG (js ''{"a":'') = Inl UnexpectedEndOfInput\<close>
  by code_simp

text \<open>
  C9, amended.  When the tokens are cut off inside the root container, \<open>parse\<close> fails and
  returns no tree, and \<open>format\<close> fails with the same error and returns no text.  When
  the tokens are moreover the beginning of a sequence that parses, the error names the
  innermost open container where the tokens stop at the head of its loop: it is
  \<^verbatim>\<open>Unclosed object\<close> where a closing brace could come next and \<^verbatim>\<open>Unclosed array\<close>
  where a closing bracket could come next.  It is \<^verbatim>\<open>Unexpected end of input\<close> where a
  colon is due after a key, and after a colon, where a value is due.  For \<^verbatim>\<open>{"a": 1\<close>
  it is \<^verbatim>\<open>Unclosed object\<close>.  No error of the three has a line number.
\<close>

theorem unclosed_container_fails:
  \<open>(unclosed tokens \<longrightarrow> (\<exists>e. parse ops tokens = Inl e))
   \<and> (unclosed tokens \<and> tokenize s = Inr tokens \<longrightarrow>
        (\<exists>e. parse ops tokens = Inl e \<and> format ops cfg s = Inl e))
   \<and> (unclosed tokens \<and> parse ops (tokens @ extra) = Inr ast \<longrightarrow>
        (parse ops tokens = Inl UnclosedObject \<or> parse ops tokens = Inl UnclosedArray
         \<or> parse ops tokens = Inl UnexpectedEndOfInput)
        \<and> (extra \<noteq> [] \<and> type (hd extra) = RBRACE \<longrightarrow> parse ops tokens = Inl UnclosedObject)
        \<and> (extra \<noteq> [] \<and> type (hd extra) = RBRACKET \<longrightarrow> parse ops tokens = Inl UnclosedArray)
        \<and> (extra \<noteq> [] \<and> type (hd extra) = COLON \<longrightarrow> parse ops tokens = Inl UnexpectedEndOfInput)
        \<and> (lastVisible tokens = Some COLON \<longrightarrow> parse ops tokens = Inl UnexpectedEndOfInput))
   \<and> format ops cfg (js ''{"a": 1'') = Inl UnclosedObject\<close>
proof -
  have value_fails: "\<exists>e. parseValue ops ts = Inl e"
    if u: "ts \<noteq> []" "list_all (\<lambda>n. 0 < depth (take n ts)) [1..<Suc (length ts)]"
    for ts and ops :: "'a NumberOps"
  proof (cases "parseValue ops ts")
    case (Inl e)
    then show ?thesis by blast
  next
    case (Inr b)
    obtain root r where "b = (root, r)" by (cases b)
    with Inr parse_consumes(1) [of ops ts] obtain p where
      p: "ts = p @ r" "p \<noteq> []" "depth p = 0"
      unfolding consumes_def by blast
    have "length ts = length p + length r" unfolding p(1) by simp
    moreover from p(2) have "0 < length p" by simp
    ultimately have n: "1 \<le> length p" "length p \<le> length ts" by linarith+
    then have m: "length p \<in> set [1..<Suc (length ts)]" by auto
    have t: "take (length p) ts = p" unfolding p(1) by simp
    from u(2) m have "0 < depth (take (length p) ts)"
      unfolding list_all_iff by blast
    with t p(3) show ?thesis by simp
  qed
  have fails: "\<exists>e. parse ops tokens = Inl e" if u: "unclosed tokens"
  proof -
    obtain cs ts where pc: "parseComments tokens = (cs, ts)" by (cases "parseComments tokens")
    with parseComments_dropWhile [of tokens] have "ts = dropWhile (\<lambda>t. type t = COMMENT) tokens"
      by simp
    with u have ts: "ts \<noteq> []" "list_all (\<lambda>n. 0 < depth (take n ts)) [1..<Suc (length ts)]"
      by (simp_all add: unclosed_def Let_def)
    from value_fails [OF ts] obtain e where "parseValue ops ts = Inl e" by blast
    with pc ts(1) show ?thesis by (cases ts) (auto simp: parse_def peek_def)
  qed
  have trunc: "endsAs tokens extra (parse ops tokens)"
    if u: "unclosed tokens" and a: "parse ops (tokens @ extra) = Inr ast"
  proof -
    obtain cs ts where pc: "parseComments tokens = (cs, ts)" by (cases "parseComments tokens")
    with parseComments_dropWhile [of tokens] have "ts = dropWhile (\<lambda>t. type t = COMMENT) tokens"
      by simp
    with u have ts: "ts \<noteq> []" "list_all (\<lambda>n. 0 < depth (take n ts)) [1..<Suc (length ts)]"
      by (simp_all add: unclosed_def Let_def)
    from parseComments_split [OF pc] obtain k where
      k: "tokens = k @ ts" "ts = [] \<or> type (hd ts) \<noteq> COMMENT" by blast
    from parseComments_trunc [OF pc ts(1)] have pc': "parseComments (tokens @ extra) = (cs, ts @ extra)" .
    from a pc' ts(1) obtain root r where pv: "parseValue ops (ts @ extra) = Inr (root, r)"
      by (cases "parseValue ops (ts @ extra)"; cases ts) (auto simp: parse_def peek_def)
    from value_fails [OF ts] obtain e where e: "parseValue ops ts = Inl e" by blast
    from truncatesD [OF parse_truncates(1) pv] e have "endsAs ts extra (parseValue ops ts)" by auto
    moreover from ts(1) k(2) have "lastVisible ts \<noteq> None" by (intro lastVisible_hd) simp_all
    ultimately have "endsAs (k @ ts) extra (parseValue ops ts)"
      by (intro endsAs_prefix) auto
    then have "endsAs tokens extra (Inl e :: error + 'a AstNode)"
      unfolding k(1) [symmetric] e by (rule endsAs_same)
    moreover have "parse ops tokens = Inl e"
      using e pc ts(1) by (cases ts) (auto simp: parse_def peek_def)
    ultimately show ?thesis by simp
  qed
  have ex: "format ops cfg (js ''{\"a\": 1'') = Inl UnclosedObject"
    by code_simp
  show ?thesis
  proof (intro conjI impI)
    assume "unclosed tokens" then show "\<exists>e. parse ops tokens = Inl e" by (rule fails)
  next
    assume h: "unclosed tokens \<and> tokenize s = Inr tokens"
    then obtain e where "parse ops tokens = Inl e" using fails by blast
    with h show "\<exists>e. parse ops tokens = Inl e \<and> format ops cfg s = Inl e"
      by (auto simp: format_def)
  next
    assume "unclosed tokens \<and> parse ops (tokens @ extra) = Inr ast"
    with trunc show "parse ops tokens = Inl UnclosedObject \<or> parse ops tokens = Inl UnclosedArray
        \<or> parse ops tokens = Inl UnexpectedEndOfInput"
      by (auto simp: endsAs_def endError_def)
  next
    assume "unclosed tokens \<and> parse ops (tokens @ extra) = Inr ast"
      and "extra \<noteq> [] \<and> type (hd extra) = RBRACE"
    with trunc show "parse ops tokens = Inl UnclosedObject"
      by (cases extra) (auto simp: endsAs_def nextOK_def)
  next
    assume "unclosed tokens \<and> parse ops (tokens @ extra) = Inr ast"
      and "extra \<noteq> [] \<and> type (hd extra) = RBRACKET"
    with trunc show "parse ops tokens = Inl UnclosedArray"
      by (cases extra) (auto simp: endsAs_def nextOK_def)
  next
    assume "unclosed tokens \<and> parse ops (tokens @ extra) = Inr ast"
      and "extra \<noteq> [] \<and> type (hd extra) = COLON"
    with trunc show "parse ops tokens = Inl UnexpectedEndOfInput"
      by (cases extra) (auto simp: endsAs_def nextOK_def)
  next
    assume "unclosed tokens \<and> parse ops (tokens @ extra) = Inr ast"
      and "lastVisible tokens = Some COLON"
    with trunc show "parse ops tokens = Inl UnexpectedEndOfInput"
      by (auto simp: endsAs_def)
  next
    show "format ops cfg (js ''{\"a\": 1'') = Inl UnclosedObject" by (rule ex)
  qed
qed

theorem unclosed_container_fails_witness:
  \<open>tokenize (js ''[1'') = Inr [Token LBRACKET (js ''['') 1, Token NUMBER (js ''1'') 1]
   \<and> parse literalOps [Token LBRACKET (js ''['') 1, Token NUMBER (js ''1'') 1] = Inl UnclosedArray
   \<and> format literalOps DEFAULT_CONFIG (js ''[1'') = Inl UnclosedArray
   \<and> parse literalOps
        [Token LBRACKET (js ''['') 1, Token LBRACE (js ''{'') 1, Token STRING (js ''"a"'') 1,
         Token COLON (js '':'') 1, Token LBRACKET (js ''['') 1, Token RBRACKET (js '']'') 1]
       = Inl UnclosedObject
   \<and> parse literalOps [Token LBRACE (js ''{'') 1, Token STRING (js ''"a"'') 1]
       = Inl UnexpectedEndOfInput
   \<and> parse literalOps
        [Token LBRACE (js ''{'') 1, Token STRING (js ''"a"'') 1, Token COLON (js '':'') 1,
         Token COMMENT (js ''// c'') 1]
       = Inl UnexpectedEndOfInput\<close>
proof -
  define t1 where "t1 = [Token LBRACKET (js ''['') 1, Token NUMBER (js ''1'') 1]"
  define x1 where "x1 = [Token RBRACKET (js '']'') 1]"
  define t2 where "t2 = [Token LBRACKET (js ''['') 1, Token LBRACE (js ''{'') 1,
         Token STRING (js ''\"a\"'') 1, Token COLON (js '':'') 1, Token LBRACKET (js ''['') 1,
         Token RBRACKET (js '']'') 1]"
  define x2 where "x2 = [Token RBRACE (js ''}'') 1, Token RBRACKET (js '']'') 1]"
  define t3 where "t3 = [Token LBRACE (js ''{'') 1, Token STRING (js ''\"a\"'') 1]"
  define x3 where "x3 = [Token COLON (js '':'') 1, Token NUMBER (js ''1'') 1, Token RBRACE (js ''}'') 1]"
  define t4 where "t4 = [Token LBRACE (js ''{'') 1, Token STRING (js ''\"a\"'') 1,
         Token COLON (js '':'') 1, Token COMMENT (js ''// c'') 1]"
  define x4 where "x4 = [Token NUMBER (js ''1'') 1, Token RBRACE (js ''}'') 1]"
  have u: "unclosed t1" "unclosed t2" "unclosed t3" "unclosed t4"
    unfolding t1_def t2_def t3_def t4_def by code_simp+
  have k: "tokenize (js ''[1'') = Inr t1" unfolding t1_def by code_simp
  have p1: "parse literalOps (t1 @ x1) = Inr (JsonArray [JsonNumber (js ''1'') (js ''1'')])"
    unfolding t1_def x1_def by code_simp
  have h1: "x1 \<noteq> [] \<and> type (hd x1) = RBRACKET" by (simp add: x1_def)
  have p2: "parse literalOps (t2 @ x2)
      = Inr (JsonArray [JsonObject [ObjPair (js ''a'') (JsonArray [])]])"
    unfolding t2_def x2_def by code_simp
  have h2: "x2 \<noteq> [] \<and> type (hd x2) = RBRACE" by (simp add: x2_def)
  have p3: "parse literalOps (t3 @ x3)
      = Inr (JsonObject [ObjPair (js ''a'') (JsonNumber (js ''1'') (js ''1''))])"
    unfolding t3_def x3_def by code_simp
  have h3: "x3 \<noteq> [] \<and> type (hd x3) = COLON" by (simp add: x3_def)
  have p4: "parse literalOps (t4 @ x4)
      = Inr (JsonObject [ObjComment (js ''// c'') False,
               ObjPair (js ''a'') (JsonNumber (js ''1'') (js ''1''))])"
    unfolding t4_def x4_def by code_simp
  have h4: "lastVisible t4 = Some COLON" unfolding t4_def by code_simp
  from unclosed_container_fails [of t1 literalOps "js ''[1''" DEFAULT_CONFIG x1
      "JsonArray [JsonNumber (js ''1'') (js ''1'')]"] u(1) k p1 h1
  have r1: "parse literalOps t1 = Inl UnclosedArray"
    "format literalOps DEFAULT_CONFIG (js ''[1'') = Inl UnclosedArray"
    by auto
  from unclosed_container_fails [of t2 literalOps "[]" DEFAULT_CONFIG x2] u(2) p2 h2
  have r2: "parse literalOps t2 = Inl UnclosedObject" by blast
  from unclosed_container_fails [of t3 literalOps "[]" DEFAULT_CONFIG x3] u(3) p3 h3
  have r3: "parse literalOps t3 = Inl UnexpectedEndOfInput" by blast
  from unclosed_container_fails [of t4 literalOps "[]" DEFAULT_CONFIG x4] u(4) p4 h4
  have r4: "parse literalOps t4 = Inl UnexpectedEndOfInput" by blast
  from k r1 r2 r3 r4 show ?thesis
    unfolding t1_def t2_def t3_def t4_def by simp
qed

section \<open>Number literals\<close>

text \<open>
  The JSON number grammar in the words of the specification: an optional minus, an
  integer part that is \<open>0\<close> or starts with a digit from 1 to 9, an optional fraction, an
  optional exponent.
\<close>

definition isJsonInt :: "jsstring \<Rightarrow> bool" where
  "isJsonInt s \<longleftrightarrow>
     s = [0x30] \<or> (\<exists>c ds. s = c # ds \<and> 0x31 \<le> c \<and> c \<le> 0x39 \<and> list_all isDigit ds)"

definition isJsonFrac :: "jsstring \<Rightarrow> bool" where
  "isJsonFrac s \<longleftrightarrow> (\<exists>ds. s = 0x2E # ds \<and> ds \<noteq> [] \<and> list_all isDigit ds)"

definition isJsonExp :: "jsstring \<Rightarrow> bool" where
  "isJsonExp s \<longleftrightarrow>
     (\<exists>e sign ds. s = e # sign @ ds \<and> (e = 0x65 \<or> e = 0x45)
        \<and> (sign = [] \<or> sign = [0x2B] \<or> sign = [0x2D]) \<and> ds \<noteq> [] \<and> list_all isDigit ds)"

definition isJsonNumber :: "jsstring \<Rightarrow> bool" where
  "isJsonNumber s \<longleftrightarrow>
     (\<exists>m i f e. s = m @ i @ f @ e \<and> (m = [] \<or> m = [0x2D]) \<and> isJsonInt i
        \<and> (f = [] \<or> isJsonFrac f) \<and> (e = [] \<or> isJsonExp e))"

text \<open>A character that cannot continue a number literal.\<close>

definition endsNumber :: "jsstring \<Rightarrow> bool" where
  "endsNumber r \<longleftrightarrow>
     (case r of [] \<Rightarrow> True
      | c # _ \<Rightarrow> \<not> isDigit c \<and> c \<noteq> 0x2E \<and> c \<noteq> 0x65 \<and> c \<noteq> 0x45)"

lemma digitRun_take: "list_all isDigit (take (digitRun s) s)"
  by (induction s) auto

lemma digitRun_stop: "r = [] \<or> \<not> isDigit (hd r) \<Longrightarrow> digitRun r = 0"
  by (cases r) auto

lemma digitRun_append:
  "list_all isDigit ds \<Longrightarrow> r = [] \<or> \<not> isDigit (hd r) \<Longrightarrow> digitRun (ds @ r) = length ds"
  by (induction ds) (simp_all add: digitRun_stop)

lemma matchInt_sound: "matchInt t = Some i \<Longrightarrow> isJsonInt (take i t)"
proof (cases t)
  case Nil
  assume "matchInt t = Some i"
  with Nil show ?thesis by (simp add: matchInt_def)
next
  case (Cons c cs)
  assume a: "matchInt t = Some i"
  show ?thesis
  proof (cases "c = 0x30")
    case True
    with a Cons have "i = 1" by (simp add: matchInt_def)
    with True Cons show ?thesis by (simp add: isJsonInt_def)
  next
    case False
    with a Cons have r: "0x31 \<le> c" "c \<le> 0x39" "i = Suc (digitRun cs)"
      by (auto simp: matchInt_def split: if_splits)
    with Cons digitRun_take [of cs] show ?thesis
      by (simp add: isJsonInt_def)
  qed
qed

lemma matchFrac_sound: "matchFrac t = 0 \<or> isJsonFrac (take (matchFrac t) t)"
proof (cases t)
  case Nil
  then show ?thesis by (simp add: matchFrac_def)
next
  case (Cons c cs)
  show ?thesis
  proof (cases "c = 0x2E \<and> 0 < digitRun cs")
    case True
    then have "take (digitRun cs) cs \<noteq> []" by (cases cs) auto
    with True Cons digitRun_take [of cs] show ?thesis
      by (simp add: matchFrac_def isJsonFrac_def)
  next
    case False
    with Cons show ?thesis by (auto simp: matchFrac_def)
  qed
qed

lemma matchExp_sound: "matchExp t = 0 \<or> isJsonExp (take (matchExp t) t)"
proof (cases t)
  case Nil
  then show ?thesis by (simp add: matchExp_def)
next
  case (Cons c cs)
  define g where "g = matchSign cs"
  define n where "n = digitRun (drop g cs)"
  show ?thesis
  proof (cases "(c = 0x65 \<or> c = 0x45) \<and> 0 < n")
    case True
    have e: "matchExp t = Suc (g + n)"
      using True Cons by (simp add: matchExp_def g_def n_def)
    have tk: "take (Suc (g + n)) t = c # take g cs @ take n (drop g cs)"
      using Cons by (simp add: take_add)
    have sg: "take g cs = [] \<or> take g cs = [0x2B] \<or> take g cs = [0x2D]"
      unfolding g_def by (cases cs) (auto simp: matchSign_def)
    have ds: "list_all isDigit (take n (drop g cs))"
      unfolding n_def by (rule digitRun_take)
    have ne: "take n (drop g cs) \<noteq> []"
      using True unfolding n_def by (cases "drop g cs") auto
    show ?thesis
      unfolding e tk isJsonExp_def using True sg ds ne by blast
  next
    case False
    with Cons show ?thesis by (auto simp: matchExp_def g_def n_def)
  qed
qed

lemma matchNumber_sound:
  assumes "matchNumber s = Some n"
  shows "isJsonNumber (take n s)"
proof -
  define m :: nat where "m = (case s of [] \<Rightarrow> 0 | c # cs \<Rightarrow> if c = 0x2D then 1 else 0)"
  from assms obtain i where i: "matchInt (drop m s) = Some i"
    and n: "n = m + i + matchFrac (drop (m + i) s)
              + matchExp (drop (m + i + matchFrac (drop (m + i) s)) s)"
    by (auto simp: matchNumber_def Let_def m_def split: option.splits)
  define f where "f = matchFrac (drop (m + i) s)"
  define e where "e = matchExp (drop (m + i + f) s)"
  have tk: "take n s = take m s @ take i (drop m s) @ take f (drop (m + i) s) @ take e (drop (m + i + f) s)"
    unfolding n f_def [symmetric] e_def [symmetric]
    by (simp only: take_add append_assoc)
  have pm: "take m s = [] \<or> take m s = [0x2D]"
    unfolding m_def by (cases s) auto
  have pi: "isJsonInt (take i (drop m s))" using i by (rule matchInt_sound)
  have pf: "take f (drop (m + i) s) = [] \<or> isJsonFrac (take f (drop (m + i) s))"
    using matchFrac_sound [of "drop (m + i) s"] unfolding f_def by auto
  have pe: "take e (drop (m + i + f) s) = [] \<or> isJsonExp (take e (drop (m + i + f) s))"
    using matchExp_sound [of "drop (m + i + f) s"] unfolding e_def by auto
  show ?thesis
    unfolding tk isJsonNumber_def using pm pi pf pe by blast
qed

lemma matchNumber_complete:
  assumes "isJsonNumber w" and "endsNumber r"
  shows "matchNumber (w @ r) = Some (length w)"
proof -
  from assms(1) obtain m i f e where w: "w = m @ i @ f @ e" and m: "m = [] \<or> m = [0x2D]"
    and i: "isJsonInt i" and f: "f = [] \<or> isJsonFrac f" and e: "e = [] \<or> isJsonExp e"
    unfolding isJsonNumber_def by blast
  from assms(2) have r: "r = [] \<or> (\<not> isDigit (hd r) \<and> hd r \<noteq> 0x2E \<and> hd r \<noteq> 0x65 \<and> hd r \<noteq> 0x45)"
    by (cases r) (auto simp: endsNumber_def)
  have e_hd: "e @ r = [] \<or> (\<not> isDigit (hd (e @ r)) \<and> hd (e @ r) \<noteq> 0x2E)"
    using e r by (auto simp: isJsonExp_def isDigit_def)
  have fe_hd: "f @ e @ r = [] \<or> \<not> isDigit (hd (f @ e @ r))"
    using f e_hd by (auto simp: isJsonFrac_def isDigit_def)
  have "i \<noteq> []" using i by (auto simp: isJsonInt_def)
  have i_hd: "hd i \<noteq> 0x2D" using i by (auto simp: isJsonInt_def)
  have mlen: "(case (m @ i @ f @ e) @ r of [] \<Rightarrow> 0 | c # cs \<Rightarrow> if c = 0x2D then 1 else 0) = length m"
    using m \<open>i \<noteq> []\<close> i_hd by (cases i) auto
  have mi: "matchInt (i @ f @ e @ r) = Some (length i)"
  proof -
    show ?thesis
    proof (cases "i = [0x30]")
      case True
      then show ?thesis by (simp add: matchInt_def)
    next
      case False
      with i obtain c ds where 2: "i = c # ds" "0x31 \<le> c" "c \<le> 0x39" "list_all isDigit ds"
        unfolding isJsonInt_def by blast
      from 2(2) have "c \<noteq> 0x30" by auto
      from digitRun_append [OF 2(4), of "f @ e @ r"] fe_hd
      have "digitRun (ds @ f @ e @ r) = length ds" by simp
      with 2 \<open>c \<noteq> 0x30\<close> show ?thesis by (simp add: matchInt_def)
    qed
  qed
  have mf: "matchFrac (f @ e @ r) = length f"
  proof (cases "f = []")
    case True
    with e_hd show ?thesis by (cases "e @ r") (auto simp: matchFrac_def)
  next
    case False
    with f obtain ds where ds: "f = 0x2E # ds" "ds \<noteq> []" "list_all isDigit ds"
      unfolding isJsonFrac_def by blast
    from digitRun_append [OF ds(3), of "e @ r"] e_hd
    have "digitRun (ds @ e @ r) = length ds" by auto
    with ds show ?thesis by (simp add: matchFrac_def)
  qed
  have me: "matchExp (e @ r) = length e"
  proof (cases "e = []")
    case True
    with r show ?thesis by (cases r) (auto simp: matchExp_def)
  next
    case False
    with e obtain c sign ds where ds: "e = c # sign @ ds" "c = 0x65 \<or> c = 0x45"
      "sign = [] \<or> sign = [0x2B] \<or> sign = [0x2D]" "ds \<noteq> []" "list_all isDigit ds"
      unfolding isJsonExp_def by blast
    from ds(4,5) have d0: "isDigit (hd ds)" by (cases ds) auto
    then have "hd ds \<noteq> 0x2B" "hd ds \<noteq> 0x2D" by (auto simp: isDigit_def)
    with ds(3,4) have sg: "matchSign (sign @ ds @ r) = length sign"
      by (cases ds) (auto simp: matchSign_def)
    from digitRun_append [OF ds(5), of r] r
    have dr: "digitRun (ds @ r) = length ds" by auto
    from ds(4) have "0 < length ds" by simp
    with ds sg dr show ?thesis by (simp add: matchExp_def)
  qed
  show ?thesis
    unfolding w matchNumber_def Let_def mlen
    using mi mf me by simp
qed


lemma firstMatch_number:
  assumes "isJsonNumber w" and "endsNumber r"
  shows "firstMatch PATTERNS (w @ r) = Some (NUMBER, length w)"
proof -
  from assms(1) obtain m i f e where w: "w = m @ i @ f @ e" and m: "m = [] \<or> m = [0x2D]"
    and i: "isJsonInt i"
    unfolding isJsonNumber_def by blast
  from i have "i \<noteq> []" "hd i \<noteq> 0x2F" "hd i \<noteq> 0x22" by (auto simp: isJsonInt_def)
  with m w obtain c cs where c: "w @ r = c # cs" "c \<noteq> 0x2F" "c \<noteq> 0x22"
    by (cases i) auto
  then have "matchComment (w @ r) = None" "matchString (w @ r) = None"
    by (auto simp: matchComment_def matchString_def startsWith_def js_def)
  with matchNumber_complete [OF assms] show ?thesis
    by (simp add: PATTERNS_def)
qed

text \<open>
  The texts from the cursor on at which the loop of \<open>tokenize\<close> stands, one after the
  other: the whole text first, then what is left after each match; the list ends where
  the text is used up or no pattern matches.
\<close>

function cursors :: "jsstring \<Rightarrow> jsstring list" where
  "cursors text =
     (if text = [] then [[]]
      else text #
        (case firstMatch PATTERNS text of
           None \<Rightarrow> []
         | Some (ty, n) \<Rightarrow> cursors (drop n text)))"
  by pat_completeness auto
termination
  by (relation "measure length") (auto dest: firstMatch_PATTERNS_bounds)

declare cursors.simps [simp del]

lemma cursors_length: "s \<in> set (cursors inp) \<Longrightarrow> length s \<le> length inp"
proof (induction inp rule: cursors.induct)
  case (1 inp)
  show ?case
  proof (cases "inp = []")
    case True
    with "1.prems" show ?thesis by (simp add: cursors.simps)
  next
    case False
    show ?thesis
    proof (cases "firstMatch PATTERNS inp")
      case None
      with False "1.prems" show ?thesis by (simp add: cursors.simps [of inp])
    next
      case (Some a)
      obtain ty n where a: "a = (ty, n)" by (cases a)
      from "1.prems" False Some a have "s = inp \<or> s \<in> set (cursors (drop n inp))"
        by (simp add: cursors.simps [of inp])
      then show ?thesis
      proof
        assume "s = inp" then show ?thesis by simp
      next
        assume "s \<in> set (cursors (drop n inp))"
        from "1.IH" [OF False Some a [symmetric] this] show ?thesis by simp
      qed
    qed
  qed
qed

text \<open>An error raised from a cursor on is the error of the whole scan.\<close>

lemma tokenizeFrom_cursor:
  "s \<in> set (cursors inp) \<Longrightarrow>
     tokenizeFrom s (ln + count_list (take (length inp - length s) inp) 0x0A) = Inl e \<Longrightarrow>
     tokenizeFrom inp ln = Inl e"
proof (induction inp arbitrary: ln rule: cursors.induct)
  case (1 inp)
  show ?case
  proof (cases "inp = []")
    case True
    with "1.prems" show ?thesis by (simp add: cursors.simps)
  next
    case False
    show ?thesis
    proof (cases "firstMatch PATTERNS inp")
      case None
      with False "1.prems" show ?thesis by (simp add: cursors.simps [of inp])
    next
      case (Some a)
      obtain ty n where a: "a = (ty, n)" by (cases a)
      from firstMatch_PATTERNS_bounds [of inp ty n] Some a have n: "n \<le> length inp" by simp
      from "1.prems"(1) False Some a have "s = inp \<or> s \<in> set (cursors (drop n inp))"
        by (simp add: cursors.simps [of inp])
      then show ?thesis
      proof
        assume "s = inp" with "1.prems"(2) show ?thesis by simp
      next
        assume m: "s \<in> set (cursors (drop n inp))"
        from cursors_length [OF m] have l: "length s \<le> length inp - n" by simp
        define k where "k = length inp - n - length s"
        have e: "length inp - length s = n + k" using l n by (simp add: k_def)
        have "take (n + k) inp = take n inp @ take k (drop n inp)" by (rule take_add)
        then have c: "count_list (take (length inp - length s) inp) 0x0A
            = count_list (take n inp) 0x0A + count_list (take k (drop n inp)) 0x0A"
          unfolding e by simp
        have "tokenizeFrom s (ln + count_list (take n inp) 0x0A
                + count_list (take (length (drop n inp) - length s) (drop n inp)) 0x0A) = Inl e"
          using "1.prems"(2) unfolding c by (simp add: k_def add.assoc)
        from "1.IH" [OF False Some a [symmetric] m this]
        have "tokenizeFrom (drop n inp) (ln + count_list (take n inp) 0x0A) = Inl e" .
        then show ?thesis
          by (subst tokenizeFrom.simps) (simp add: False Some a)
      qed
    qed
  qed
qed

lemma firstMatch_plus: "firstMatch PATTERNS (0x2B # rest) = None"
  by (simp add: PATTERNS_def matchComment_def matchString_def matchNumber_def matchInt_def
      matchBoolean_def matchLiteral_def matchWhitespace_def startsWith_def js_def isSpace_def)

lemma tokenize_plus:
  assumes "0x2B # rest \<in> set (cursors inp)"
  shows "tokenize inp
           = Inl (UnexpectedCharacter (1 + count_list (take (length inp - Suc (length rest)) inp) 0x0A) 0x2B)"
proof -
  have "tokenizeFrom (0x2B # rest) ln = Inl (UnexpectedCharacter ln 0x2B)" for ln
    by (subst tokenizeFrom.simps) (simp add: firstMatch_plus)
  from tokenizeFrom_cursor [OF assms this] show ?thesis by (simp add: tokenize_def)
qed

text \<open>
  C8, as the claim states it, fails for the leading zero: \<^verbatim>\<open>01\<close> is not rejected, the
  pattern matches \<^verbatim>\<open>0\<close> and the scan goes on at \<^verbatim>\<open>1\<close>, so that \<^verbatim>\<open>[01]\<close> is
  formatted as an array of two numbers.
\<close>

theorem number_strictness_counterexample:
  \<open>tokenize (js ''01'') = Inr [Token NUMBER (js ''0'') 1, Token NUMBER (js ''1'') 1]
   \<and> format literalOps DEFAULT_CONFIG (js ''[01]'') = Inr (js ''[0, 1]'')\<close>
  by code_simp

text \<open>
  C8, amended.  The number pattern matches exactly the JSON number grammar: a text is
  matched in full exactly when it is a JSON number, what the pattern matches at the
  cursor is a JSON number, and a JSON number followed by a character that cannot continue
  it is matched as one NUMBER token.  A plus sign at which the cursor of the loop stands,
  anywhere in the text, that is every plus sign outside a string, a comment and the
  exponent of a number, is rejected: \<open>tokenize\<close> and \<open>format\<close> fail with the error for an
  unexpected character at the line of that plus sign.  A zero followed by a digit is not
  rejected: the zero alone is a NUMBER token and the scan goes on at the digit.
\<close>

theorem number_pattern:
  \<open>(matchNumber w = Some (length w) \<longleftrightarrow> isJsonNumber w)
   \<and> (matchNumber s = Some n \<longrightarrow> n \<le> length s \<and> isJsonNumber (take n s))
   \<and> (isJsonNumber w \<and> endsNumber r \<longrightarrow> firstMatch PATTERNS (w @ r) = Some (NUMBER, length w))
   \<and> (0x2B # rest \<in> set (cursors text) \<longrightarrow>
        tokenize text
          = Inl (UnexpectedCharacter
                   (1 + count_list (take (length text - Suc (length rest)) text) 0x0A) 0x2B)
        \<and> format ops cfg text
          = Inl (UnexpectedCharacter
                   (1 + count_list (take (length text - Suc (length rest)) text) 0x0A) 0x2B))
   \<and> (isDigit d \<longrightarrow> firstMatch PATTERNS (0x30 # d # rest') = Some (NUMBER, 1))\<close>
proof -
  have full: "matchNumber w = Some (length w) \<longleftrightarrow> isJsonNumber w"
  proof
    assume "matchNumber w = Some (length w)"
    from matchNumber_sound [OF this] show "isJsonNumber w" by simp
  next
    assume "isJsonNumber w"
    from matchNumber_complete [OF this, of "[]"] show "matchNumber w = Some (length w)"
      by (simp add: endsNumber_def)
  qed
  have pre: "matchNumber s = Some n \<longrightarrow> n \<le> length s \<and> isJsonNumber (take n s)"
    using matchNumber_sound [of s n] matchNumber_bounds [of s n] by blast
  have plus: "tokenize text
          = Inl (UnexpectedCharacter
                   (1 + count_list (take (length text - Suc (length rest)) text) 0x0A) 0x2B)
        \<and> format ops cfg text
          = Inl (UnexpectedCharacter
                   (1 + count_list (take (length text - Suc (length rest)) text) 0x0A) 0x2B)"
    if "0x2B # rest \<in> set (cursors text)"
    using tokenize_plus [OF that] by (simp add: format_def)
  have zero: "firstMatch PATTERNS (0x30 # d # rest') = Some (NUMBER, 1)" if d: "isDigit d"
  proof -
    from d have "d \<noteq> 0x2E" "d \<noteq> 0x65" "d \<noteq> 0x45" by (auto simp: isDigit_def)
    then have "matchNumber (0x30 # d # rest') = Some 1"
      by (simp add: matchNumber_def matchInt_def matchFrac_def matchExp_def)
    then show ?thesis
      by (simp add: PATTERNS_def matchComment_def matchString_def startsWith_def js_def)
  qed
  from full pre plus zero firstMatch_number show ?thesis by blast
qed

theorem number_pattern_witness:
  \<open>isJsonNumber (js ''-12.5e+3'')
   \<and> firstMatch PATTERNS (js ''-12.5e+3,'') = Some (NUMBER, 8)
   \<and> isJsonNumber (take 1 (js ''01''))
   \<and> js ''+1]'' \<in> set (cursors (js ''[+1]''))
   \<and> tokenize (js ''[+1]'') = Inl (UnexpectedCharacter 1 0x2B)
   \<and> format literalOps DEFAULT_CONFIG (js ''[+1]'') = Inl (UnexpectedCharacter 1 0x2B)
   \<and> js ''+1'' \<in> set (cursors (js ''{"a":'' @ [0x0A] @ js '' +1''))
   \<and> tokenize (js ''{"a":'' @ [0x0A] @ js '' +1'') = Inl (UnexpectedCharacter 2 0x2B)
   \<and> js ''+1'' \<notin> set (cursors (js ''"+1" // +1''))
   \<and> firstMatch PATTERNS (js ''01'') = Some (NUMBER, 1)\<close>
proof -
  define w where "w = js ''-12.5e+3''"
  define t1 where "t1 = js ''[+1]''"
  define t2 where "t2 = js ''{\"a\":'' @ [0x0A] @ js '' +1''"
  have l: "length w = 8" by (simp add: w_def js_def)
  have m: "matchNumber w = Some (length w)" unfolding w_def by code_simp
  have n: "isJsonNumber w"
    using number_pattern [of w "js ''01''" 1 "js '',''" "js ''1]''" t1 literalOps DEFAULT_CONFIG "0x31" "[]"] m
    by blast
  have e: "endsNumber (js '','')" by code_simp
  have z: "matchNumber (js ''01'') = Some 1" by code_simp
  have d: "isDigit 0x31" by (simp add: isDigit_def)
  have c1: "0x2B # js ''1]'' \<in> set (cursors t1)" unfolding t1_def by code_simp
  have c2: "0x2B # js ''1'' \<in> set (cursors t2)" unfolding t2_def by code_simp
  have c3: "js ''+1'' \<notin> set (cursors (js ''\"+1\" // +1''))" by code_simp
  have k1: "1 + count_list (take (length t1 - Suc (length (js ''1]''))) t1) 0x0A = 1"
    unfolding t1_def by code_simp
  have k2: "1 + count_list (take (length t2 - Suc (length (js ''1''))) t2) 0x0A = 2"
    unfolding t2_def by code_simp
  have j: "js ''-12.5e+3,'' = w @ js '',''" "js ''01'' = 0x30 # 0x31 # []"
    "js ''+1]'' = 0x2B # js ''1]''" "js ''+1'' = 0x2B # js ''1''"
    by (simp_all add: w_def js_def)
  show ?thesis
    using number_pattern [of w "js ''01''" 1 "js '',''" "js ''1]''" t1 literalOps DEFAULT_CONFIG "0x31" "[]"]
      number_pattern [of w "js ''01''" 1 "js '',''" "js ''1''" t2 literalOps DEFAULT_CONFIG "0x31" "[]"]
      m n e z d l c1 c2 c3
    unfolding j w_def [symmetric] t1_def [symmetric] t2_def [symmetric] k1 k2 by simp
qed

section \<open>Line terminators\<close>

text \<open>
  What the host guarantees of \<^verbatim>\<open>JSON.stringify\<close> on a number: the text is a JSON number,
  or \<^verbatim>\<open>null\<close> for a number that is not finite.
\<close>

definition jsonNumbers :: "'n NumberOps \<Rightarrow> bool" where
  "jsonNumbers ops \<longleftrightarrow>
     (\<forall>v. numberToJSON ops v = js ''null'' \<or> isJsonNumber (numberToJSON ops v))"

lemma jsonNumbers_literalOps: "jsonNumbers literalOps"
  unfolding jsonNumbers_def literalOps_def
proof (intro allI)
  fix v :: jsstring
  show "numberToJSON \<lparr>parseFloat = (\<lambda>s. s),
                numberToJSON = (\<lambda>s. if matchNumber s = Some (length s) then s else js ''null'')\<rparr> v
          = js ''null''
        \<or> isJsonNumber (numberToJSON \<lparr>parseFloat = (\<lambda>s. s),
                numberToJSON = (\<lambda>s. if matchNumber s = Some (length s) then s else js ''null'')\<rparr> v)"
    using matchNumber_sound [of v "length v"] by simp
qed

text \<open>A text in which every line feed is the second half of a carriage return, line feed pair.\<close>

definition crlfTerminated :: "jsstring \<Rightarrow> bool" where
  "crlfTerminated s \<longleftrightarrow> (\<forall>i < length s. s ! i = 0x0A \<longrightarrow> 0 < i \<and> s ! (i - 1) = 0x0D)"

lemma crlfTerminated_Nil: "crlfTerminated []"
  by (simp add: crlfTerminated_def)

lemma crlfTerminated_Cons:
  assumes "crlfTerminated s" and "c \<noteq> 0x0A"
  shows "crlfTerminated (c # s)"
  unfolding crlfTerminated_def
proof (intro allI impI)
  fix i assume i: "i < length (c # s)" and lf: "(c # s) ! i = 0x0A"
  from lf assms(2) obtain j where j: "i = Suc j" by (cases i) auto
  with i lf have "j < length s" "s ! j = 0x0A" by auto
  with assms(1) have "0 < j" "s ! (j - 1) = 0x0D" unfolding crlfTerminated_def by auto
  with j show "0 < i \<and> (c # s) ! (i - 1) = 0x0D" by (cases j) auto
qed

lemma crlfTerminated_CRLF:
  assumes "crlfTerminated s"
  shows "crlfTerminated (0x0D # 0x0A # s)"
  unfolding crlfTerminated_def
proof (intro allI impI)
  fix i assume i: "i < length (0x0D # 0x0A # s)" and lf: "(0x0D # 0x0A # s) ! i = 0x0A"
  show "0 < i \<and> (0x0D # 0x0A # s) ! (i - 1) = 0x0D"
  proof (cases i)
    case 0
    with lf show ?thesis by simp
  next
    case (Suc j)
    show ?thesis
    proof (cases j)
      case 0
      with Suc show ?thesis by simp
    next
      case (Suc k)
      with \<open>i = Suc j\<close> i lf have "k < length s" "s ! k = 0x0A" by auto
      with assms have "0 < k" "s ! (k - 1) = 0x0D" unfolding crlfTerminated_def by auto
      with Suc \<open>i = Suc j\<close> show ?thesis by (cases k) auto
    qed
  qed
qed

lemma replaceNewlines_crlf: "crlfTerminated (replaceNewlines [0x0D, 0x0A] s)"
proof (induction "[0x0D, 0x0A] :: jsstring" s rule: replaceNewlines.induct)
  case 1
  show ?case by (simp add: crlfTerminated_Nil)
next
  case (2 c)
  show ?case
    by (auto intro: crlfTerminated_CRLF crlfTerminated_Cons crlfTerminated_Nil)
next
  case (3 c d cs)
  then show ?case
    by (auto intro: crlfTerminated_CRLF crlfTerminated_Cons)
qed

lemma replaceNewlines_last:
  "s \<noteq> [] \<Longrightarrow> last s \<noteq> 0x0A \<Longrightarrow>
     replaceNewlines nl s \<noteq> [] \<and> last (replaceNewlines nl s) = last s"
proof (induction nl s rule: replaceNewlines.induct)
  case (1 nl)
  then show ?case by simp
next
  case (2 nl c)
  then show ?case by simp
next
  case (3 nl c d cs)
  show ?case
  proof (cases "c = 0x0D \<and> d = 0x0A")
    case True
    with "3.prems" have "cs \<noteq> []" by auto
    with True "3.prems" "3.IH"(1) show ?thesis by auto
  next
    case False
    with "3.prems" "3.IH"(2,3) show ?thesis by auto
  qed
qed

lemma replaceNewlines_snoc:
  "s = [] \<or> last s \<noteq> 0x0D \<Longrightarrow> replaceNewlines nl (s @ [0x0A]) = replaceNewlines nl s @ nl"
proof (induction nl s rule: replaceNewlines.induct)
  case (1 nl)
  show ?case by simp
next
  case (2 nl c)
  then show ?case by auto
next
  case (3 nl c d cs)
  show ?case
  proof (cases "c = 0x0D \<and> d = 0x0A")
    case True
    show ?thesis
    proof (cases cs)
      case Nil
      with True show ?thesis by simp
    next
      case (Cons e es)
      with True "3.prems" "3.IH"(1) show ?thesis by (cases es) auto
    qed
  next
    case False
    with "3.prems" "3.IH"(2,3) show ?thesis by (cases cs) auto
  qed
qed

text \<open>A text that ends with a character that is neither white space nor a line terminator.\<close>

definition endsVisible :: "jsstring \<Rightarrow> bool" where
  "endsVisible s \<longleftrightarrow> s \<noteq> [] \<and> \<not> isSpace (last s)"

lemma join_snoc: "y \<noteq> [] \<Longrightarrow> join sep (xs @ [y]) \<noteq> [] \<and> last (join sep (xs @ [y])) = last y"
proof (induction xs)
  case Nil
  then show ?case by simp
next
  case (Cons x xs)
  then obtain z zs where "xs @ [y] = z # zs" by (cases "xs @ [y]") auto
  with Cons show ?case by auto
qed

lemma isDigit_unat: "isDigit c \<longleftrightarrow> 48 \<le> unat c \<and> unat c \<le> 57"
  by (simp add: isDigit_def word_le_nat_alt)

lemma isDigit_not_space: "isDigit c \<Longrightarrow> \<not> isSpace c"
  by (auto simp: isDigit_unat isSpace_def word_le_nat_alt)

lemma isJsonNumber_endsVisible: "isJsonNumber t \<Longrightarrow> endsVisible t"
proof -
  assume "isJsonNumber t"
  then obtain m i f e where t: "t = m @ i @ f @ e" and i: "isJsonInt i"
    and f: "f = [] \<or> isJsonFrac f" and e: "e = [] \<or> isJsonExp e"
    unfolding isJsonNumber_def by blast
  have li: "i \<noteq> [] \<and> isDigit (last i)"
    using i by (auto simp: isJsonInt_def isDigit_unat word_le_nat_alt list_all_iff)
  have lf: "f = [] \<or> (f \<noteq> [] \<and> isDigit (last f))"
    using f by (auto simp: isJsonFrac_def list_all_iff)
  have le: "e = [] \<or> (e \<noteq> [] \<and> isDigit (last e))"
    using e by (auto simp: isJsonExp_def list_all_iff)
  have "t \<noteq> [] \<and> isDigit (last t)"
    unfolding t using li lf le by auto
  then show ?thesis by (simp add: endsVisible_def isDigit_not_space)
qed

lemma formatNode_endsVisible:
  assumes "jsonNumbers ops" and "\<not> isComment node"
  shows "endsVisible (formatNode ops this node level key mode)"
proof (cases node)
  case (JsonString v raw)
  then show ?thesis
    by (simp add: formatNode.simps JSON_stringify_def endsVisible_def isSpace_def)
next
  case (JsonNumber v raw)
  from assms(1) have "numberToJSON ops v = js ''null'' \<or> isJsonNumber (numberToJSON ops v)"
    unfolding jsonNumbers_def by blast
  then have "endsVisible (numberToJSON ops v)"
    by (auto simp: isJsonNumber_endsVisible) (simp add: endsVisible_def js_def isSpace_def)
  with JsonNumber show ?thesis by (simp add: formatNode.simps)
next
  case (JsonBoolean v raw)
  then show ?thesis by (simp add: formatNode.simps endsVisible_def js_def isSpace_def)
next
  case (JsonNull raw)
  then show ?thesis by (simp add: formatNode.simps endsVisible_def js_def isSpace_def)
next
  case (JsonComment ctext isBlock)
  with assms(2) show ?thesis by simp
next
  case (JsonArray children)
  have a: "endsVisible (formatInlineArray ops this children)"
    by (simp add: formatInlineArray.simps endsVisible_def js_def isSpace_def)
  have b: "endsVisible (join [0x0A] ([js ''['']
           @ arrayLines ops this level (lastValueIdx isComment children) (length children) 0 children
           @ [repeat (indentStr this) level @ js '']'']))"
    using join_snoc [of "repeat (indentStr this) level @ js '']''" "[0x0A]"
        "[js ''['']
           @ arrayLines ops this level (lastValueIdx isComment children) (length children) 0 children"]
    by (simp add: endsVisible_def js_def isSpace_def)
  from a b JsonArray show ?thesis by (simp add: formatNode.simps)
next
  case (JsonObject children)
  have a: "endsVisible (formatInlineObject ops this children)"
    by (simp add: formatInlineObject.simps endsVisible_def js_def isSpace_def)
  have b: "endsVisible (join [0x0A] ([js ''{'']
           @ objectLines ops this level (lastValueIdx isObjComment children) (length children) 0 children
           @ [repeat (indentStr this) level @ js ''}'']))"
    using join_snoc [of "repeat (indentStr this) level @ js ''}''" "[0x0A]"
        "[js ''{'']
           @ objectLines ops this level (lastValueIdx isObjComment children) (length children) 0 children"]
    by (simp add: endsVisible_def js_def isSpace_def)
  from a b JsonObject show ?thesis by (simp add: formatNode.simps)
qed

lemma parseValue_comment:
  "parseValue ops ts = Inr (v, r) \<Longrightarrow> isComment v \<Longrightarrow> ts \<noteq> [] \<and> type (hd ts) = COMMENT"
proof (cases ts)
  case Nil
  assume "parseValue ops ts = Inr (v, r)"
  with Nil show ?thesis by (simp add: parseValue.simps)
next
  case (Cons token rest)
  assume a: "parseValue ops ts = Inr (v, r)" and c: "isComment v"
  show ?thesis
  proof (rule ccontr)
    assume "\<not> (ts \<noteq> [] \<and> type (hd ts) = COMMENT)"
    with Cons have n: "type token \<noteq> COMMENT" by simp
    from a Cons n c show False
      by (auto simp: parseValue_Cons parseObject_Cons parseArray_Cons
          split: TokenType.splits option.splits sum.splits if_splits)
  qed
qed

lemma parse_not_comment: "parse ops tokens = Inr ast \<Longrightarrow> \<not> isComment ast"
proof -
  assume a: "parse ops tokens = Inr ast"
  obtain cs ts where pc: "parseComments tokens = (cs, ts)" by (cases "parseComments tokens")
  from parseComments_split [OF pc] have hd: "ts = [] \<or> type (hd ts) \<noteq> COMMENT" by blast
  show ?thesis
  proof (cases ts)
    case Nil
    with a pc show ?thesis by (auto simp: parse_def peek_def)
  next
    case (Cons t rest)
    with a pc obtain root r where pv: "parseValue ops ts = Inr (root, r)"
      and ast: "ast = (case root of
                        JsonObject children \<Rightarrow> JsonObject (map objComment cs @ children)
                      | JsonArray children \<Rightarrow> JsonArray (map nodeComment cs @ children)
                      | _ \<Rightarrow> root)"
      by (cases "parseValue ops ts") (auto simp: parse_def peek_def)
    from parseValue_comment [OF pv] hd Cons have "\<not> isComment root" by auto
    with ast show ?thesis by (cases root) auto
  qed
qed

text \<open>The helpers over the children as maps.\<close>

lemma inlineArrayParts_map:
  "inlineArrayParts ops this cs = map (\<lambda>c. formatNode ops this c 0 [] True) cs"
  by (induction cs) simp_all

fun pairsOf :: "'n ObjChild list \<Rightarrow> (jsstring \<times> 'n AstNode) list" where
  "pairsOf [] = []"
| "pairsOf (ObjComment ctext isBlock # rest) = pairsOf rest"
| "pairsOf (ObjPair key v # rest) = (key, v) # pairsOf rest"

lemma inlineObjectParts_map:
  "inlineObjectParts ops this cs =
     map (\<lambda>(key, v). JSON_stringify key @ js '': '' @ formatNode ops this v 0 [] True) (pairsOf cs)"
  by (induction cs rule: pairsOf.induct) simp_all

lemma pairsOf_set: "(key, v) \<in> set (pairsOf cs) \<longleftrightarrow> ObjPair key v \<in> set cs"
  by (induction cs rule: pairsOf.induct) auto

text \<open>
  \<open>formatNode\<close> reads of the formatter the indent unit, the three sets and the threshold,
  nothing else of the configuration.
\<close>

definition sameLayout :: "MaaPipelineFormatter \<Rightarrow> MaaPipelineFormatter \<Rightarrow> bool" where
  "sameLayout t1 t2 \<longleftrightarrow>
     indentStr t1 = indentStr t2 \<and> coordinateFields t1 = coordinateFields t2
     \<and> controlFlowFields t1 = controlFlowFields t2
     \<and> alwaysMultilineFields t1 = alwaysMultilineFields t2
     \<and> simple_array_threshold (config t1) = simple_array_threshold (config t2)"

lemma formatNode_sameLayout_all:
  assumes s: "sameLayout t1 t2"
  shows "\<forall>level key mode. formatNode ops t1 node level key mode = formatNode ops t2 node level key mode"
proof (induct node rule: AstNode.induct [where ?P2.0 = "\<lambda>child. \<forall>k v. child = ObjPair k v \<longrightarrow>
              (\<forall>level key mode. formatNode ops t1 v level key mode = formatNode ops t2 v level key mode)"])
  case (JsonArray cs)
  have el: "\<And>c level key mode. c \<in> set cs \<Longrightarrow>
      formatNode ops t1 c level key mode = formatNode ops t2 c level key mode"
    using JsonArray by blast
  have inl: "formatInlineArray ops t1 cs = formatInlineArray ops t2 cs"
    by (simp add: formatInlineArray.simps inlineArrayParts_map el cong: map_cong)
  have dec: "shouldInlineArray ops t1 key cs = shouldInlineArray ops t2 key cs" for key
    using s by (simp add: shouldInlineArray.simps inl isCoordinateArray_def sameLayout_def)
  have lines: "arrayLines ops t1 level lastIdx n i cs = arrayLines ops t2 level lastIdx n i cs"
    for level lastIdx n i
    unfolding arrayLines_map using s
    by (intro map_cong) (auto simp: el sameLayout_def)
  show ?case
    using s by (simp add: formatNode.simps inl dec lines sameLayout_def)
next
  case (JsonObject cs)
  have el: "\<And>k v level key mode. ObjPair k v \<in> set cs \<Longrightarrow>
      formatNode ops t1 v level key mode = formatNode ops t2 v level key mode"
    using JsonObject by blast
  have el': "\<And>j k v level key mode. j < length cs \<Longrightarrow> cs ! j = ObjPair k v \<Longrightarrow>
      formatNode ops t1 v level key mode = formatNode ops t2 v level key mode"
    using el by (metis nth_mem)
  have inl: "formatInlineObject ops t1 cs = formatInlineObject ops t2 cs"
    by (simp add: formatInlineObject.simps inlineObjectParts_map)
       (intro arg_cong [where f = "join (js '', '')"] map_cong, auto simp: pairsOf_set el)
  have dec: "shouldInlineObject ops t1 key cs = shouldInlineObject ops t2 key cs" for key
    using s by (simp add: shouldInlineObject.simps inl sameLayout_def)
  have lines: "objectLines ops t1 level lastIdx n i cs = objectLines ops t2 level lastIdx n i cs"
    for level lastIdx n i
    unfolding objectLines_map using s
    by (intro map_cong) (auto simp: el' sameLayout_def split: ObjChild.splits)
  show ?case
    using s by (simp add: formatNode.simps inl dec lines sameLayout_def)
qed (simp_all add: formatNode.simps)

lemma formatNode_sameLayout:
  "sameLayout t1 t2 \<Longrightarrow>
     formatNode ops t1 node level key mode = formatNode ops t2 node level key mode"
  using formatNode_sameLayout_all by blast

section \<open>Reading the output again\<close>

text \<open>
  The type and text of a token, without its line; \<open>scan\<close> is \<open>tokenize\<close> seen through
  \<open>shape\<close>: the same loop, returning the shapes of the tokens, or \<open>None\<close> where \<open>tokenize\<close>
  throws.
\<close>

definition shape :: "Token \<Rightarrow> TokenType \<times> jsstring" where
  "shape t = (type t, tvalue t)"

function scan :: "jsstring \<Rightarrow> (TokenType \<times> jsstring) list option" where
  "scan text =
     (if text = [] then Some []
      else
        (case firstMatch PATTERNS text of
           None \<Rightarrow> None
         | Some (ty, n) \<Rightarrow>
             (case scan (drop n text) of
                None \<Rightarrow> None
              | Some ss \<Rightarrow> Some (if ty \<noteq> WHITESPACE then (ty, take n text) # ss else ss))))"
  by pat_completeness auto
termination
  by (relation "measure length") (auto dest: firstMatch_PATTERNS_bounds)

declare scan.simps [simp del]

lemma tokenizeFrom_scan:
  "(case tokenizeFrom s ln of Inl e \<Rightarrow> scan s = None
    | Inr ts \<Rightarrow> scan s = Some (map shape ts))"
proof (induction s ln rule: tokenizeFrom.induct)
  case (1 s ln)
  show ?case
  proof (cases "s = []")
    case True
    then show ?thesis by (simp add: tokenizeFrom.simps scan.simps)
  next
    case False
    show ?thesis
    proof (cases "firstMatch PATTERNS s")
      case None
      with False show ?thesis
        by (subst tokenizeFrom.simps, subst scan.simps) simp
    next
      case (Some a)
      obtain ty n where a: "a = (ty, n)" by (cases a)
      have t: "tokenizeFrom s ln =
          (case tokenizeFrom (drop n s) (ln + count_list (take n s) 0x0A) of
             Inl e \<Rightarrow> Inl e
           | Inr ts \<Rightarrow> Inr (if ty \<noteq> WHITESPACE then Token ty (take n s) ln # ts else ts))"
        by (subst tokenizeFrom.simps) (simp add: False Some a)
      have c: "scan s =
          (case scan (drop n s) of
             None \<Rightarrow> None
           | Some ss \<Rightarrow> Some (if ty \<noteq> WHITESPACE then (ty, take n s) # ss else ss))"
        by (subst scan.simps) (simp add: False Some a)
      from "1.IH" [OF False Some a [symmetric]]
      show ?thesis
        unfolding t c by (auto simp: shape_def split: sum.splits)
    qed
  qed
qed

lemma tokenize_scan: "tokenize s = Inr ts \<Longrightarrow> scan s = Some (map shape ts)"
  using tokenizeFrom_scan [of s 1] by (simp add: tokenize_def)

lemma scan_tokenize: "scan s = Some ss \<Longrightarrow> \<exists>ts. tokenize s = Inr ts \<and> map shape ts = ss"
  using tokenizeFrom_scan [of s 1] by (cases "tokenize s") (auto simp: tokenize_def)

lemma scan_Nil: "scan [] = Some []"
  by (simp add: scan.simps)

lemma scan_token:
  assumes "firstMatch PATTERNS (tok @ rest) = Some (ty, length tok)" and "ty \<noteq> WHITESPACE"
  shows "scan (tok @ rest) = map_option ((#) (ty, tok)) (scan rest)"
proof -
  from firstMatch_PATTERNS_bounds [OF assms(1)] have "tok \<noteq> []" by auto
  then show ?thesis
    using assms by (subst scan.simps) (auto split: option.splits)
qed

lemma firstMatch_space:
  assumes "isSpace c"
  shows "firstMatch PATTERNS (c # s) = Some (WHITESPACE, Suc (spaceRun s))"
proof -
  from assms have n: "c \<noteq> 0x2F" "c \<noteq> 0x22" "c \<noteq> 0x2D" "c \<noteq> 0x30"
    "c \<noteq> 0x74" "c \<noteq> 0x66" "c \<noteq> 0x6E" "c \<noteq> 0x7B" "c \<noteq> 0x7D" "c \<noteq> 0x5B" "c \<noteq> 0x5D"
    "c \<noteq> 0x3A" "c \<noteq> 0x2C"
    by (auto simp: isSpace_def)
  from assms have d: "\<not> (0x31 \<le> c \<and> c \<le> 0x39)"
    by (auto simp: isSpace_def word_le_nat_alt)
  from n d have num: "matchNumber (c # s) = None"
    by (auto simp: matchNumber_def matchInt_def)
  from n assms show ?thesis
    by (simp add: PATTERNS_def num matchComment_def matchString_def
        matchBoolean_def matchLiteral_def matchWhitespace_def startsWith_def js_def)
qed

lemma scan_space1: "isSpace c \<Longrightarrow> scan (c # s) = scan s"
proof -
  assume c: "isSpace c"
  have l: "scan (c # s) = scan (drop (spaceRun s) s)"
    by (subst scan.simps) (simp add: firstMatch_space [OF c] split: option.splits)
  show ?thesis
  proof (cases s)
    case Nil
    with l show ?thesis by simp
  next
    case (Cons d ds)
    show ?thesis
    proof (cases "isSpace d")
      case True
      have "scan s = scan (drop (spaceRun ds) ds)"
        unfolding Cons
        by (subst scan.simps) (simp add: firstMatch_space [OF True] split: option.splits)
      with l Cons True show ?thesis by simp
    next
      case False
      with l Cons show ?thesis by simp
    qed
  qed
qed

lemma scan_space: "list_all isSpace ws \<Longrightarrow> scan (ws @ rest) = scan rest"
  by (induction ws) (simp_all add: scan_space1)

text \<open>What each kind of token text matches, whatever follows it or given its first character.\<close>

lemma firstMatch_punct:
  "firstMatch PATTERNS (0x7B # rest) = Some (LBRACE, 1)"
  "firstMatch PATTERNS (0x7D # rest) = Some (RBRACE, 1)"
  "firstMatch PATTERNS (0x5B # rest) = Some (LBRACKET, 1)"
  "firstMatch PATTERNS (0x5D # rest) = Some (RBRACKET, 1)"
  "firstMatch PATTERNS (0x3A # rest) = Some (COLON, 1)"
  "firstMatch PATTERNS (0x2C # rest) = Some (COMMA, 1)"
  by (simp_all add: PATTERNS_def matchComment_def matchString_def matchNumber_def matchInt_def
        matchBoolean_def matchLiteral_def matchWhitespace_def startsWith_def js_def)

lemma firstMatch_literal:
  "firstMatch PATTERNS (js ''true'' @ rest) = Some (BOOLEAN, 4)"
  "firstMatch PATTERNS (js ''false'' @ rest) = Some (BOOLEAN, 5)"
  "firstMatch PATTERNS (js ''null'' @ rest) = Some (NULL, 4)"
  by (simp_all add: PATTERNS_def matchComment_def matchString_def matchNumber_def matchInt_def
        matchBoolean_def matchLiteral_def matchWhitespace_def startsWith_def js_def)


text \<open>The text of a string is one STRING token, whatever follows it.\<close>

lemma stringBody_plain:
  "c \<noteq> 0x5C \<Longrightarrow> c \<noteq> 0x22 \<Longrightarrow> stringBody s = Some k \<Longrightarrow> stringBody (c # s) = Some (Suc k)"
  by simp

lemma stringBody_escape:
  "isDot e \<Longrightarrow> stringBody s = Some k \<Longrightarrow> stringBody (0x5C # e # s) = Some (k + 2)"
  by simp

lemma nibble_lt: "unat (and (x :: cu) 0xF) < 16"
proof -
  have "(0xF :: cu) = mask 4" by (simp add: mask_eq_exp_minus_1)
  then have "and x 0xF = take_bit 4 x" by (simp add: take_bit_eq_mask)
  then have "unat (and x 0xF) = take_bit 4 (unat x)" by (simp add: unsigned_take_bit_eq)
  then show ?thesis by (simp add: take_bit_eq_mod)
qed


lemma shift_eq: "unat (drop_bit n (c :: cu)) = unat c div 2 ^ n"
  by (metis drop_bit_eq_div unat_drop_bit_eq)

lemma cu_lt: "unat (c :: cu) < 65536"
  using unsigned_less [of c, where 'a = nat] by simp

lemma top_nibble_lt: "unat (drop_bit 12 (c :: cu)) < 16"
  using cu_lt [of c] by (simp add: shift_eq)

lemma hexDigit_unat:
  "unat n < 16 \<Longrightarrow> unat (hexDigit n) = (if unat n < 10 then 48 + unat n else 87 + unat n)"
  by (simp add: hexDigit_def word_less_nat_alt unat_word_ariths)

lemma hexDigit_plain: "unat n < 16 \<Longrightarrow> hexDigit n \<noteq> 0x5C \<and> hexDigit n \<noteq> 0x22"
proof -
  assume n: "unat n < 16"
  have "unat (hexDigit n) \<noteq> 92 \<and> unat (hexDigit n) \<noteq> 34"
    using n by (simp add: hexDigit_unat)
  then show ?thesis by auto
qed

lemma stringBody_unicodeEscape:
  "stringBody s = Some k \<Longrightarrow> stringBody (unicodeEscape c @ s) = Some (k + 6)"
proof -
  assume s: "stringBody s = Some k"
  note p = hexDigit_plain [OF top_nibble_lt [of c]] hexDigit_plain [OF nibble_lt [of "drop_bit 8 c"]]
    hexDigit_plain [OF nibble_lt [of "drop_bit 4 c"]] hexDigit_plain [OF nibble_lt [of c]]
  have 4: "stringBody (hexDigit (and c 0xF) # s) = Some (k + 1)"
    using stringBody_plain [OF _ _ s, of "hexDigit (and c 0xF)"] p by simp
  have 3: "stringBody (hexDigit (and (drop_bit 4 c) 0xF) # hexDigit (and c 0xF) # s) = Some (k + 2)"
    using stringBody_plain [OF _ _ 4, of "hexDigit (and (drop_bit 4 c) 0xF)"] p by simp
  have 2: "stringBody (hexDigit (and (drop_bit 8 c) 0xF) # hexDigit (and (drop_bit 4 c) 0xF)
              # hexDigit (and c 0xF) # s) = Some (k + 3)"
    using stringBody_plain [OF _ _ 3, of "hexDigit (and (drop_bit 8 c) 0xF)"] p by simp
  have 1: "stringBody (hexDigit (drop_bit 12 c) # hexDigit (and (drop_bit 8 c) 0xF)
              # hexDigit (and (drop_bit 4 c) 0xF) # hexDigit (and c 0xF) # s) = Some (k + 4)"
    using stringBody_plain [OF _ _ 2, of "hexDigit (drop_bit 12 c)"] p by simp
  have "isDot 0x75" by (simp add: isDot_def)
  from stringBody_escape [OF this 1] show ?thesis
    by (simp add: unicodeEscape_def)
qed

lemma stringBody_quoteChars:
  "stringBody (quoteChars v @ 0x22 # rest) = Some (Suc (length (quoteChars v)))"
proof (induction v rule: quoteChars.induct)
  case 1
  show ?case by simp
next
  case (2 c cs)
  have len: "length (unicodeEscape x) = 6" for x by (simp add: unicodeEscape_def)
  have dots: "isDot 0x62" "isDot 0x74" "isDot 0x6E" "isDot 0x66" "isDot 0x72" "isDot 0x22" "isDot 0x5C"
    by (simp_all add: isDot_def)
  consider (b) "c = 0x08" | (t) "c = 0x09" | (n) "c = 0x0A" | (f) "c = 0x0C" | (r) "c = 0x0D"
    | (q) "c = 0x22" | (bs) "c = 0x5C"
    | (ctl) "c \<noteq> 0x08" "c \<noteq> 0x09" "c \<noteq> 0x0A" "c \<noteq> 0x0C" "c \<noteq> 0x0D" "c \<noteq> 0x22" "c \<noteq> 0x5C" "c < 0x20"
    | (hi) "c \<noteq> 0x08" "c \<noteq> 0x09" "c \<noteq> 0x0A" "c \<noteq> 0x0C" "c \<noteq> 0x0D" "c \<noteq> 0x22" "c \<noteq> 0x5C" "\<not> c < 0x20"
        "isHighSurrogate c"
    | (lo) "c \<noteq> 0x08" "c \<noteq> 0x09" "c \<noteq> 0x0A" "c \<noteq> 0x0C" "c \<noteq> 0x0D" "c \<noteq> 0x22" "c \<noteq> 0x5C" "\<not> c < 0x20"
        "\<not> isHighSurrogate c" "isLowSurrogate c"
    | (pl) "c \<noteq> 0x08" "c \<noteq> 0x09" "c \<noteq> 0x0A" "c \<noteq> 0x0C" "c \<noteq> 0x0D" "c \<noteq> 0x22" "c \<noteq> 0x5C" "\<not> c < 0x20"
        "\<not> isHighSurrogate c" "\<not> isLowSurrogate c"
    by blast
  then show ?case
  proof cases
    case b
    with "2.IH"(1) dots show ?thesis by simp
  next
    case t
    with "2.IH"(2) dots show ?thesis by simp
  next
    case n
    with "2.IH"(3) dots show ?thesis by simp
  next
    case f
    with "2.IH"(4) dots show ?thesis by simp
  next
    case r
    with "2.IH"(5) dots show ?thesis by simp
  next
    case q
    with "2.IH"(6) dots show ?thesis by simp
  next
    case bs
    with "2.IH"(7) dots show ?thesis by simp
  next
    case ctl
    from stringBody_unicodeEscape [OF "2.IH"(8) [OF ctl], of c] ctl len show ?thesis by simp
  next
    case hi
    show ?thesis
    proof (cases cs)
      case Nil
      have "stringBody (0x22 # rest) = Some 1" by simp
      from stringBody_unicodeEscape [OF this, of c] hi Nil len show ?thesis by simp
    next
      case (Cons d ds)
      show ?thesis
      proof (cases "isLowSurrogate d")
        case True
        have pd: "d \<noteq> 0x5C" "d \<noteq> 0x22" using True by (auto simp: isLowSurrogate_def)
        from "2.IH"(9) [OF hi Cons True] hi Cons True pd show ?thesis by simp
      next
        case False
        from stringBody_unicodeEscape [OF "2.IH"(10) [OF hi Cons False], of c] hi Cons False len
        show ?thesis by simp
      qed
    qed
  next
    case lo
    from stringBody_unicodeEscape [OF "2.IH"(11) [OF lo], of c] lo len show ?thesis by simp
  next
    case pl
    from "2.IH"(12) [OF pl] pl show ?thesis by simp
  qed
qed

lemma firstMatch_string:
  "firstMatch PATTERNS (JSON_stringify v @ rest) = Some (STRING, length (JSON_stringify v))"
  using stringBody_quoteChars [of v rest]
  by (simp add: PATTERNS_def JSON_stringify_def matchComment_def matchString_def startsWith_def js_def)


section \<open>Comments and line terminators\<close>

text \<open>A text that the COMMENT pattern matches in full: the text of a comment token.\<close>

definition isCommentText :: "jsstring \<Rightarrow> bool" where
  "isCommentText s \<longleftrightarrow> matchComment s = Some (length s)"

lemma dotRun_take: "dotRun (take (dotRun s) s) = dotRun s"
  by (induction s) auto

lemma dotRun_all: "dotRun s = length s \<Longrightarrow> list_all isDot s"
  by (induction s) (auto split: if_splits)

lemma dotRun_stop: "rest = [] \<or> \<not> isDot (hd rest) \<Longrightarrow> dotRun rest = 0"
  by (cases rest) auto

lemma dotRun_append:
  "list_all isDot s \<Longrightarrow> rest = [] \<or> \<not> isDot (hd rest) \<Longrightarrow> dotRun (s @ rest) = length s"
  by (induction s) (simp_all add: dotRun_stop)

lemma blockEnd_take: "blockEnd s = Some n \<Longrightarrow> blockEnd (take n s) = Some n"
proof (induction s arbitrary: n rule: blockEnd.induct)
  case 1
  then show ?case by simp
next
  case (2 c)
  then show ?case by simp
next
  case (3 c d cs)
  show ?case
  proof (cases "c = 0x2A \<and> d = 0x2F")
    case True
    with "3.prems" show ?thesis by auto
  next
    case False
    with "3.prems" obtain k where k: "blockEnd (d # cs) = Some k" "n = Suc k" by auto
    from blockEnd_bounds [OF k(1)] obtain j where j: "k = Suc j" by (cases k) auto
    from "3.IH" [OF False k(1)] have "blockEnd (take k (d # cs)) = Some k" .
    with False k j show ?thesis by auto
  qed
qed

lemma blockEnd_append: "blockEnd s = Some n \<Longrightarrow> blockEnd (s @ rest) = Some n"
proof (induction s arbitrary: n rule: blockEnd.induct)
  case 1
  then show ?case by simp
next
  case (2 c)
  then show ?case by simp
next
  case (3 c d cs)
  then show ?case by (auto split: if_splits)
qed

lemma startsWith_2: "startsWith s [a, b] \<longleftrightarrow> (\<exists>r. s = a # b # r)"
  by (cases s; cases "tl s") (auto simp: startsWith_def)

lemma matchComment_take: "matchComment s = Some n \<Longrightarrow> isCommentText (take n s)"
proof -
  assume a: "matchComment s = Some n"
  have j: "js ''//'' = [0x2F, 0x2F]" "js ''/*'' = [0x2F, 0x2A]" by (simp_all add: js_def)
  show ?thesis
  proof (cases "startsWith s (js ''//'')")
    case True
    then obtain r where r: "s = 0x2F # 0x2F # r" unfolding j startsWith_2 by blast
    with a True have n: "n = 2 + dotRun r" by (simp add: matchComment_def)
    have "dotRun (take (dotRun r) r) = dotRun r" by (rule dotRun_take)
    moreover have "length (take (dotRun r) r) = dotRun r" using dotRun_le [of r] by simp
    ultimately show ?thesis
      unfolding isCommentText_def matchComment_def r n j
      by (simp add: startsWith_def)
  next
    case False
    with a obtain k where k: "startsWith s (js ''/*'')" "blockEnd (drop 2 s) = Some k" "n = 2 + k"
      by (auto simp: matchComment_def split: if_splits)
    from k(1) obtain r where r: "s = 0x2F # 0x2A # r" unfolding j startsWith_2 by blast
    from k(2) r have b: "blockEnd r = Some k" by simp
    from blockEnd_bounds [OF b] have "length (take k r) = k" by simp
    with blockEnd_take [OF b] show ?thesis
      unfolding isCommentText_def matchComment_def r k(3) j
      by (simp add: startsWith_def)
  qed
qed

text \<open>The two values of \<open>newline\<close> in \<open>format\<close>.\<close>

definition isNewline :: "jsstring \<Rightarrow> bool" where
  "isNewline nl \<longleftrightarrow> nl = [0x0A] \<or> nl = [0x0D, 0x0A]"

lemma replaceNewlines_id: "0x0A \<notin> set s \<Longrightarrow> replaceNewlines nl s = s"
  by (induction nl s rule: replaceNewlines.induct) auto

lemma replaceNewlines_append:
  "a = [] \<or> last a \<noteq> 0x0D \<Longrightarrow>
     replaceNewlines nl (a @ b) = replaceNewlines nl a @ replaceNewlines nl b"
proof (induction nl a rule: replaceNewlines.induct)
  case (1 nl)
  show ?case by simp
next
  case (2 nl c)
  then show ?case by (cases b) auto
next
  case (3 nl c d cs)
  show ?case
  proof (cases "c = 0x0D \<and> d = 0x0A")
    case True
    with "3.prems" have "cs = [] \<or> last cs \<noteq> 0x0D" by auto
    from "3.IH"(1) [OF True this] True show ?thesis by simp
  next
    case False
    from "3.prems" have "d # cs = [] \<or> last (d # cs) \<noteq> 0x0D" by auto
    with "3.IH"(2,3) False show ?thesis by auto
  qed
qed

lemma replaceNewlines_hd:
  "isNewline nl \<Longrightarrow> s \<noteq> [] \<Longrightarrow> hd s \<noteq> 0x0A \<Longrightarrow> hd s \<noteq> 0x0D \<Longrightarrow>
     replaceNewlines nl s \<noteq> [] \<and> hd (replaceNewlines nl s) = hd s"
  by (induction nl s rule: replaceNewlines.induct) (auto simp: isNewline_def)

lemma blockEnd_replaceNewlines:
  "isNewline nl \<Longrightarrow> blockEnd s = Some (length s) \<Longrightarrow>
     blockEnd (replaceNewlines nl s) = Some (length (replaceNewlines nl s))"
proof (induction nl s rule: replaceNewlines.induct)
  case (1 nl)
  then show ?case by simp
next
  case (2 nl c)
  then show ?case by simp
next
  case (3 nl c d cs)
  note nl = "3.prems"(1)
  show ?case
  proof (cases "c = 0x0D \<and> d = 0x0A")
    case True
    with "3.prems"(2) have "blockEnd (d # cs) = Some (length (d # cs))" by auto
    with True have cs: "blockEnd cs = Some (length cs)" by (cases cs) auto
    from "3.IH"(1) [OF True nl cs] have ih: "blockEnd (replaceNewlines nl cs) = Some (length (replaceNewlines nl cs))" .
    then obtain e es where e: "replaceNewlines nl cs = e # es" by (cases "replaceNewlines nl cs") auto
    from ih True nl show ?thesis unfolding isNewline_def by (auto simp: e)
  next
    case False
    show ?thesis
    proof (cases "c = 0x2A \<and> d = 0x2F")
      case True
      with "3.prems"(2) have "cs = []" by simp
      with True show ?thesis by simp
    next
      case star: False
      with "3.prems"(2) have dcs: "blockEnd (d # cs) = Some (length (d # cs))" by auto
      show ?thesis
      proof (cases "c = 0x0A")
        case True
        from "3.IH"(2) [OF False True nl dcs]
        have ih: "blockEnd (replaceNewlines nl (d # cs)) = Some (length (replaceNewlines nl (d # cs)))" .
        then obtain e es where e: "replaceNewlines nl (d # cs) = e # es"
          by (cases "replaceNewlines nl (d # cs)") auto
        from ih True False nl show ?thesis unfolding isNewline_def by (auto simp: e)
      next
        case lf: False
        from "3.IH"(3) [OF False lf nl dcs]
        have ih: "blockEnd (replaceNewlines nl (d # cs)) = Some (length (replaceNewlines nl (d # cs)))" .
        then obtain e es where e: "replaceNewlines nl (d # cs) = e # es"
          by (cases "replaceNewlines nl (d # cs)") auto
        have "\<not> (c = 0x2A \<and> e = 0x2F)"
        proof (cases "d = 0x0A \<or> d = 0x0D")
          case True
          then have "e = 0x0A \<or> e = 0x0D"
            using e nl by (cases cs) (auto simp: isNewline_def split: if_splits)
          then show ?thesis by auto
        next
          case nd: False
          with replaceNewlines_hd [OF nl, of "d # cs"] e have "e = d" by simp
          with star show ?thesis by simp
        qed
        with ih e False lf show ?thesis by auto
      qed
    qed
  qed
qed

lemma firstMatch_comment:
  assumes nl: "isNewline nl" and c: "isCommentText s" and r: "rest = [] \<or> \<not> isDot (hd rest)"
  shows "firstMatch PATTERNS (replaceNewlines nl s @ rest) = Some (COMMENT, length (replaceNewlines nl s))"
proof -
  have j: "js ''//'' = [0x2F, 0x2F]" "js ''/*'' = [0x2F, 0x2A]" by (simp_all add: js_def)
  have "matchComment (replaceNewlines nl s @ rest) = Some (length (replaceNewlines nl s))"
  proof (cases "startsWith s (js ''//'')")
    case True
    then obtain b where b: "s = 0x2F # 0x2F # b" unfolding j startsWith_2 by blast
    with c have "dotRun b = length b"
      by (simp add: isCommentText_def matchComment_def j startsWith_def)
    then have d: "list_all isDot b" by (rule dotRun_all)
    then have "0x0A \<notin> set s" unfolding b by (auto simp: list_all_iff isDot_def)
    then have "replaceNewlines nl s = s" by (rule replaceNewlines_id)
    then have n: "replaceNewlines nl (0x2F # 0x2F # b) = 0x2F # 0x2F # b" unfolding b .
    from dotRun_append [OF d r] show ?thesis
      unfolding b n by (simp add: matchComment_def j startsWith_def)
  next
    case False
    with c have k: "startsWith s (js ''/*'')"
      by (auto simp: isCommentText_def matchComment_def split: if_splits)
    then obtain b where b: "s = 0x2F # 0x2A # b" unfolding j startsWith_2 by blast
    from c False k have "map_option (\<lambda>n. 2 + n) (blockEnd (drop 2 s)) = Some (length s)"
      by (simp add: isCommentText_def matchComment_def)
    then have be: "blockEnd b = Some (length b)" unfolding b by auto
    have n: "replaceNewlines nl (0x2F # 0x2A # b) = 0x2F # 0x2A # replaceNewlines nl b"
      by (cases b) auto
    from blockEnd_append [OF blockEnd_replaceNewlines [OF nl be], of rest]
    show ?thesis
      unfolding b n by (simp add: matchComment_def j startsWith_def)
  qed
  then show ?thesis by (simp add: PATTERNS_def)
qed

lemma isCommentText_last: "isCommentText s \<Longrightarrow> s \<noteq> [] \<and> last s \<noteq> 0x0D"
proof -
  assume c: "isCommentText s"
  have j: "js ''//'' = [0x2F, 0x2F]" "js ''/*'' = [0x2F, 0x2A]" by (simp_all add: js_def)
  show ?thesis
  proof (cases "startsWith s (js ''//'')")
    case True
    then obtain b where b: "s = 0x2F # 0x2F # b" unfolding j startsWith_2 by blast
    with c have "dotRun b = length b"
      by (simp add: isCommentText_def matchComment_def j startsWith_def)
    then have d: "list_all isDot b" by (rule dotRun_all)
    then have "b \<noteq> [] \<Longrightarrow> last b \<noteq> 0x0D" by (auto simp: list_all_iff isDot_def)
    then show ?thesis unfolding b by auto
  next
    case False
    with c have k: "startsWith s (js ''/*'')"
      by (auto simp: isCommentText_def matchComment_def split: if_splits)
    then obtain b where b: "s = 0x2F # 0x2A # b" unfolding j startsWith_2 by blast
    from c False k have "map_option (\<lambda>n. 2 + n) (blockEnd (drop 2 s)) = Some (length s)"
      by (simp add: isCommentText_def matchComment_def)
    then have be: "blockEnd b = Some (length b)" unfolding b by auto
    have "blockEnd t = Some (length t) \<Longrightarrow> t \<noteq> [] \<and> last t = 0x2F" for t
    proof (induction t rule: blockEnd.induct)
      case (3 c d cs)
      then show ?case by (auto split: if_splits)
    qed simp_all
    from this [OF be] show ?thesis unfolding b by auto
  qed
qed


section \<open>The output as a sequence of tokens and gaps\<close>

text \<open>
  A tree whose comments are texts of comment tokens and whose pairs have no comment as
  value, as the parser builds them.
\<close>

fun wfNode :: "'n AstNode \<Rightarrow> bool" and wfChild :: "'n ObjChild \<Rightarrow> bool" where
  "wfNode (JsonComment ctext isBlock) = isCommentText ctext"
| "wfNode (JsonArray children) = (\<forall>c \<in> set children. wfNode c)"
| "wfNode (JsonObject children) = (\<forall>c \<in> set children. wfChild c)"
| "wfNode (JsonString v raw) = True"
| "wfNode (JsonNumber v raw) = True"
| "wfNode (JsonBoolean v raw) = True"
| "wfNode (JsonNull raw) = True"
| "wfChild (ObjComment ctext isBlock) = isCommentText ctext"
| "wfChild (ObjPair key v) = (\<not> isComment v \<and> wfNode v)"

text \<open>
  A piece of output is the text of a token or a gap of white space.  \<open>nodePieces\<close> cuts
  the text of \<open>formatNode\<close> into its pieces, following the same decisions.
\<close>

datatype piece = Tok TokenType jsstring | Gap jsstring

fun ptext :: "piece \<Rightarrow> jsstring" where
  "ptext (Tok ty s) = s"
| "ptext (Gap s) = s"

definition ptexts :: "piece list \<Rightarrow> jsstring" where
  "ptexts ps = concat (map ptext ps)"

lemma ptexts_simps [simp]:
  "ptexts [] = []" "ptexts (p # ps) = ptext p @ ptexts ps" "ptexts (ps @ qs) = ptexts ps @ ptexts qs"
  by (simp_all add: ptexts_def)

fun isScalar :: "'n AstNode \<Rightarrow> bool" where
  "isScalar (JsonString v raw) = True"
| "isScalar (JsonNumber v raw) = True"
| "isScalar (JsonBoolean v raw) = True"
| "isScalar (JsonNull raw) = True"
| "isScalar _ = False"

fun scalarPiece :: "'n NumberOps \<Rightarrow> 'n AstNode \<Rightarrow> piece" where
  "scalarPiece ops (JsonString v raw) = Tok STRING (JSON_stringify v)"
| "scalarPiece ops (JsonNumber v raw) =
     Tok (if numberToJSON ops v = js ''null'' then NULL else NUMBER) (numberToJSON ops v)"
| "scalarPiece ops (JsonBoolean v raw) = Tok BOOLEAN (if v then js ''true'' else js ''false'')"
| "scalarPiece ops (JsonNull raw) = Tok NULL (js ''null'')"
| "scalarPiece ops (JsonComment ctext isBlock) = Tok COMMENT ctext"
| "scalarPiece ops _ = Gap []"

fun joinPieces :: "piece list list \<Rightarrow> piece list" where
  "joinPieces [] = []"
| "joinPieces [x] = x"
| "joinPieces (x # y # ys) = x @ [Tok COMMA (js '',''), Gap (js '' '')] @ joinPieces (y # ys)"

fun nodePieces :: "'n NumberOps \<Rightarrow> MaaPipelineFormatter \<Rightarrow> 'n AstNode \<Rightarrow> nat \<Rightarrow> jsstring \<Rightarrow> piece list"
  and arrayPieces :: "'n NumberOps \<Rightarrow> MaaPipelineFormatter \<Rightarrow> nat \<Rightarrow> 'n AstNode list \<Rightarrow> piece list"
  and objectPieces :: "'n NumberOps \<Rightarrow> MaaPipelineFormatter \<Rightarrow> nat \<Rightarrow> 'n ObjChild list \<Rightarrow> piece list"
where
  "nodePieces ops this (JsonArray children) level key =
     (if shouldInlineArray ops this key children
      then [Tok LBRACKET (js ''['')] @ joinPieces (map (\<lambda>c. [scalarPiece ops c]) children)
             @ [Tok RBRACKET (js '']'')]
      else [Tok LBRACKET (js ''['')] @ arrayPieces ops this level children
             @ [Gap [0x0A], Gap (repeat (indentStr this) level), Tok RBRACKET (js '']'')])"
| "nodePieces ops this (JsonObject children) level key =
     (if shouldInlineObject ops this key children
      then [Tok LBRACE (js ''{'')]
             @ joinPieces (map (\<lambda>(k, v). [Tok STRING (JSON_stringify k), Tok COLON (js '':''),
                                            Gap (js '' ''), scalarPiece ops v]) (pairsOf children))
             @ [Tok RBRACE (js ''}'')]
      else [Tok LBRACE (js ''{'')] @ objectPieces ops this level children
             @ [Gap [0x0A], Gap (repeat (indentStr this) level), Tok RBRACE (js ''}'')])"
| "nodePieces ops this (JsonString v raw) level key = [scalarPiece ops (JsonString v raw)]"
| "nodePieces ops this (JsonNumber v raw) level key = [scalarPiece ops (JsonNumber v raw)]"
| "nodePieces ops this (JsonBoolean v raw) level key = [scalarPiece ops (JsonBoolean v raw)]"
| "nodePieces ops this (JsonNull raw) level key = [scalarPiece ops (JsonNull raw)]"
| "nodePieces ops this (JsonComment ctext isBlock) level key = [Tok COMMENT ctext]"
| "arrayPieces ops this level [] = []"
| "arrayPieces ops this level (child # rest) =
     [Gap [0x0A], Gap (repeat (indentStr this) (level + 1))]
       @ nodePieces ops this child (level + 1) []
       @ (if \<not> isComment child \<and> list_ex (\<lambda>c. \<not> isComment c) rest then [Tok COMMA (js '','')] else [])
       @ arrayPieces ops this level rest"
| "objectPieces ops this level [] = []"
| "objectPieces ops this level (ObjComment ctext isBlock # rest) =
     [Gap [0x0A], Gap (repeat (indentStr this) (level + 1)), Tok COMMENT ctext]
       @ objectPieces ops this level rest"
| "objectPieces ops this level (ObjPair key v # rest) =
     [Gap [0x0A], Gap (repeat (indentStr this) (level + 1)),
      Tok STRING (JSON_stringify key), Tok COLON (js '':''), Gap (js '' '')]
       @ nodePieces ops this v (level + 1) key
       @ (if list_ex (\<lambda>c. \<not> isObjComment c) rest then [Tok COMMA (js '','')] else [])
       @ objectPieces ops this level rest"

lemma joinPieces_text:
  "ptexts (joinPieces pss) = join (js '', '') (map ptexts pss)"
  by (induction pss rule: joinPieces.induct) (simp_all add: js_def)

lemma scalar_text:
  "isScalar c \<Longrightarrow> formatNode ops this c level key mode = ptext (scalarPiece ops c)"
  by (cases c) (simp_all add: formatNode.simps)

lemma join_lines:
  "join [0x0A] ([a] @ ls @ [z]) = a @ concat (map ((#) 0x0A) ls) @ [0x0A] @ z"
proof (induction ls arbitrary: a)
  case Nil
  show ?case by simp
next
  case (Cons l ls)
  from Cons [of l] show ?case by simp
qed


lemma arrayLines_pieces:
  assumes "all = pre @ rest" and "i = length pre"
    and "\<And>c level key. c \<in> set rest \<Longrightarrow>
           formatNode ops this c level key False = ptexts (nodePieces ops this c level key)"
  shows "concat (map ((#) 0x0A)
           (arrayLines ops this level (lastValueIdx isComment all) (length all) i rest))
         = ptexts (arrayPieces ops this level rest)"
  using assms
proof (induction rest arbitrary: pre i)
  case Nil
  show ?case by simp
next
  case (Cons c rest)
  have i: "i < length all" "all ! i = c" "drop (Suc i) all = rest"
    using Cons.prems(1,2) by simp_all
  have comma: "\<not> isComment c \<Longrightarrow>
      (int i \<noteq> lastValueIdx isComment all) = list_ex (\<lambda>c. \<not> isComment c) rest"
    using lastValueIdx_later [of i all isComment] i by simp
  have ih: "concat (map ((#) 0x0A)
           (arrayLines ops this level (lastValueIdx isComment all) (length all) (Suc i) rest))
         = ptexts (arrayPieces ops this level rest)"
  proof (rule Cons.IH [of "pre @ [c]" "Suc i"])
    show "all = (pre @ [c]) @ rest" using Cons.prems(1) by simp
    show "Suc i = length (pre @ [c])" using Cons.prems(2) by simp
    fix c' level key assume "c' \<in> set rest"
    then show "formatNode ops this c' level key False = ptexts (nodePieces ops this c' level key)"
      using Cons.prems(3) [of c'] by simp
  qed
  have c: "formatNode ops this c (Suc level) [] False = ptexts (nodePieces ops this c (Suc level) [])"
    using Cons.prems(3) [of c] by simp
  show ?case
    using ih c comma i(1) by (simp add: Let_def js_def)
qed

lemma objectLines_pieces:
  assumes "all = pre @ rest" and "i = length pre"
    and "\<And>k v level key. ObjPair k v \<in> set rest \<Longrightarrow>
           formatNode ops this v level key False = ptexts (nodePieces ops this v level key)"
  shows "concat (map ((#) 0x0A)
           (objectLines ops this level (lastValueIdx isObjComment all) (length all) i rest))
         = ptexts (objectPieces ops this level rest)"
  using assms
proof (induction rest arbitrary: pre i)
  case Nil
  show ?case by simp
next
  case (Cons c rest)
  have i: "i < length all" "all ! i = c" "drop (Suc i) all = rest"
    using Cons.prems(1,2) by simp_all
  have comma: "\<not> isObjComment c \<Longrightarrow>
      (int i \<noteq> lastValueIdx isObjComment all) = list_ex (\<lambda>c. \<not> isObjComment c) rest"
    using lastValueIdx_later [of i all isObjComment] i by simp
  have ih: "concat (map ((#) 0x0A)
           (objectLines ops this level (lastValueIdx isObjComment all) (length all) (Suc i) rest))
         = ptexts (objectPieces ops this level rest)"
  proof (rule Cons.IH [of "pre @ [c]" "Suc i"])
    show "all = (pre @ [c]) @ rest" using Cons.prems(1) by simp
    show "Suc i = length (pre @ [c])" using Cons.prems(2) by simp
    fix k v level key assume "ObjPair k v \<in> set rest"
    then show "formatNode ops this v level key False = ptexts (nodePieces ops this v level key)"
      using Cons.prems(3) [of k v] by simp
  qed
  show ?case
  proof (cases c)
    case (ObjComment ctext isBlock)
    with ih show ?thesis by simp
  next
    case (ObjPair k v)
    have "formatNode ops this v (Suc level) k False = ptexts (nodePieces ops this v (Suc level) k)"
      using Cons.prems(3) [of k v] ObjPair by simp
    with ih ObjPair comma i(1) show ?thesis by (simp add: js_def)
  qed
qed

lemma formatNode_pieces_all:
  "wfNode node \<longrightarrow>
     (\<forall>level key. formatNode ops this node level key False = ptexts (nodePieces ops this node level key))"
proof (induct node rule: AstNode.induct [where ?P2.0 = "\<lambda>child. \<forall>k v. child = ObjPair k v \<longrightarrow>
    (wfNode v \<longrightarrow> (\<forall>level key. formatNode ops this v level key False
                       = ptexts (nodePieces ops this v level key)))"])
  case (JsonArray cs)
  show ?case
  proof (intro impI allI)
    fix level key
    assume wf: "wfNode (JsonArray cs)"
    have el: "\<And>c level key. c \<in> set cs \<Longrightarrow>
        formatNode ops this c level key False = ptexts (nodePieces ops this c level key)"
      using JsonArray wf by simp
    show "formatNode ops this (JsonArray cs) level key False
            = ptexts (nodePieces ops this (JsonArray cs) level key)"
    proof (cases "shouldInlineArray ops this key cs")
      case True
      then have sc: "\<And>c. c \<in> set cs \<Longrightarrow> isScalar c"
      proof -
        fix c assume c: "c \<in> set cs"
        with True have "\<not> (isComment c \<or> isObject c \<or> isArray c)"
          by (auto simp: shouldInlineArray.simps list_ex_iff split: if_splits)
        then show "isScalar c" by (cases c) auto
      qed
      have m: "map (\<lambda>c. formatNode ops this c 0 [] True) cs = map (\<lambda>c. ptext (scalarPiece ops c)) cs"
        by (rule map_cong [OF refl]) (simp add: scalar_text sc)
      from True show ?thesis
        by (simp add: m formatNode.simps formatInlineArray.simps inlineArrayParts_map
            joinPieces_text comp_def js_def)
    next
      case False
      have "formatNode ops this (JsonArray cs) level key False = expandedArray ops this level cs"
        using False by (simp add: formatNode_array)
      also have "\<dots> = js ''['' @ concat (map ((#) 0x0A)
           (arrayLines ops this level (lastValueIdx isComment cs) (length cs) 0 cs))
           @ [0x0A] @ repeat (indentStr this) level @ js '']''"
        using join_lines [of "js ''[''" _ "repeat (indentStr this) level @ js '']''"]
        by (simp add: expandedArray_def)
      also have "\<dots> = ptexts (nodePieces ops this (JsonArray cs) level key)"
        using arrayLines_pieces [of cs "[]" cs 0 ops this level] el False by simp
      finally show ?thesis .
    qed
  qed
next
  case (JsonObject cs)
  show ?case
  proof (intro impI allI)
    fix level key
    assume wf: "wfNode (JsonObject cs)"
    have el: "\<And>k v level key. ObjPair k v \<in> set cs \<Longrightarrow>
        formatNode ops this v level key False = ptexts (nodePieces ops this v level key)"
    proof -
      fix k v level key assume m: "ObjPair k v \<in> set cs"
      with wf have "wfNode v" by auto
      with JsonObject [OF m] show "formatNode ops this v level key False
          = ptexts (nodePieces ops this v level key)" by blast
    qed
    show "formatNode ops this (JsonObject cs) level key False
            = ptexts (nodePieces ops this (JsonObject cs) level key)"
    proof (cases "shouldInlineObject ops this key cs")
      case True
      have sc: "\<And>k v. (k, v) \<in> set (pairsOf cs) \<Longrightarrow> isScalar v"
      proof -
        fix k v assume "(k, v) \<in> set (pairsOf cs)"
        then have m: "ObjPair k v \<in> set cs" by (simp add: pairsOf_set)
        with wf have nc: "\<not> isComment v" by auto
        from m True have "\<not> hasContainerValue cs"
          by (auto simp: shouldInlineObject.simps split: if_splits)
        with m have "\<not> (isObject v \<or> isArray v)"
          by (auto simp: hasContainerValue_iff list_ex_iff)
        with nc show "isScalar v" by (cases v) auto
      qed
      have sc': "\<And>p. p \<in> set (pairsOf cs) \<Longrightarrow> isScalar (snd p)"
        using sc by (metis prod.collapse)
      from True show ?thesis
        apply (simp add: formatNode.simps formatInlineObject.simps inlineObjectParts_map
            joinPieces_text comp_def js_def case_prod_unfold)
        apply (rule arg_cong [where f = "join [44, 32]"])
        apply (rule map_cong [OF refl])
        apply (simp add: scalar_text sc')
        done
    next
      case False
      have "formatNode ops this (JsonObject cs) level key False = expandedObject ops this level cs"
        using False by (simp add: formatNode_object)
      also have "\<dots> = js ''{'' @ concat (map ((#) 0x0A)
           (objectLines ops this level (lastValueIdx isObjComment cs) (length cs) 0 cs))
           @ [0x0A] @ repeat (indentStr this) level @ js ''}''"
        using join_lines [of "js ''{''" _ "repeat (indentStr this) level @ js ''}''"]
        by (simp add: expandedObject_def)
      also have "\<dots> = ptexts (nodePieces ops this (JsonObject cs) level key)"
        using objectLines_pieces [of cs "[]" cs 0 ops this level] el False by simp
      finally show ?thesis .
    qed
  qed
qed (simp_all add: formatNode.simps)

lemma formatNode_pieces:
  "wfNode node \<Longrightarrow>
     formatNode ops this node level key False = ptexts (nodePieces ops this node level key)"
  using formatNode_pieces_all by blast


section \<open>Reading the pieces\<close>

text \<open>A text without a line feed or a carriage return.\<close>

definition plain :: "jsstring \<Rightarrow> bool" where
  "plain s = list_all (\<lambda>c. c \<noteq> 0x0A \<and> c \<noteq> 0x0D) s"

lemma plain_simps [simp]:
  "plain []"
  "plain (c # s) \<longleftrightarrow> c \<noteq> 0x0A \<and> c \<noteq> 0x0D \<and> plain s"
  "plain (a @ b) \<longleftrightarrow> plain a \<and> plain b"
  by (auto simp: plain_def)

lemma plain_id: "plain s \<Longrightarrow> replaceNewlines nl s = s"
  by (rule replaceNewlines_id) (auto simp: plain_def list_all_iff)

lemma plain_last: "plain s \<Longrightarrow> s = [] \<or> last s \<noteq> 0x0D"
  by (cases s rule: rev_cases) (auto simp: plain_def)

lemma hexDigit_nl: "unat n < 16 \<Longrightarrow> hexDigit n \<noteq> 0x0A \<and> hexDigit n \<noteq> 0x0D"
proof -
  assume n: "unat n < 16"
  have "unat (hexDigit n) \<noteq> 10 \<and> unat (hexDigit n) \<noteq> 13"
    using n by (simp add: hexDigit_unat)
  then show ?thesis by auto
qed

lemma plain_unicodeEscape: "plain (unicodeEscape c)"
  using hexDigit_nl [OF top_nibble_lt [of c]] hexDigit_nl [OF nibble_lt [of "drop_bit 8 c"]]
    hexDigit_nl [OF nibble_lt [of "drop_bit 4 c"]] hexDigit_nl [OF nibble_lt [of c]]
  by (simp add: unicodeEscape_def)

lemma plain_quoteChars: "plain (quoteChars v)"
proof (induction "length v" arbitrary: v rule: less_induct)
  case less
  show ?case
  proof (cases v)
    case Nil
    then show ?thesis by simp
  next
    case (Cons c cs)
    have cs: "plain (quoteChars cs)" using less [of cs] Cons by simp
    have u: "plain (unicodeEscape c)" by (rule plain_unicodeEscape)
    show ?thesis
    proof (cases "isHighSurrogate c \<and> cs \<noteq> [] \<and> isLowSurrogate (hd cs)")
      case True
      then obtain d ds where d: "cs = d # ds" by (cases cs) auto
      have ds: "plain (quoteChars ds)" using less [of ds] Cons d by simp
      have "c \<noteq> 0x0A \<and> c \<noteq> 0x0D \<and> d \<noteq> 0x0A \<and> d \<noteq> 0x0D"
        using True d by (auto simp: isHighSurrogate_def isLowSurrogate_def)
      with True d ds cs u show ?thesis unfolding Cons
        by (simp add: isHighSurrogate_def)
    next
      case False
      with cs u show ?thesis unfolding Cons
        by (cases cs) simp_all
    qed
  qed
qed

lemma plain_stringify: "plain (JSON_stringify v)"
  by (simp add: JSON_stringify_def plain_quoteChars)

lemma plain_digits: "list_all isDigit ds \<Longrightarrow> plain ds"
  by (induction ds) (auto simp: isDigit_unat)

lemma plain_number: "isJsonNumber t \<Longrightarrow> plain t"
proof -
  assume "isJsonNumber t"
  then obtain m i f e where t: "t = m @ i @ f @ e" and m: "m = [] \<or> m = [0x2D]"
    and i: "isJsonInt i" and f: "f = [] \<or> isJsonFrac f" and e: "e = [] \<or> isJsonExp e"
    unfolding isJsonNumber_def by blast
  from m have pm: "plain m" by auto
  from i have pi: "plain i"
    unfolding isJsonInt_def by (auto simp: plain_digits)
  from f have pf: "plain f"
    unfolding isJsonFrac_def by (auto simp: plain_digits)
  from e have pe: "plain e"
    unfolding isJsonExp_def by (auto simp: plain_digits)
  from pm pi pf pe show ?thesis unfolding t by simp
qed

text \<open>
  The pieces as \<open>format\<close> writes them, each with its line terminators replaced, and the
  tokens among them.
\<close>

definition ntexts :: "jsstring \<Rightarrow> piece list \<Rightarrow> jsstring" where
  "ntexts nl ps = concat (map (\<lambda>p. replaceNewlines nl (ptext p)) ps)"

lemma ntexts_simps [simp]:
  "ntexts nl [] = []"
  "ntexts nl (p # ps) = replaceNewlines nl (ptext p) @ ntexts nl ps"
  "ntexts nl (ps @ qs) = ntexts nl ps @ ntexts nl qs"
  by (simp_all add: ntexts_def)

fun ptoks :: "jsstring \<Rightarrow> piece list \<Rightarrow> (TokenType \<times> jsstring) list" where
  "ptoks nl [] = []"
| "ptoks nl (Tok ty t # ps) = (ty, replaceNewlines nl t) # ptoks nl ps"
| "ptoks nl (Gap g # ps) = ptoks nl ps"


text \<open>
  \<open>scanOK nl ps rest\<close>: in the text of \<open>ps\<close> followed by \<open>rest\<close>, the lexer reads each token
  of \<open>ps\<close> as one token of its type and skips each gap; no piece ends with a carriage
  return, which the replacement of line terminators would join with a line feed after it.
\<close>

fun scanOK :: "jsstring \<Rightarrow> piece list \<Rightarrow> jsstring \<Rightarrow> bool" where
  "scanOK nl [] rest = True"
| "scanOK nl (Gap g # ps) rest = (list_all isSpace g \<and> (g = [] \<or> last g \<noteq> 0x0D) \<and> scanOK nl ps rest)"
| "scanOK nl (Tok ty t # ps) rest =
     (ty \<noteq> WHITESPACE \<and> (t = [] \<or> last t \<noteq> 0x0D)
      \<and> firstMatch PATTERNS (replaceNewlines nl t @ ntexts nl ps @ rest)
          = Some (ty, length (replaceNewlines nl t))
      \<and> scanOK nl ps rest)"

lemma scanOK_append:
  "scanOK nl (ps @ qs) rest \<longleftrightarrow> scanOK nl ps (ntexts nl qs @ rest) \<and> scanOK nl qs rest"
  by (induction nl ps rest rule: scanOK.induct) auto

lemma scanOK_text: "scanOK nl ps rest \<Longrightarrow> replaceNewlines nl (ptexts ps) = ntexts nl ps"
  by (induction nl ps rest rule: scanOK.induct) (simp_all add: replaceNewlines_append)

lemma replaceNewlines_space:
  "isNewline nl \<Longrightarrow> list_all isSpace g \<Longrightarrow> list_all isSpace (replaceNewlines nl g)"
proof -
  have s: "isSpace 0x0A" "isSpace 0x0D" by (simp_all add: isSpace_def)
  have "list_all isSpace nl \<Longrightarrow> list_all isSpace g \<Longrightarrow> list_all isSpace (replaceNewlines nl g)"
    by (induction nl g rule: replaceNewlines.induct) auto
  moreover assume "isNewline nl" and "list_all isSpace g"
  ultimately show ?thesis using s by (auto simp: isNewline_def)
qed

lemma scanOK_scan:
  "isNewline nl \<Longrightarrow> scanOK nl ps rest \<Longrightarrow>
     scan (ntexts nl ps @ rest) = map_option ((@) (ptoks nl ps)) (scan rest)"
proof (induction nl ps rest rule: scanOK.induct)
  case (1 nl rest)
  show ?case by (simp add: option.map_ident)
next
  case (2 nl g ps rest)
  then show ?case by (simp add: scan_space replaceNewlines_space)
next
  case (3 nl ty t ps rest)
  from "3.prems" have
    "scan (replaceNewlines nl t @ ntexts nl ps @ rest)
       = map_option ((#) (ty, replaceNewlines nl t)) (scan (ntexts nl ps @ rest))"
    by (intro scan_token) simp_all
  with 3 show ?case by (simp add: option.map_comp comp_def)
qed


text \<open>
  What may follow a value in the output: nothing, a comma, a closing bracket or the end of
  the line; and what follows a comment: nothing or the end of the line.
\<close>

definition delimited :: "jsstring \<Rightarrow> bool" where
  "delimited r \<longleftrightarrow> r = [] \<or> hd r = 0x2C \<or> hd r = 0x5D \<or> hd r = 0x7D \<or> hd r = 0x0A \<or> hd r = 0x0D"

definition lineEnd :: "jsstring \<Rightarrow> bool" where
  "lineEnd r \<longleftrightarrow> r = [] \<or> hd r = 0x0A \<or> hd r = 0x0D"

definition blank :: "jsstring \<Rightarrow> bool" where
  "blank s = list_all (\<lambda>c. c = 0x20 \<or> c = 0x09) s"

lemma lineEnd_delimited: "lineEnd r \<Longrightarrow> delimited r"
  by (auto simp: lineEnd_def delimited_def)

lemma delimited_endsNumber: "delimited r \<Longrightarrow> endsNumber r"
  by (cases r) (auto simp: delimited_def endsNumber_def isDigit_unat)

lemma lineEnd_notDot: "lineEnd r \<Longrightarrow> r = [] \<or> \<not> isDot (hd r)"
  by (auto simp: lineEnd_def isDot_def)

lemma delimited_Cons [simp]:
  "delimited (0x2C # r)" "delimited (0x5D # r)" "delimited (0x7D # r)"
  by (simp_all add: delimited_def)

lemma lineEnd_newline: "isNewline nl \<Longrightarrow> lineEnd (replaceNewlines nl [0x0A] @ r)"
  by (auto simp: isNewline_def lineEnd_def)

lemma blank_repeat: "blank s \<Longrightarrow> blank (repeat s n)"
  by (induction n) (simp_all add: blank_def)

lemma blank_space: "blank s \<Longrightarrow> list_all isSpace s"
  by (induction s) (auto simp: blank_def isSpace_def)

lemma blank_plain: "blank s \<Longrightarrow> plain s"
  by (induction s) (auto simp: blank_def)

lemma blank_newFormatter: "blank (indentStr (newFormatter cfg))"
proof -
  have "blank (repeat [0x09] n)" "blank (repeat [0x20] n)" for n
    by (rule blank_repeat, simp add: blank_def)+
  then show ?thesis by (simp add: newFormatter_def)
qed

lemma scanOK_plainTok:
  assumes "plain t" and "ty \<noteq> WHITESPACE"
    and "firstMatch PATTERNS (t @ ntexts nl ps @ rest) = Some (ty, length t)"
    and "scanOK nl ps rest"
  shows "scanOK nl (Tok ty t # ps) rest"
  using assms plain_last [of t] by (simp add: plain_id)

lemma scanOK_blankGap: "blank g \<Longrightarrow> scanOK nl ps rest \<Longrightarrow> scanOK nl (Gap g # ps) rest"
  using plain_last [of g] by (simp add: blank_space blank_plain)

lemma scanOK_sp: "scanOK nl ps rest \<Longrightarrow> scanOK nl (Gap (js '' '') # ps) rest"
  by (rule scanOK_blankGap) (simp_all add: blank_def js_def)

lemma scanOK_lineGap: "scanOK nl ps rest \<Longrightarrow> scanOK nl (Gap [0x0A] # ps) rest"
  by (simp add: isSpace_def)

lemma scanOK_comment:
  assumes "isNewline nl" and "isCommentText t" and "lineEnd (ntexts nl ps @ rest)"
    and "scanOK nl ps rest"
  shows "scanOK nl (Tok COMMENT t # ps) rest"
  using assms isCommentText_last [of t] firstMatch_comment [of nl t "ntexts nl ps @ rest"]
    lineEnd_notDot [of "ntexts nl ps @ rest"]
  by simp

lemma scanOK_punct:
  assumes "scanOK nl ps rest"
  shows "scanOK nl (Tok LBRACE (js ''{'') # ps) rest"
    and "scanOK nl (Tok RBRACE (js ''}'') # ps) rest"
    and "scanOK nl (Tok LBRACKET (js ''['') # ps) rest"
    and "scanOK nl (Tok RBRACKET (js '']'') # ps) rest"
    and "scanOK nl (Tok COLON (js '':'') # ps) rest"
    and "scanOK nl (Tok COMMA (js '','') # ps) rest"
  using assms by (simp_all add: js_def firstMatch_punct)

lemma scanOK_string:
  "scanOK nl ps rest \<Longrightarrow> scanOK nl (Tok STRING (JSON_stringify v) # ps) rest"
  by (rule scanOK_plainTok) (simp_all add: plain_stringify firstMatch_string)

lemma scanOK_literal:
  assumes "scanOK nl ps rest"
  shows "scanOK nl (Tok BOOLEAN (js ''true'') # ps) rest"
    and "scanOK nl (Tok BOOLEAN (js ''false'') # ps) rest"
    and "scanOK nl (Tok NULL (js ''null'') # ps) rest"
proof -
  have l: "length (js ''true'') = 4" "length (js ''false'') = 5" "length (js ''null'') = 4"
    and p: "plain (js ''true'')" "plain (js ''false'')" "plain (js ''null'')"
    by (simp_all add: js_def)
  show "scanOK nl (Tok BOOLEAN (js ''true'') # ps) rest"
    by (rule scanOK_plainTok) (simp_all add: l p firstMatch_literal assms)
  show "scanOK nl (Tok BOOLEAN (js ''false'') # ps) rest"
    by (rule scanOK_plainTok) (simp_all add: l p firstMatch_literal assms)
  show "scanOK nl (Tok NULL (js ''null'') # ps) rest"
    by (rule scanOK_plainTok) (simp_all add: l p firstMatch_literal assms)
qed

lemma scalarOK:
  assumes "jsonNumbers ops" and "isScalar c" and "delimited rest"
  shows "scanOK nl [scalarPiece ops c] rest"
proof (cases c)
  case (JsonString v raw)
  with scanOK_string [of nl "[]" rest v] show ?thesis by simp
next
  case (JsonNumber v raw)
  show ?thesis
  proof (cases "numberToJSON ops v = js ''null''")
    case True
    have "scanOK nl [Tok NULL (js ''null'')] rest"
    by (rule scanOK_literal) simp
    with True JsonNumber show ?thesis by simp
  next
    case False
    with assms(1) have n: "isJsonNumber (numberToJSON ops v)" by (auto simp: jsonNumbers_def)
    have "scanOK nl [Tok NUMBER (numberToJSON ops v)] rest"
      by (rule scanOK_plainTok)
        (simp_all add: plain_number [OF n] firstMatch_number [OF n] delimited_endsNumber assms(3))
    with False JsonNumber show ?thesis by simp
  qed
next
  case (JsonBoolean v raw)
  have "scanOK nl [Tok BOOLEAN (js ''true'')] rest"
    by (rule scanOK_literal) simp
  moreover have "scanOK nl [Tok BOOLEAN (js ''false'')] rest"
    by (rule scanOK_literal) simp
  ultimately show ?thesis using JsonBoolean by simp
next
  case (JsonNull raw)
  have "scanOK nl [Tok NULL (js ''null'')] rest"
    by (rule scanOK_literal) simp
  with JsonNull show ?thesis by simp
qed (use assms(2) in simp_all)

lemma joinedOK:
  assumes "\<And>x r. x \<in> set xs \<Longrightarrow> delimited r \<Longrightarrow> scanOK nl (f x) r" and "delimited rest"
  shows "scanOK nl (joinPieces (map f xs)) rest"
  using assms
proof (induction xs)
  case Nil
  show ?case by simp
next
  case (Cons x xs)
  show ?case
  proof (cases xs)
    case Nil
    with Cons.prems show ?thesis by simp
  next
    case (Cons y ys)
    have t: "scanOK nl (joinPieces (map f xs)) rest"
      using Cons.IH Cons.prems by simp
    have "scanOK nl ([Tok COMMA (js '',''), Gap (js '' '')] @ joinPieces (map f xs)) rest"
      using t by (simp add: scanOK_punct js_def firstMatch_punct isSpace_def)
    moreover have "scanOK nl (f x)
        (ntexts nl ([Tok COMMA (js '',''), Gap (js '' '')] @ joinPieces (map f xs)) @ rest)"
      using Cons.prems(1) [of x] by (simp add: js_def)
    ultimately show ?thesis
      using Cons scanOK_append [of nl "f x" _ rest] by simp
  qed
qed


lemma ntexts_punct [simp]:
  "replaceNewlines nl (js '','') = [0x2C]" "replaceNewlines nl (js '']'') = [0x5D]"
  "replaceNewlines nl (js ''}'') = [0x7D]"
  by (simp_all add: js_def)

lemma arrayPiecesOK:
  assumes nl: "isNewline nl" and b: "blank (indentStr this)"
    and el: "\<And>c level key r. c \<in> set cs \<Longrightarrow> delimited r \<Longrightarrow> (isComment c \<longrightarrow> lineEnd r) \<Longrightarrow>
               scanOK nl (nodePieces ops this c level key) r"
    and r: "lineEnd rest"
  shows "scanOK nl (arrayPieces ops this level cs) rest
         \<and> lineEnd (ntexts nl (arrayPieces ops this level cs) @ rest)"
  using el
proof (induction cs)
  case Nil
  from r show ?case by simp
next
  case (Cons c cs)
  define A where "A = arrayPieces ops this level cs"
  define comma where "comma = (if \<not> isComment c \<and> list_ex (\<lambda>c. \<not> isComment c) cs
                               then [Tok COMMA (js '','')] else [])"
  have ih: "scanOK nl A rest" "lineEnd (ntexts nl A @ rest)"
    using Cons.IH Cons.prems unfolding A_def by simp_all
  have ca: "scanOK nl (comma @ A) rest"
    using ih(1) scanOK_punct(6) [of nl A rest] by (simp add: comma_def)
  have f: "delimited (ntexts nl (comma @ A) @ rest)"
    "isComment c \<longrightarrow> lineEnd (ntexts nl (comma @ A) @ rest)"
    using ih(2) by (auto simp: comma_def lineEnd_delimited)
  have n: "scanOK nl (nodePieces ops this c (level + 1) []) (ntexts nl (comma @ A) @ rest)"
    using Cons.prems [of c] f by simp
  have "scanOK nl (nodePieces ops this c (level + 1) [] @ comma @ A) rest"
    using n ca by (simp only: scanOK_append)
  then have "scanOK nl (Gap [0x0A] # Gap (repeat (indentStr this) (level + 1))
                 # nodePieces ops this c (level + 1) [] @ comma @ A) rest"
    by (intro scanOK_lineGap scanOK_blankGap blank_repeat b)
  moreover have "lineEnd (ntexts nl (Gap [0x0A] # Gap (repeat (indentStr this) (level + 1))
                 # nodePieces ops this c (level + 1) [] @ comma @ A) @ rest)"
    using lineEnd_newline [OF nl] by simp
  ultimately show ?case by (simp add: A_def comma_def)
qed

lemma objectPiecesOK:
  assumes nl: "isNewline nl" and b: "blank (indentStr this)"
    and el: "\<And>k v level key r. ObjPair k v \<in> set cs \<Longrightarrow> delimited r \<Longrightarrow>
               scanOK nl (nodePieces ops this v level key) r"
    and co: "\<And>t bl. ObjComment t bl \<in> set cs \<Longrightarrow> isCommentText t"
    and r: "lineEnd rest"
  shows "scanOK nl (objectPieces ops this level cs) rest
         \<and> lineEnd (ntexts nl (objectPieces ops this level cs) @ rest)"
  using el co
proof (induction cs)
  case Nil
  from r show ?case by simp
next
  case (Cons c cs)
  define A where "A = objectPieces ops this level cs"
  have "scanOK nl A rest \<and> lineEnd (ntexts nl A @ rest)"
    unfolding A_def
  proof (rule Cons.IH)
    fix k v level key r assume "ObjPair k v \<in> set cs" and "delimited r"
    then show "scanOK nl (nodePieces ops this v level key) r"
      using Cons.prems(1) [of k v r level key] by simp
  next
    fix t bl assume "ObjComment t bl \<in> set cs"
    then show "isCommentText t" using Cons.prems(2) [of t bl] by simp
  qed
  then have ih: "scanOK nl A rest" "lineEnd (ntexts nl A @ rest)" by simp_all
  show ?case
  proof (cases c)
    case (ObjComment t bl)
    then have t: "isCommentText t" using Cons.prems(2) [of t bl] by simp
    have "scanOK nl (Tok COMMENT t # A) rest"
      using nl t ih(2) ih(1) by (rule scanOK_comment)
    then have "scanOK nl (Gap [0x0A] # Gap (repeat (indentStr this) (level + 1))
                 # Tok COMMENT t # A) rest"
      by (intro scanOK_lineGap scanOK_blankGap blank_repeat b)
    moreover have "lineEnd (ntexts nl (Gap [0x0A] # Gap (repeat (indentStr this) (level + 1))
                 # Tok COMMENT t # A) @ rest)"
      using lineEnd_newline [OF nl] by simp
    ultimately show ?thesis by (simp add: A_def ObjComment)
  next
    case (ObjPair k v)
    define comma where "comma = (if list_ex (\<lambda>c. \<not> isObjComment c) cs
                                 then [Tok COMMA (js '','')] else [])"
    have ca: "scanOK nl (comma @ A) rest"
      using ih(1) scanOK_punct(6) [of nl A rest] by (simp add: comma_def)
    have f: "delimited (ntexts nl (comma @ A) @ rest)"
      using ih(2) by (auto simp: comma_def lineEnd_delimited)
    have n: "scanOK nl (nodePieces ops this v (level + 1) k) (ntexts nl (comma @ A) @ rest)"
      using Cons.prems(1) [of k v] f ObjPair by simp
    have "scanOK nl (nodePieces ops this v (level + 1) k @ comma @ A) rest"
      using n ca by (simp only: scanOK_append)
    then have "scanOK nl (Gap (js '' '') # nodePieces ops this v (level + 1) k @ comma @ A) rest"
      by (rule scanOK_sp)
    then have "scanOK nl (Tok STRING (JSON_stringify k) # Tok COLON (js '':'')
                 # Gap (js '' '') # nodePieces ops this v (level + 1) k @ comma @ A) rest"
      by (intro scanOK_string scanOK_punct(5))
    then have "scanOK nl (Gap [0x0A] # Gap (repeat (indentStr this) (level + 1))
                 # Tok STRING (JSON_stringify k) # Tok COLON (js '':'')
                 # Gap (js '' '') # nodePieces ops this v (level + 1) k @ comma @ A) rest"
      by (intro scanOK_lineGap scanOK_blankGap [OF blank_repeat [OF b]])
    moreover have "lineEnd (ntexts nl (Gap [0x0A] # Gap (repeat (indentStr this) (level + 1))
                 # Tok STRING (JSON_stringify k) # Tok COLON (js '':'')
                 # Gap (js '' '') # nodePieces ops this v (level + 1) k @ comma @ A) @ rest)"
      using lineEnd_newline [OF nl] by simp
    ultimately show ?thesis by (simp add: A_def comma_def ObjPair)
  qed
qed

text \<open>The closing line of an expanded container.\<close>

lemma closingOK:
  assumes nl: "isNewline nl" and b: "blank (indentStr this)"
  shows "scanOK nl [Gap [0x0A], Gap (repeat (indentStr this) level), Tok RBRACKET (js '']'')] rest"
    and "scanOK nl [Gap [0x0A], Gap (repeat (indentStr this) level), Tok RBRACE (js ''}'')] rest"
    and "lineEnd (ntexts nl [Gap [0x0A], Gap (repeat (indentStr this) level), Tok RBRACKET (js '']'')] @ rest)"
    and "lineEnd (ntexts nl [Gap [0x0A], Gap (repeat (indentStr this) level), Tok RBRACE (js ''}'')] @ rest)"
proof -
  show "scanOK nl [Gap [0x0A], Gap (repeat (indentStr this) level), Tok RBRACKET (js '']'')] rest"
    by (intro scanOK_lineGap scanOK_blankGap blank_repeat b scanOK_punct(4)) simp
  show "scanOK nl [Gap [0x0A], Gap (repeat (indentStr this) level), Tok RBRACE (js ''}'')] rest"
    by (intro scanOK_lineGap scanOK_blankGap blank_repeat b scanOK_punct(2)) simp
  show "lineEnd (ntexts nl [Gap [0x0A], Gap (repeat (indentStr this) level), Tok RBRACKET (js '']'')] @ rest)"
    using lineEnd_newline [OF nl] by simp
  show "lineEnd (ntexts nl [Gap [0x0A], Gap (repeat (indentStr this) level), Tok RBRACE (js ''}'')] @ rest)"
    using lineEnd_newline [OF nl] by simp
qed

lemma nodePiecesOK_all:
  assumes nl: "isNewline nl" and b: "blank (indentStr this)" and j: "jsonNumbers ops"
  shows "wfNode node \<longrightarrow>
     (\<forall>level key rest. delimited rest \<longrightarrow> (isComment node \<longrightarrow> lineEnd rest) \<longrightarrow>
        scanOK nl (nodePieces ops this node level key) rest)"
proof (induct node rule: AstNode.induct [where ?P2.0 = "\<lambda>child. \<forall>k v. child = ObjPair k v \<longrightarrow>
    (wfNode v \<longrightarrow> (\<forall>level key rest. delimited rest \<longrightarrow> (isComment v \<longrightarrow> lineEnd rest) \<longrightarrow>
        scanOK nl (nodePieces ops this v level key) rest))"])
  case (JsonString v raw)
  show ?case using scalarOK [OF j, of "JsonString v raw" _ nl] by simp
next
  case (JsonNumber v raw)
  show ?case using scalarOK [OF j, of "JsonNumber v raw" _ nl] by simp
next
  case (JsonBoolean v raw)
  show ?case using scalarOK [OF j, of "JsonBoolean v raw" _ nl] by simp
next
  case (JsonNull raw)
  show ?case using scalarOK [OF j, of "JsonNull raw" _ nl] by simp
next
  case (JsonComment t bl)
  show ?case
  proof (intro impI allI)
    fix level key rest
    assume "wfNode (JsonComment t bl)" and "isComment (JsonComment t bl) \<longrightarrow> lineEnd rest"
    then have "isCommentText t" "lineEnd (ntexts nl [] @ rest)" by simp_all
    with nl have "scanOK nl (Tok COMMENT t # []) rest"
      by (intro scanOK_comment) simp_all
    then show "scanOK nl (nodePieces ops this (JsonComment t bl) level key) rest" by simp
  qed
next
  case (JsonArray cs)
  show ?case
  proof (intro impI allI)
    fix level key rest
    assume wf: "wfNode (JsonArray cs)" and d: "delimited rest"
    have el: "\<And>c level key r. c \<in> set cs \<Longrightarrow> delimited r \<Longrightarrow> (isComment c \<longrightarrow> lineEnd r) \<Longrightarrow>
               scanOK nl (nodePieces ops this c level key) r"
      using JsonArray wf by simp
    show "scanOK nl (nodePieces ops this (JsonArray cs) level key) rest"
    proof (cases "shouldInlineArray ops this key cs")
      case True
      have sc: "\<And>c. c \<in> set cs \<Longrightarrow> isScalar c"
      proof -
        fix c assume c: "c \<in> set cs"
        with True have "\<not> (isComment c \<or> isObject c \<or> isArray c)"
          by (auto simp: shouldInlineArray.simps list_ex_iff split: if_splits)
        then show "isScalar c" by (cases c) auto
      qed
      have "scanOK nl (joinPieces (map (\<lambda>c. [scalarPiece ops c]) cs))
              (ntexts nl [Tok RBRACKET (js '']'')] @ rest)"
        by (rule joinedOK) (simp_all add: scalarOK [OF j] sc)
      moreover have "scanOK nl [Tok RBRACKET (js '']'')] rest"
        by (rule scanOK_punct) simp
      ultimately have "scanOK nl (joinPieces (map (\<lambda>c. [scalarPiece ops c]) cs)
                         @ [Tok RBRACKET (js '']'')]) rest"
        by (simp only: scanOK_append)
      then have "scanOK nl (Tok LBRACKET (js ''['') # joinPieces (map (\<lambda>c. [scalarPiece ops c]) cs)
                         @ [Tok RBRACKET (js '']'')]) rest"
        by (rule scanOK_punct)
      with True show ?thesis by simp
    next
      case False
      let ?close = "[Gap [0x0A], Gap (repeat (indentStr this) level), Tok RBRACKET (js '']'')]"
      have "scanOK nl (arrayPieces ops this level cs) (ntexts nl ?close @ rest)"
        using arrayPiecesOK [where cs = cs and ops = ops and level = level
            and rest = "ntexts nl ?close @ rest", OF nl b el closingOK(3) [OF nl b]]
        by simp
      moreover note closingOK(1) [OF nl b, of level rest]
      ultimately have "scanOK nl (arrayPieces ops this level cs @ ?close) rest"
        by (simp only: scanOK_append)
      then have "scanOK nl (Tok LBRACKET (js ''['') # arrayPieces ops this level cs @ ?close) rest"
        by (rule scanOK_punct)
      with False show ?thesis by simp
    qed
  qed
next
  case (JsonObject cs)
  show ?case
  proof (intro impI allI)
    fix level key rest
    assume wf: "wfNode (JsonObject cs)" and d: "delimited rest"
    have el: "\<And>k v level key r. ObjPair k v \<in> set cs \<Longrightarrow> delimited r \<Longrightarrow>
               scanOK nl (nodePieces ops this v level key) r"
    proof -
      fix k v level key r assume m: "ObjPair k v \<in> set cs" and r: "delimited r"
      with wf have "wfNode v" "\<not> isComment v" by auto
      with JsonObject [OF m] r show "scanOK nl (nodePieces ops this v level key) r" by blast
    qed
    have co: "\<And>t bl. ObjComment t bl \<in> set cs \<Longrightarrow> isCommentText t"
      using wf by auto
    show "scanOK nl (nodePieces ops this (JsonObject cs) level key) rest"
    proof (cases "shouldInlineObject ops this key cs")
      case True
      have sc: "\<And>p. p \<in> set (pairsOf cs) \<Longrightarrow> isScalar (snd p)"
      proof -
        fix p assume "p \<in> set (pairsOf cs)"
        then have m: "ObjPair (fst p) (snd p) \<in> set cs" by (simp add: pairsOf_set [symmetric])
        with wf have nc: "\<not> isComment (snd p)" by auto
        from m True have "\<not> hasContainerValue cs"
          by (auto simp: shouldInlineObject.simps split: if_splits)
        with m have "\<not> (isObject (snd p) \<or> isArray (snd p))"
          by (auto simp: hasContainerValue_iff list_ex_iff)
        with nc show "isScalar (snd p)" by (cases "snd p") auto
      qed
      have pr: "\<And>p r. p \<in> set (pairsOf cs) \<Longrightarrow> delimited r \<Longrightarrow>
          scanOK nl ((\<lambda>(k, v). [Tok STRING (JSON_stringify k), Tok COLON (js '':''),
                                  Gap (js '' ''), scalarPiece ops v]) p) r"
      proof -
        fix p r assume p: "p \<in> set (pairsOf cs)" and r: "delimited r"
        have "scanOK nl [scalarPiece ops (snd p)] r"
          using scalarOK [OF j sc [OF p] r] .
        then have "scanOK nl [Gap (js '' ''), scalarPiece ops (snd p)] r"
          by (rule scanOK_sp)
        then have "scanOK nl [Tok STRING (JSON_stringify (fst p)), Tok COLON (js '':''),
                      Gap (js '' ''), scalarPiece ops (snd p)] r"
          by (intro scanOK_string scanOK_punct(5))
        then show "scanOK nl ((\<lambda>(k, v). [Tok STRING (JSON_stringify k), Tok COLON (js '':''),
                                  Gap (js '' ''), scalarPiece ops v]) p) r"
          by (simp add: case_prod_unfold)
      qed
      have "scanOK nl (joinPieces (map (\<lambda>(k, v). [Tok STRING (JSON_stringify k), Tok COLON (js '':''),
                                  Gap (js '' ''), scalarPiece ops v]) (pairsOf cs)))
              (ntexts nl [Tok RBRACE (js ''}'')] @ rest)"
        by (rule joinedOK) (simp_all add: pr)
      moreover have "scanOK nl [Tok RBRACE (js ''}'')] rest"
        by (rule scanOK_punct) simp
      ultimately have "scanOK nl (joinPieces (map (\<lambda>(k, v). [Tok STRING (JSON_stringify k),
                 Tok COLON (js '':''), Gap (js '' ''), scalarPiece ops v]) (pairsOf cs))
                         @ [Tok RBRACE (js ''}'')]) rest"
        by (simp only: scanOK_append)
      then have "scanOK nl (Tok LBRACE (js ''{'') # joinPieces (map (\<lambda>(k, v). [Tok STRING (JSON_stringify k),
                 Tok COLON (js '':''), Gap (js '' ''), scalarPiece ops v]) (pairsOf cs))
                         @ [Tok RBRACE (js ''}'')]) rest"
        by (rule scanOK_punct)
      with True show ?thesis by simp
    next
      case False
      let ?close = "[Gap [0x0A], Gap (repeat (indentStr this) level), Tok RBRACE (js ''}'')]"
      have "scanOK nl (objectPieces ops this level cs) (ntexts nl ?close @ rest)"
        using objectPiecesOK [where cs = cs and ops = ops and level = level
            and rest = "ntexts nl ?close @ rest", OF nl b el co closingOK(4) [OF nl b]]
        by simp
      moreover note closingOK(2) [OF nl b, of level rest]
      ultimately have "scanOK nl (objectPieces ops this level cs @ ?close) rest"
        by (simp only: scanOK_append)
      then have "scanOK nl (Tok LBRACE (js ''{'') # objectPieces ops this level cs @ ?close) rest"
        by (rule scanOK_punct)
      with False show ?thesis by simp
    qed
  qed
qed simp_all

lemma nodePiecesOK:
  assumes "isNewline nl" and "blank (indentStr this)" and "jsonNumbers ops"
    and "wfNode node" and "\<not> isComment node" and "delimited rest"
  shows "scanOK nl (nodePieces ops this node level key) rest"
  using nodePiecesOK_all [OF assms(1-3), of node] assms(4-6) by blast


section \<open>The comments of a document\<close>

text \<open>
  The texts of the comment tokens, in order, and the texts of the comments of a tree, in
  the order of its children.
\<close>

definition tokComments :: "Token list \<Rightarrow> jsstring list" where
  "tokComments ts = map tvalue (filter (\<lambda>t. type t = COMMENT) ts)"

fun nodeComments :: "'n AstNode \<Rightarrow> jsstring list"
  and childComments :: "'n ObjChild \<Rightarrow> jsstring list" where
  "nodeComments (JsonComment ctext isBlock) = [ctext]"
| "nodeComments (JsonArray children) = concat (map nodeComments children)"
| "nodeComments (JsonObject children) = concat (map childComments children)"
| "nodeComments (JsonString v raw) = []"
| "nodeComments (JsonNumber v raw) = []"
| "nodeComments (JsonBoolean v raw) = []"
| "nodeComments (JsonNull raw) = []"
| "childComments (ObjComment ctext isBlock) = [ctext]"
| "childComments (ObjPair key v) = nodeComments v"

definition goodComments :: "Token list \<Rightarrow> bool" where
  "goodComments ts = list_all (\<lambda>t. type t = COMMENT \<longrightarrow> isCommentText (tvalue t)) ts"

text \<open>
  \<open>reads ts cs ok r\<close>: reading \<open>ts\<close> down to \<open>r\<close> took the comments \<open>cs\<close>; \<open>ok\<close> holds of what
  was built if the comment tokens are texts of comments.
\<close>

definition reads :: "Token list \<Rightarrow> jsstring list \<Rightarrow> bool \<Rightarrow> Token list \<Rightarrow> bool" where
  "reads ts cs ok r \<longleftrightarrow>
     tokComments ts = cs @ tokComments r \<and> (goodComments ts \<longrightarrow> ok \<and> goodComments r)"

lemma reads_refl: "reads ts [] True ts"
  by (simp add: reads_def)

lemma reads_skip: "type t \<noteq> COMMENT \<Longrightarrow> reads rest cs ok r \<Longrightarrow> reads (t # rest) cs ok r"
  by (simp add: reads_def tokComments_def goodComments_def)

lemma reads_comment:
  "type t = COMMENT \<Longrightarrow> reads rest cs ok r \<Longrightarrow>
     reads (t # rest) (tvalue t # cs) (isCommentText (tvalue t) \<and> ok) r"
  by (simp add: reads_def tokComments_def goodComments_def)

lemma reads_trans:
  "reads ts cs1 ok1 r1 \<Longrightarrow> reads r1 cs2 ok2 r2 \<Longrightarrow> reads ts (cs1 @ cs2) (ok1 \<and> ok2) r2"
  by (auto simp: reads_def)

lemma reads_cong: "reads ts cs ok r \<Longrightarrow> cs = cs' \<Longrightarrow> (ok \<Longrightarrow> ok') \<Longrightarrow> reads ts cs' ok' r"
  by (auto simp: reads_def)

lemma parseComments_reads:
  "parseComments ts = (cs, r) \<Longrightarrow>
     reads ts (map fst cs) (list_all (\<lambda>c. isCommentText (fst c)) cs) r"
proof (induction ts arbitrary: cs r)
  case Nil
  then show ?case by (simp add: reads_def)
next
  case (Cons t ts)
  show ?case
  proof (cases "type t = COMMENT")
    case True
    obtain cs' r' where p: "parseComments ts = (cs', r')" by (cases "parseComments ts")
    with Cons.prems True have e: "cs = commentOf t # cs'" "r = r'" by auto
    from reads_comment [OF True Cons.IH [OF p]] e show ?thesis
      by (simp add: commentOf_def)
  next
    case False
    with Cons.prems have "cs = []" "r = t # ts" by auto
    then show ?thesis by (simp add: reads_refl)
  qed
qed

lemma comments_objComment [simp]:
  "concat (map (childComments \<circ> objComment) cs) = map fst cs"
  "list_all wfChild (map objComment cs :: 'n ObjChild list) = list_all (\<lambda>c. isCommentText (fst c)) cs"
  by (induction cs) (simp_all add: objComment_def)

lemma comments_nodeComment [simp]:
  "concat (map (nodeComments \<circ> nodeComment) cs) = map fst cs"
  "list_all wfNode (map nodeComment cs :: 'n AstNode list) = list_all (\<lambda>c. isCommentText (fst c)) cs"
  by (induction cs) (simp_all add: nodeComment_def)

lemma parse_reads:
  shows "\<forall>v r. parseValue ops ts = Inr (v, r) \<longrightarrow> reads ts (nodeComments v) (wfNode v) r"
    and "\<forall>v r. parseObject ops ts = Inr (v, r) \<longrightarrow> reads ts (nodeComments v) (wfNode v) r"
    and "\<forall>cs r. objectLoop ops ts = Inr (cs, r) \<longrightarrow>
           reads ts (concat (map childComments cs)) (list_all wfChild cs) r"
    and "\<forall>v r. parseArray ops ts = Inr (v, r) \<longrightarrow> reads ts (nodeComments v) (wfNode v) r"
    and "\<forall>cs r. arrayLoop ops ts = Inr (cs, r) \<longrightarrow>
           reads ts (concat (map nodeComments cs)) (list_all wfNode cs) r"
proof (induct ops ts and ops ts and ops ts and ops ts and ops ts
    rule: parseValue_parseObject_objectLoop_parseArray_arrayLoop.induct)
  case (1 ops ts)
  show ?case
  proof (intro allI impI)
    fix v r assume a: "parseValue ops ts = Inr (v, r)"
    then obtain token rest where ts: "ts = token # rest"
      by (cases ts) (auto simp: parseValue.simps)
    consider (ob) "type token = LBRACE" | (ar) "type token = LBRACKET"
      | (cm) "type token = COMMENT"
      | (ot) "type token \<noteq> LBRACE" "type token \<noteq> LBRACKET" "type token \<noteq> COMMENT"
      by blast
    then show "reads ts (nodeComments v) (wfNode v) r"
    proof cases
      case ob
      with a ts have "parseObject ops ts = Inr (v, r)" by (simp add: parseValue_Cons)
      with 1(1) [OF ts ob] show ?thesis by blast
    next
      case ar
      with a ts have "parseArray ops ts = Inr (v, r)" by (simp add: parseValue_Cons)
      with 1(2) [OF ts ar] show ?thesis by blast
    next
      case cm
      with a ts have v: "v = nodeComment (commentOf token)" "r = rest"
        by (simp_all add: parseValue_Cons)
      from reads_comment [OF cm reads_refl [of rest]] show ?thesis
        unfolding v ts by (simp add: nodeComment_def commentOf_def)
    next
      case ot
      with a ts have "r = rest \<and> nodeComments v = [] \<and> wfNode v"
        by (auto simp: parseValue_Cons split: TokenType.splits option.splits)
      with reads_skip [OF ot(3) reads_refl [of rest]] show ?thesis
        unfolding ts by simp
    qed
  qed
next
  case (2 ops ts)
  show ?case
  proof (intro allI impI)
    fix v r assume a: "parseObject ops ts = Inr (v, r)"
    then obtain token rest where ts: "ts = token # rest"
      by (cases ts) (auto simp: parseObject.simps consume_def peek_def)
    from a ts have t: "type token = LBRACE" by (auto simp: parseObject_Cons split: if_splits)
    from a ts t obtain cs where l: "objectLoop ops rest = Inr (cs, r)" and v: "v = JsonObject cs"
      by (auto simp: parseObject_Cons split: sum.splits)
    have c: "consume (Some LBRACE) ts = Inr (token, rest)"
      using ts t by (simp add: consume_def peek_def)
    from 2 [OF c refl] l have "reads rest (concat (map childComments cs)) (list_all wfChild cs) r"
      by blast
    then have "reads ts (concat (map childComments cs)) (list_all wfChild cs) r"
      unfolding ts using t by (intro reads_skip) simp_all
    then show "reads ts (nodeComments v) (wfNode v) r"
      unfolding v by (simp add: list_all_iff)
  qed
next
  case (3 ops ts)
  show ?case
  proof (intro allI impI)
    fix cs r assume a: "objectLoop ops ts = Inr (cs, r)"
    then obtain token rest where ts: "ts = token # rest"
      by (cases ts) (auto simp: objectLoop.simps)
    note eq = objectLoop.simps [of ops "token # rest", simplified]
    consider (rb) "type token = RBRACE"
      | (cm) "type token \<noteq> RBRACE" "type token = COMMENT"
      | (co) "type token \<noteq> RBRACE" "type token \<noteq> COMMENT" "type token = COMMA"
      | (st) "type token \<noteq> RBRACE" "type token \<noteq> COMMENT" "type token \<noteq> COMMA" "type token = STRING"
      | (ot) "type token \<noteq> RBRACE" "type token \<noteq> COMMENT" "type token \<noteq> COMMA" "type token \<noteq> STRING"
      by blast
    then show "reads ts (concat (map childComments cs)) (list_all wfChild cs) r"
    proof cases
      case rb
      with a ts have e: "cs = []" "r = rest" by (auto simp: eq)
      have "type token \<noteq> COMMENT" using rb by simp
      from reads_skip [OF this reads_refl [of rest]] show ?thesis unfolding e ts by simp
    next
      case cm
      with a ts obtain cs' where l: "objectLoop ops rest = Inr (cs', r)"
        and cs: "cs = objComment (commentOf token) # cs'"
        by (auto simp: eq split: sum.splits)
      from 3(1) [OF ts cm] l have "reads rest (concat (map childComments cs')) (list_all wfChild cs') r"
        by blast
      from reads_comment [OF cm(2) this] show ?thesis
        unfolding cs ts by (simp add: objComment_def commentOf_def)
    next
      case co
      with a ts have l: "objectLoop ops rest = Inr (cs, r)" by (auto simp: eq)
      with 3(2) [OF ts co] have "reads rest (concat (map childComments cs)) (list_all wfChild cs) r"
        by blast
      from reads_skip [OF co(2) this] show ?thesis unfolding ts .
    next
      case st
      with a ts obtain k cs1 ts1 c ts2 cs2 ts3 v ts4 cs' where
        h: "JSON_parse (tvalue token) = Some k" "parseComments rest = (cs1, ts1)"
          "consume (Some COLON) ts1 = Inr (c, ts2)" "parseComments ts2 = (cs2, ts3)"
          "parseValue ops ts3 = Inr (v, ts4)" "objectLoop ops ts4 = Inr (cs', r)"
        and cs: "cs = map objComment cs1 @ map objComment cs2 @ ObjPair k v # cs'"
        by (auto simp: eq split: sum.splits option.splits prod.splits)
      from h(3) have ts1: "ts1 = c # ts2" and colon: "type c = COLON"
        by (cases ts1; auto simp: consume_def peek_def split: if_splits)+
      from parseComments_split [OF h(4)] have "ts3 = [] \<or> type (hd ts3) \<noteq> COMMENT" by blast
      with parseValue_comment [OF h(5)] have nc: "\<not> isComment v" by blast
      have r1: "reads rest (map fst cs1) (list_all (\<lambda>c. isCommentText (fst c)) cs1) ts1"
        using h(2) by (rule parseComments_reads)
      have r2: "reads ts2 (map fst cs2) (list_all (\<lambda>c. isCommentText (fst c)) cs2) ts3"
        using h(4) by (rule parseComments_reads)
      have r3: "reads ts3 (nodeComments v) (wfNode v) ts4"
        using 3(3) [OF ts st h(1) h(2)[symmetric] h(3) refl h(4)[symmetric]] h(5) by blast
      have r4: "reads ts4 (concat (map childComments cs')) (list_all wfChild cs') r"
        using 3(4) [OF ts st h(1) h(2)[symmetric] h(3) refl h(4)[symmetric] h(5) refl] h(6)
        by blast
      have c2: "reads ts1 (map fst cs2) (list_all (\<lambda>c. isCommentText (fst c)) cs2) ts3"
        unfolding ts1 using colon r2 by (intro reads_skip) simp_all
      note all = reads_trans [OF r1 reads_trans [OF c2 reads_trans [OF r3 r4]]]
      have "reads rest (concat (map childComments cs)) (list_all wfChild cs) r"
        by (rule reads_cong [OF all]) (simp_all add: cs nc)
      then show ?thesis unfolding ts using st by (intro reads_skip) simp_all
    next
      case ot
      with a ts show ?thesis by (auto simp: eq)
    qed
  qed
next
  case (4 ops ts)
  show ?case
  proof (intro allI impI)
    fix v r assume a: "parseArray ops ts = Inr (v, r)"
    then obtain token rest where ts: "ts = token # rest"
      by (cases ts) (auto simp: parseArray.simps consume_def peek_def)
    from a ts have t: "type token = LBRACKET" by (auto simp: parseArray_Cons split: if_splits)
    from a ts t obtain cs where l: "arrayLoop ops rest = Inr (cs, r)" and v: "v = JsonArray cs"
      by (auto simp: parseArray_Cons split: sum.splits)
    have c: "consume (Some LBRACKET) ts = Inr (token, rest)"
      using ts t by (simp add: consume_def peek_def)
    from 4 [OF c refl] l have "reads rest (concat (map nodeComments cs)) (list_all wfNode cs) r"
      by blast
    then have "reads ts (concat (map nodeComments cs)) (list_all wfNode cs) r"
      unfolding ts using t by (intro reads_skip) simp_all
    then show "reads ts (nodeComments v) (wfNode v) r"
      unfolding v by (simp add: list_all_iff)
  qed
next
  case (5 ops ts)
  show ?case
  proof (intro allI impI)
    fix cs r assume a: "arrayLoop ops ts = Inr (cs, r)"
    then obtain token rest where ts: "ts = token # rest"
      by (cases ts) (auto simp: arrayLoop.simps)
    note eq = arrayLoop.simps [of ops "token # rest", simplified]
    consider (rb) "type token = RBRACKET"
      | (cm) "type token \<noteq> RBRACKET" "type token = COMMENT"
      | (co) "type token \<noteq> RBRACKET" "type token \<noteq> COMMENT" "type token = COMMA"
      | (ot) "type token \<noteq> RBRACKET" "type token \<noteq> COMMENT" "type token \<noteq> COMMA"
      by blast
    then show "reads ts (concat (map nodeComments cs)) (list_all wfNode cs) r"
    proof cases
      case rb
      with a ts have e: "cs = []" "r = rest" by (auto simp: eq)
      have "type token \<noteq> COMMENT" using rb by simp
      from reads_skip [OF this reads_refl [of rest]] show ?thesis unfolding e ts by simp
    next
      case cm
      with a ts obtain cs' where l: "arrayLoop ops rest = Inr (cs', r)"
        and cs: "cs = nodeComment (commentOf token) # cs'"
        by (auto simp: eq split: sum.splits)
      from 5(1) [OF ts cm] l have "reads rest (concat (map nodeComments cs')) (list_all wfNode cs') r"
        by blast
      from reads_comment [OF cm(2) this] show ?thesis
        unfolding cs ts by (simp add: nodeComment_def commentOf_def)
    next
      case co
      with a ts have l: "arrayLoop ops rest = Inr (cs, r)" by (auto simp: eq)
      with 5(2) [OF ts co] have "reads rest (concat (map nodeComments cs)) (list_all wfNode cs) r"
        by blast
      from reads_skip [OF co(2) this] show ?thesis unfolding ts .
    next
      case ot
      with a ts obtain v ts' cs' where h: "parseValue ops ts = Inr (v, ts')"
        "arrayLoop ops ts' = Inr (cs', r)" and cs: "cs = v # cs'"
        by (auto simp: eq split: sum.splits)
      have r1: "reads ts (nodeComments v) (wfNode v) ts'"
        using 5(3) [OF ts ot] h(1) by blast
      have r2: "reads ts' (concat (map nodeComments cs')) (list_all wfNode cs') r"
        using 5(4) [OF ts ot h(1) refl] h(2) by blast
      show ?thesis
        by (rule reads_cong [OF reads_trans [OF r1 r2]]) (simp_all add: cs)
    qed
  qed
qed


text \<open>The comment tokens that the lexer returns are texts of comments.\<close>

lemma firstMatch_COMMENT:
  "firstMatch PATTERNS s = Some (COMMENT, n) \<Longrightarrow> matchComment s = Some n"
  by (auto simp: PATTERNS_def split: option.splits)

lemma scan_good:
  "scan s = Some ss \<Longrightarrow> list_all (\<lambda>p. fst p = COMMENT \<longrightarrow> isCommentText (snd p)) ss"
proof (induction s arbitrary: ss rule: scan.induct)
  case (1 s)
  show ?case
  proof (cases "s = []")
    case True
    with "1.prems" show ?thesis by (simp add: scan.simps)
  next
    case False
    with "1.prems" obtain ty n ss' where f: "firstMatch PATTERNS s = Some (ty, n)"
      and r: "scan (drop n s) = Some ss'"
      and ss: "ss = (if ty \<noteq> WHITESPACE then (ty, take n s) # ss' else ss')"
      by (subst (asm) scan.simps) (auto split: option.splits)
    from "1.IH" [OF False f refl r]
    have ih: "list_all (\<lambda>p. fst p = COMMENT \<longrightarrow> isCommentText (snd p)) ss'" .
    have "ty = COMMENT \<longrightarrow> isCommentText (take n s)"
      using f by (auto dest: firstMatch_COMMENT matchComment_take)
    with ih ss show ?thesis by simp
  qed
qed

lemma tokenize_good: "tokenize s = Inr ts \<Longrightarrow> goodComments ts"
  using scan_good [OF tokenize_scan, of s ts]
  by (simp add: goodComments_def list_all_iff shape_def)

text \<open>The comments among the pieces of a tree are the comments of the tree.\<close>

fun pieceComments :: "piece list \<Rightarrow> jsstring list" where
  "pieceComments [] = []"
| "pieceComments (Tok ty t # ps) = (if ty = COMMENT then t # pieceComments ps else pieceComments ps)"
| "pieceComments (Gap g # ps) = pieceComments ps"

lemma pieceComments_append [simp]:
  "pieceComments (ps @ qs) = pieceComments ps @ pieceComments qs"
  by (induction ps rule: pieceComments.induct) simp_all

lemma pieceComments_join:
  "pieceComments (joinPieces pss) = concat (map pieceComments pss)"
  by (induction pss rule: joinPieces.induct) simp_all

lemma pieceComments_scalar:
  "\<not> isArray c \<Longrightarrow> \<not> isObject c \<Longrightarrow> pieceComments [scalarPiece ops c] = nodeComments c"
  by (cases c) simp_all

lemma ptoks_comments:
  "map snd (filter (\<lambda>p. fst p = COMMENT) (ptoks nl ps)) = map (replaceNewlines nl) (pieceComments ps)"
  by (induction nl ps rule: ptoks.induct) simp_all

lemma tokComments_shape:
  "tokComments ts = map snd (filter (\<lambda>p. fst p = COMMENT) (map shape ts))"
  by (induction ts) (simp_all add: tokComments_def shape_def)

lemma arrayPieces_comments:
  "(\<And>c level key. c \<in> set cs \<Longrightarrow> pieceComments (nodePieces ops this c level key) = nodeComments c)
     \<Longrightarrow> pieceComments (arrayPieces ops this level cs) = concat (map nodeComments cs)"
  by (induction cs) simp_all

lemma objectPieces_comments:
  "(\<And>k v level key. ObjPair k v \<in> set cs \<Longrightarrow>
        pieceComments (nodePieces ops this v level key) = nodeComments v)
     \<Longrightarrow> pieceComments (objectPieces ops this level cs) = concat (map childComments cs)"
proof (induction cs)
  case Nil
  show ?case by simp
next
  case (Cons c cs)
  have ih: "pieceComments (objectPieces ops this level cs) = concat (map childComments cs)"
    by (rule Cons.IH) (use Cons.prems in auto)
  show ?case
  proof (cases c)
    case (ObjComment t bl)
    with ih show ?thesis by simp
  next
    case (ObjPair k v)
    with ih Cons.prems [of k v] show ?thesis by simp
  qed
qed

lemma inline_pairs_comments:
  "\<not> list_ex isObjComment cs \<Longrightarrow>
     concat (map childComments cs) = concat (map (\<lambda>p. nodeComments (snd p)) (pairsOf cs))"
  by (induction cs rule: pairsOf.induct) simp_all

lemma nodePieces_comments_all:
  "\<forall>level key. pieceComments (nodePieces ops this node level key) = nodeComments node"
proof (induct node rule: AstNode.induct [where ?P2.0 = "\<lambda>child. \<forall>k v. child = ObjPair k v \<longrightarrow>
    (\<forall>level key. pieceComments (nodePieces ops this v level key) = nodeComments v)"])
  case (JsonArray cs)
  show ?case
  proof (intro allI)
    fix level key
    show "pieceComments (nodePieces ops this (JsonArray cs) level key) = nodeComments (JsonArray cs)"
    proof (cases "shouldInlineArray ops this key cs")
      case True
      have "pieceComments [scalarPiece ops c] = nodeComments c" if "c \<in> set cs" for c
      proof -
        from that True have "\<not> isObject c \<and> \<not> isArray c"
          by (auto simp: shouldInlineArray.simps list_ex_iff split: if_splits)
        then show ?thesis by (simp add: pieceComments_scalar)
      qed
      then have "map (\<lambda>c. pieceComments [scalarPiece ops c]) cs = map nodeComments cs"
        by (intro map_cong [OF refl])
      note m = arg_cong [OF this, of concat]
      from True show ?thesis
        by (simp add: pieceComments_join comp_def m)
    next
      case False
      with arrayPieces_comments [of cs ops this level] JsonArray show ?thesis by simp
    qed
  qed
next
  case (JsonObject cs)
  show ?case
  proof (intro allI)
    fix level key
    show "pieceComments (nodePieces ops this (JsonObject cs) level key) = nodeComments (JsonObject cs)"
    proof (cases "shouldInlineObject ops this key cs")
      case True
      have nc: "\<not> list_ex isObjComment cs"
        using True by (auto simp: shouldInlineObject.simps split: if_splits)
      have "pieceComments [scalarPiece ops (snd p)] = nodeComments (snd p)"
        if "p \<in> set (pairsOf cs)" for p
      proof -
        from that have m: "ObjPair (fst p) (snd p) \<in> set cs" by (simp add: pairsOf_set [symmetric])
        then have "cs \<noteq> []" by auto
        with True have "\<not> hasContainerValue cs"
          by (auto simp: shouldInlineObject.simps split: if_splits)
        with m have "\<not> isArray (snd p) \<and> \<not> isObject (snd p)"
          by (auto simp: hasContainerValue_iff list_ex_iff)
        with pieceComments_scalar [of "snd p" ops] show ?thesis by simp
      qed
      then have "map (\<lambda>p. pieceComments [scalarPiece ops (snd p)]) (pairsOf cs)
               = map (\<lambda>p. nodeComments (snd p)) (pairsOf cs)"
        by (intro map_cong [OF refl])
      note m = arg_cong [OF this, of concat]
      from True show ?thesis
        by (simp add: pieceComments_join comp_def case_prod_unfold m inline_pairs_comments [OF nc])
    next
      case False
      have "\<And>k v level key. ObjPair k v \<in> set cs \<Longrightarrow>
        pieceComments (nodePieces ops this v level key) = nodeComments v"
        using JsonObject by blast
      with objectPieces_comments [of cs ops this level] False show ?thesis by simp
    qed
  qed
qed simp_all

lemma nodePieces_comments:
  "pieceComments (nodePieces ops this node level key) = nodeComments node"
  using nodePieces_comments_all by blast

text \<open>The text written for a tree that is not a comment, and its tokens.\<close>

lemma endsVisible_finalNewline:
  assumes "endsVisible formatted"
  shows "finalNewline cfg formatted
           = formatted @ (if insert_final_newline cfg then [0x0A] else [])"
proof -
  from assms have ne: "formatted \<noteq> []" and "\<not> isSpace (last formatted)"
    by (simp_all add: endsVisible_def)
  then have "last formatted \<noteq> 0x0A" by (auto simp: isSpace_def)
  with ne have "\<not> endsWith formatted [0x0A]"
    by (cases formatted rule: rev_cases) (simp_all add: endsWith_def)
  with ne show ?thesis by (simp add: finalNewline_def)
qed

definition newlineOf :: "MaaFormatConfig \<Rightarrow> jsstring" where
  "newlineOf cfg = (if newline cfg = CRLF then [0x0D, 0x0A] else [0x0A])"

lemma isNewline_newlineOf: "isNewline (newlineOf cfg)"
  by (simp add: isNewline_def newlineOf_def)

text \<open>The pieces of the whole output.\<close>

definition outPieces :: "'n NumberOps \<Rightarrow> MaaFormatConfig \<Rightarrow> 'n AstNode \<Rightarrow> piece list" where
  "outPieces ops cfg ast =
     nodePieces ops (newFormatter cfg) ast 0 []
       @ (if insert_final_newline cfg then [Gap [0x0A]] else [])"

lemma format_pieces:
  assumes j: "jsonNumbers ops" and t: "tokenize s = Inr tokens" and p: "parse ops tokens = Inr ast"
    and wf: "wfNode ast"
  shows "format ops cfg s = Inr (ntexts (newlineOf cfg) (outPieces ops cfg ast))"
    and "scan (ntexts (newlineOf cfg) (outPieces ops cfg ast))
           = Some (ptoks (newlineOf cfg) (outPieces ops cfg ast))"
proof -
  define nl where "nl = newlineOf cfg"
  define this where "this = newFormatter cfg"
  define P where "P = nodePieces ops this ast 0 []"
  define F where "F = (if insert_final_newline cfg then [Gap [0x0A]] else [])"
  have nl: "isNewline nl" unfolding nl_def by (rule isNewline_newlineOf)
  have b: "blank (indentStr this)" unfolding this_def by (rule blank_newFormatter)
  have nc: "\<not> isComment ast" using p by (rule parse_not_comment)
  have f: "formatNode ops this ast 0 [] False = ptexts P"
    unfolding P_def using wf by (rule formatNode_pieces)
  have "endsVisible (formatNode ops this ast 0 [] False)"
    using j nc by (rule formatNode_endsVisible)
  from endsVisible_finalNewline [OF this, of cfg]
  have fin: "finalNewline cfg (formatNode ops this ast 0 [] False) = ptexts (P @ F)"
    by (simp add: f F_def)
  have okF: "scanOK nl F []" unfolding F_def by (simp add: isSpace_def)
  have "delimited (ntexts nl F @ [])"
    using nl by (auto simp: F_def isNewline_def delimited_def)
  with nl b j wf nc have "scanOK nl P (ntexts nl F @ [])"
    unfolding P_def by (intro nodePiecesOK)
  with okF have ok: "scanOK nl (P @ F) []" by (simp only: scanOK_append)
  have o: "outPieces ops cfg ast = P @ F"
    by (simp add: outPieces_def P_def F_def this_def)
  show "format ops cfg s = Inr (ntexts (newlineOf cfg) (outPieces ops cfg ast))"
    using t p fin scanOK_text [OF ok]
    by (simp add: format_def Let_def o this_def [symmetric] nl_def newlineOf_def)
  from scanOK_scan [OF nl ok]
  show "scan (ntexts (newlineOf cfg) (outPieces ops cfg ast))
           = Some (ptoks (newlineOf cfg) (outPieces ops cfg ast))"
    by (simp add: o nl_def scan_Nil)
qed

text \<open>What \<open>parse\<close> leaves unread: the tokens after the root value.\<close>

definition unread :: "'n NumberOps \<Rightarrow> Token list \<Rightarrow> Token list" where
  "unread ops tokens =
     (case parseValue ops (snd (parseComments tokens)) of
        Inl e \<Rightarrow> []
      | Inr (root, rest) \<Rightarrow> rest)"

lemma parse_comments:
  assumes p: "parse ops tokens = Inr ast" and c: "isObject ast \<or> isArray ast"
  shows "tokComments tokens = nodeComments ast @ tokComments (unread ops tokens)"
    and "goodComments tokens \<Longrightarrow> wfNode ast"
proof -
  obtain cs ts where pc: "parseComments tokens = (cs, ts)" by (cases "parseComments tokens")
  note r1 = parseComments_reads [OF pc]
  have "reads tokens (nodeComments ast) (wfNode ast) (unread ops tokens)"
  proof (cases ts)
    case Nil
    with p pc have ast: "ast = JsonObject (map objComment cs)"
      by (simp add: parse_def peek_def)
    have u: "unread ops tokens = []"
      using pc Nil by (simp add: unread_def parseValue.simps)
    from r1 show ?thesis
      unfolding u Nil ast by (rule reads_cong) (simp_all add: Ball_set objComment_def)
  next
    case (Cons t ts')
    with p pc obtain root rest where pv: "parseValue ops ts = Inr (root, rest)"
      and ast: "ast = (case root of
                        JsonObject children \<Rightarrow> JsonObject (map objComment cs @ children)
                      | JsonArray children \<Rightarrow> JsonArray (map nodeComment cs @ children)
                      | _ \<Rightarrow> root)"
      by (auto simp: parse_def peek_def split: sum.splits)
    have u: "unread ops tokens = rest"
      using pc pv by (simp add: unread_def)
    from parse_reads(1) [of ops ts] pv have r2: "reads ts (nodeComments root) (wfNode root) rest"
      by blast
    from c ast have "isObject root \<or> isArray root" by (cases root) auto
    then show ?thesis
    proof
      assume "isObject root"
      then obtain ch where root: "root = JsonObject ch" by (cases root) auto
      show ?thesis
        unfolding u
        by (rule reads_cong [OF reads_trans [OF r1 r2]])
          (auto simp: ast root list_all_iff objComment_def nodeComment_def)
    next
      assume "isArray root"
      then obtain ch where root: "root = JsonArray ch" by (cases root) auto
      show ?thesis
        unfolding u
        by (rule reads_cong [OF reads_trans [OF r1 r2]])
          (auto simp: ast root list_all_iff objComment_def nodeComment_def)
    qed
  qed
  then show "tokComments tokens = nodeComments ast @ tokComments (unread ops tokens)"
    and "goodComments tokens \<Longrightarrow> wfNode ast"
    by (simp_all add: reads_def)
qed


section \<open>Conservation of comments\<close>

text \<open>
  C2, as the claim states it, fails for a comment before a root that is a number: the
  parser attaches the leading comments to a root that is an object or an array only, and
  the output \<^verbatim>\<open>1\<close> has no comment.
\<close>

theorem comment_conservation_counterexample:
  \<open>tokenize (js ''// c'' @ [0x0A] @ js ''1'')
      = Inr [Token COMMENT (js ''// c'') 1, Token NUMBER (js ''1'') 2]
   \<and> parse literalOps [Token COMMENT (js ''// c'') 1, Token NUMBER (js ''1'') 2]
      = Inr (JsonNumber (js ''1'') (js ''1''))
   \<and> format literalOps DEFAULT_CONFIG (js ''// c'' @ [0x0A] @ js ''1'') = Inr (js ''1'')
   \<and> tokenize (js ''1'') = Inr [Token NUMBER (js ''1'') 1]
   \<and> tokComments [Token COMMENT (js ''// c'') 1, Token NUMBER (js ''1'') 2] = [js ''// c'']
   \<and> tokComments [Token NUMBER (js ''1'') 1] = []\<close>
  by code_simp

text \<open>
  C2, amended.  When the root of the document is an object or an array and no comment
  follows it, and the number built-ins print JSON numbers, \<open>format\<close> succeeds, its
  output tokenizes, and the texts of the comments of the output are, in the same order,
  the texts of the comments of the input with each line terminator replaced by the
  configured one; a comment without a line feed is kept as it is.
\<close>

theorem comment_conservation:
  assumes "jsonNumbers ops"
    and "tokenize s = Inr tokens"
    and "parse ops tokens = Inr ast"
    and "isObject ast \<or> isArray ast"
    and "tokComments (unread ops tokens) = []"
  shows "\<exists>out toks. format ops cfg s = Inr out \<and> tokenize out = Inr toks
           \<and> tokComments toks = map (replaceNewlines (newlineOf cfg)) (tokComments tokens)"
proof -
  have wf: "wfNode ast"
    using assms(3,4) tokenize_good [OF assms(2)] by (rule parse_comments(2))
  have c: "tokComments tokens = nodeComments ast"
    using parse_comments(1) [OF assms(3,4)] assms(5) by simp
  define P where "P = outPieces ops cfg ast"
  define nl where "nl = newlineOf cfg"
  note fp = format_pieces [OF assms(1-3) wf, of cfg, folded P_def nl_def]
  from scan_tokenize [OF fp(2)] obtain toks where
    toks: "tokenize (ntexts nl P) = Inr toks" "map shape toks = ptoks nl P"
    by blast
  have "pieceComments P = nodeComments ast"
    by (simp add: P_def outPieces_def nodePieces_comments)
  then have "map snd (filter (\<lambda>p. fst p = COMMENT) (map shape toks))
               = map (replaceNewlines nl) (tokComments tokens)"
    by (simp add: toks(2) ptoks_comments c)
  then have "tokComments toks = map (replaceNewlines nl) (tokComments tokens)"
    by (simp only: tokComments_shape [of toks])
  with fp(1) toks(1) show ?thesis unfolding nl_def by blast
qed

theorem comment_conservation_witness:
  \<open>\<exists>out toks.
      format literalOps DEFAULT_CONFIG
        (js ''// c'' @ [0x0A] @ js ''{"a": [1, /* d */ 2]}'') = Inr out
      \<and> tokenize out = Inr toks
      \<and> tokComments toks = [js ''// c'', js ''/* d */'']\<close>
proof -
  let ?s = "js ''// c'' @ [0x0A] @ js ''{\"a\": [1, /* d */ 2]}''"
  let ?tokens = "[Token COMMENT (js ''// c'') 1, Token LBRACE (js ''{'') 2,
                  Token STRING (js ''\"a\"'') 2, Token COLON (js '':'') 2,
                  Token LBRACKET (js ''['') 2, Token NUMBER (js ''1'') 2, Token COMMA (js '','') 2,
                  Token COMMENT (js ''/* d */'') 2, Token NUMBER (js ''2'') 2,
                  Token RBRACKET (js '']'') 2, Token RBRACE (js ''}'') 2]"
  let ?ast = "JsonObject [ObjComment (js ''// c'') False,
                ObjPair (js ''a'') (JsonArray [JsonNumber (js ''1'') (js ''1''),
                   JsonComment (js ''/* d */'') True, JsonNumber (js ''2'') (js ''2'')])]"
  have t: "tokenize ?s = Inr ?tokens" by code_simp
  have p: "parse literalOps ?tokens = Inr ?ast" by code_simp
  have k: "isObject ?ast \<or> isArray ?ast" by simp
  have u: "tokComments (unread literalOps ?tokens) = []" by code_simp
  have n: "map (replaceNewlines (newlineOf DEFAULT_CONFIG)) (tokComments ?tokens)
             = [js ''// c'', js ''/* d */'']" by code_simp
  from comment_conservation [OF jsonNumbers_literalOps t p k u, of DEFAULT_CONFIG]
  show ?thesis unfolding n .
qed

section \<open>The line terminators of the output\<close>

text \<open>
  \<open>onlyCRLF\<close>: carriage return and line feed occur in the text only as the pair CR LF.
  \<open>noLoneCR\<close>: every carriage return of the text is followed by a line feed.
\<close>

fun onlyCRLF :: "jsstring \<Rightarrow> bool" where
  "onlyCRLF [] = True"
| "onlyCRLF [c] = (c \<noteq> 0x0D \<and> c \<noteq> 0x0A)"
| "onlyCRLF (c # d # cs) =
     (if c = 0x0D then d = 0x0A \<and> onlyCRLF cs else c \<noteq> 0x0A \<and> onlyCRLF (d # cs))"

fun noLoneCR :: "jsstring \<Rightarrow> bool" where
  "noLoneCR [] = True"
| "noLoneCR [c] = (c \<noteq> 0x0D)"
| "noLoneCR (c # d # cs) = (if c = 0x0D then d = 0x0A \<and> noLoneCR cs else noLoneCR (d # cs))"

text \<open>The texts of the comment tokens of a text.\<close>

definition commentsOf :: "jsstring \<Rightarrow> jsstring list" where
  "commentsOf s = (case tokenize s of Inl e \<Rightarrow> [] | Inr tokens \<Rightarrow> tokComments tokens)"

lemma onlyCRLF_Cons: "c \<noteq> 0x0D \<Longrightarrow> c \<noteq> 0x0A \<Longrightarrow> onlyCRLF (c # s) = onlyCRLF s"
  by (cases s) simp_all

lemma onlyCRLF_CRLF: "onlyCRLF (0x0D # 0x0A # s) = onlyCRLF s"
  by simp

lemma onlyCRLF_append: "onlyCRLF a \<Longrightarrow> onlyCRLF b \<Longrightarrow> onlyCRLF (a @ b)"
proof (induction a rule: onlyCRLF.induct)
  case 1
  then show ?case by simp
next
  case (2 c)
  then show ?case by (simp add: onlyCRLF_Cons)
next
  case (3 c d cs)
  show ?case
  proof (cases "c = 0x0D")
    case True
    with 3 show ?thesis by simp
  next
    case False
    with "3.prems" have "c \<noteq> 0x0A" "onlyCRLF (d # cs)" by simp_all
    with False "3.IH"(2) "3.prems"(2) have "onlyCRLF (c # (d # cs) @ b)"
      by (simp only: onlyCRLF_Cons) simp
    then show ?thesis by simp
  qed
qed

lemma onlyCRLF_concat: "(\<And>x. x \<in> set xs \<Longrightarrow> onlyCRLF x) \<Longrightarrow> onlyCRLF (concat xs)"
  by (induction xs) (simp_all add: onlyCRLF_append)

lemma plain_onlyCRLF: "plain s \<Longrightarrow> onlyCRLF s"
  by (induction s rule: onlyCRLF.induct) simp_all

lemma replaceNewlines_onlyCRLF_aux:
  "nl = [0x0D, 0x0A] \<Longrightarrow> noLoneCR s \<Longrightarrow> onlyCRLF (replaceNewlines nl s)"
proof (induction nl s rule: replaceNewlines.induct)
  case (1 nl)
  show ?case by simp
next
  case (2 nl c)
  then show ?case by simp
next
  case (3 nl c d cs)
  show ?case
  proof (cases "c = 0x0D \<and> d = 0x0A")
    case True
    with 3 show ?thesis by simp
  next
    case False
    show ?thesis
    proof (cases "c = 0x0A")
      case True
      with False 3 show ?thesis by simp
    next
      case lf: False
      from False "3.prems" have cr: "c \<noteq> 0x0D" by auto
      with "3.prems" have "noLoneCR (d # cs)" by simp
      with "3.IH"(3) "3.prems"(1) False lf have "onlyCRLF (replaceNewlines nl (d # cs))" by simp
      with cr lf have "onlyCRLF (c # replaceNewlines nl (d # cs))"
        using onlyCRLF_Cons [of c "replaceNewlines nl (d # cs)"] by blast
      with False lf show ?thesis by auto
    qed
  qed
qed

lemma replaceNewlines_onlyCRLF: "noLoneCR s \<Longrightarrow> onlyCRLF (replaceNewlines [0x0D, 0x0A] s)"
  by (rule replaceNewlines_onlyCRLF_aux [OF refl])

text \<open>
  The pieces of the output are line feeds, indentation, comments, and tokens without a
  line feed or a carriage return.
\<close>

fun plainPiece :: "piece \<Rightarrow> bool" where
  "plainPiece (Gap g) = (g = [0x0A] \<or> blank g)"
| "plainPiece (Tok ty t) = (ty = COMMENT \<or> plain t)"

lemma plainPiece_scalar: "jsonNumbers ops \<Longrightarrow> plainPiece (scalarPiece ops c)"
proof (cases c)
  case (JsonNumber v raw)
  assume "jsonNumbers ops"
  then have "numberToJSON ops v = js ''null'' \<or> isJsonNumber (numberToJSON ops v)"
    by (simp add: jsonNumbers_def)
  then have "plain (numberToJSON ops v)"
  proof
    assume "numberToJSON ops v = js ''null''"
    then show ?thesis by (simp add: js_def)
  next
    assume "isJsonNumber (numberToJSON ops v)"
    then show ?thesis by (rule plain_number)
  qed
  with JsonNumber show ?thesis by simp
qed (simp_all add: plain_stringify js_def blank_def)

lemma plainPiece_join:
  "(\<And>ps. ps \<in> set pss \<Longrightarrow> list_all plainPiece ps) \<Longrightarrow> list_all plainPiece (joinPieces pss)"
  by (induction pss rule: joinPieces.induct) (simp_all add: js_def blank_def)

lemma plainPiece_array:
  assumes "blank (indentStr this)"
    and "\<And>c level key. c \<in> set cs \<Longrightarrow> list_all plainPiece (nodePieces ops this c level key)"
  shows "list_all plainPiece (arrayPieces ops this level cs)"
  using assms(2)
proof (induction cs)
  case Nil
  show ?case by simp
next
  case (Cons c cs)
  have "list_all plainPiece (arrayPieces ops this level cs)"
    by (rule Cons.IH) (use Cons.prems in simp)
  moreover have "list_all plainPiece (nodePieces ops this c (level + 1) [])"
    using Cons.prems [of c] by simp
  moreover have "blank (repeat (indentStr this) (level + 1))"
    using assms(1) by (rule blank_repeat)
  ultimately show ?case by (simp add: js_def)
qed

lemma plainPiece_object:
  assumes "blank (indentStr this)"
    and "\<And>k v level key. ObjPair k v \<in> set cs \<Longrightarrow>
           list_all plainPiece (nodePieces ops this v level key)"
  shows "list_all plainPiece (objectPieces ops this level cs)"
  using assms(2)
proof (induction cs)
  case Nil
  show ?case by simp
next
  case (Cons c cs)
  have ih: "list_all plainPiece (objectPieces ops this level cs)"
    by (rule Cons.IH) (use Cons.prems in auto)
  have ind: "blank (repeat (indentStr this) (level + 1))"
    using assms(1) by (rule blank_repeat)
  show ?case
  proof (cases c)
    case (ObjComment t bl)
    with ih ind show ?thesis by simp
  next
    case (ObjPair k v)
    have "list_all plainPiece (nodePieces ops this v (level + 1) k)"
      using Cons.prems [of k v] ObjPair by simp
    with ih ind ObjPair show ?thesis by (simp add: plain_stringify js_def blank_def)
  qed
qed

lemma plainPiece_node_all:
  assumes j: "jsonNumbers ops" and b: "blank (indentStr this)"
  shows "\<forall>level key. list_all plainPiece (nodePieces ops this node level key)"
proof (induct node rule: AstNode.induct [where ?P2.0 = "\<lambda>child. \<forall>k v. child = ObjPair k v \<longrightarrow>
    (\<forall>level key. list_all plainPiece (nodePieces ops this v level key))"])
  case (JsonString v raw)
  show ?case using plainPiece_scalar [OF j, of "JsonString v raw"] by simp
next
  case (JsonNumber v raw)
  show ?case using plainPiece_scalar [OF j, of "JsonNumber v raw"] by simp
next
  case (JsonBoolean v raw)
  show ?case using plainPiece_scalar [OF j, of "JsonBoolean v raw"] by simp
next
  case (JsonNull raw)
  show ?case using plainPiece_scalar [OF j, of "JsonNull raw"] by simp
next
  case (JsonComment t bl)
  show ?case by simp
next
  case (JsonArray cs)
  show ?case
  proof (intro allI)
    fix level key
    have ind: "blank (repeat (indentStr this) level)" using b by (rule blank_repeat)
    show "list_all plainPiece (nodePieces ops this (JsonArray cs) level key)"
    proof (cases "shouldInlineArray ops this key cs")
      case True
      have "list_all plainPiece (joinPieces (map (\<lambda>c. [scalarPiece ops c]) cs))"
        by (rule plainPiece_join) (auto simp: plainPiece_scalar [OF j])
      with True show ?thesis by (simp add: js_def)
    next
      case False
      have "list_all plainPiece (arrayPieces ops this level cs)"
        by (rule plainPiece_array [OF b]) (use JsonArray in blast)
      with False ind show ?thesis by (simp add: js_def)
    qed
  qed
next
  case (JsonObject cs)
  show ?case
  proof (intro allI)
    fix level key
    have ind: "blank (repeat (indentStr this) level)" using b by (rule blank_repeat)
    show "list_all plainPiece (nodePieces ops this (JsonObject cs) level key)"
    proof (cases "shouldInlineObject ops this key cs")
      case True
      have "list_all plainPiece (joinPieces (map (\<lambda>(k, v). [Tok STRING (JSON_stringify k),
               Tok COLON (js '':''), Gap (js '' ''), scalarPiece ops v]) (pairsOf cs)))"
        by (rule plainPiece_join)
          (auto simp: plainPiece_scalar [OF j] plain_stringify js_def blank_def)
      with True show ?thesis by (simp add: js_def)
    next
      case False
      have "list_all plainPiece (objectPieces ops this level cs)"
        by (rule plainPiece_object [OF b]) (use JsonObject in blast)
      with False ind show ?thesis by (simp add: js_def)
    qed
  qed
qed simp_all

lemma pieceComments_mem: "Tok COMMENT t \<in> set ps \<Longrightarrow> t \<in> set (pieceComments ps)"
  by (induction ps rule: pieceComments.induct) auto


text \<open>The tree of a parsed document: its comments are comments of the tokens.\<close>

lemma parse_tree:
  assumes p: "parse ops tokens = Inr ast"
  shows "set (nodeComments ast) \<subseteq> set (tokComments tokens)"
    and "goodComments tokens \<Longrightarrow> wfNode ast"
proof -
  obtain cs ts where pc: "parseComments tokens = (cs, ts)" by (cases "parseComments tokens")
  note r1 = parseComments_reads [OF pc]
  have "\<exists>cts r. set (nodeComments ast) \<subseteq> set cts \<and> reads tokens cts (wfNode ast) r"
  proof (cases ts)
    case Nil
    with p pc have ast: "ast = JsonObject (map objComment cs)"
      by (simp add: parse_def peek_def)
    have "reads tokens (nodeComments ast) (wfNode ast) []"
      using r1 unfolding Nil ast by (rule reads_cong) (simp_all add: Ball_set objComment_def)
    then show ?thesis by blast
  next
    case (Cons t ts')
    with p pc obtain root rest where pv: "parseValue ops ts = Inr (root, rest)"
      and ast: "ast = (case root of
                        JsonObject children \<Rightarrow> JsonObject (map objComment cs @ children)
                      | JsonArray children \<Rightarrow> JsonArray (map nodeComment cs @ children)
                      | _ \<Rightarrow> root)"
      by (auto simp: parse_def peek_def split: sum.splits)
    from parse_reads(1) [of ops ts] pv have r2: "reads ts (nodeComments root) (wfNode root) rest"
      by blast
    note r = reads_trans [OF r1 r2]
    have "set (nodeComments ast) \<subseteq> set (map fst cs @ nodeComments root)"
      unfolding ast by (cases root) (auto simp: objComment_def nodeComment_def)
    moreover have "reads tokens (map fst cs @ nodeComments root) (wfNode ast) rest"
      by (rule reads_cong [OF r refl]) (cases root; auto simp: ast list_all_iff objComment_def nodeComment_def)
    ultimately show ?thesis by blast
  qed
  then obtain cts r where c: "set (nodeComments ast) \<subseteq> set cts"
    and r: "reads tokens cts (wfNode ast) r" by blast
  from r have "set cts \<subseteq> set (tokComments tokens)" by (auto simp: reads_def)
  with c show "set (nodeComments ast) \<subseteq> set (tokComments tokens)" by blast
  from r show "goodComments tokens \<Longrightarrow> wfNode ast" by (simp add: reads_def)
qed

lemma onlyCRLF_pieces:
  assumes "list_all plainPiece ps"
    and "\<And>t. t \<in> set (pieceComments ps) \<Longrightarrow> noLoneCR t"
  shows "onlyCRLF (ntexts [0x0D, 0x0A] ps)"
  unfolding ntexts_def
proof (rule onlyCRLF_concat)
  fix x assume "x \<in> set (map (\<lambda>p. replaceNewlines [0x0D, 0x0A] (ptext p)) ps)"
  then obtain p where p: "p \<in> set ps" and x: "x = replaceNewlines [0x0D, 0x0A] (ptext p)"
    by auto
  from assms(1) p have pp: "plainPiece p" by (simp add: list_all_iff)
  show "onlyCRLF x"
  proof (cases p)
    case (Gap g)
    with pp have "g = [0x0A] \<or> blank g" by simp
    then show ?thesis
    proof
      assume "g = [0x0A]" with x Gap show ?thesis by simp
    next
      assume "blank g"
      then have "plain g" by (rule blank_plain)
      with x Gap show ?thesis by (simp add: plain_id plain_onlyCRLF)
    qed
  next
    case (Tok ty t)
    with pp have "ty = COMMENT \<or> plain t" by simp
    then show ?thesis
    proof
      assume "ty = COMMENT"
      with p Tok have "t \<in> set (pieceComments ps)" by (simp add: pieceComments_mem)
      from assms(2) [OF this] x Tok show ?thesis by (simp add: replaceNewlines_onlyCRLF)
    next
      assume "plain t"
      with x Tok show ?thesis by (simp add: plain_id plain_onlyCRLF)
    qed
  qed
qed

lemma format_onlyCRLF:
  assumes n: "newline cfg = CRLF" and j: "jsonNumbers ops"
    and c: "list_all noLoneCR (commentsOf s)" and f: "format ops cfg s = Inr out"
  shows "onlyCRLF out"
proof -
  from f obtain tokens ast where t: "tokenize s = Inr tokens" and p: "parse ops tokens = Inr ast"
    by (auto simp: format_def split: sum.splits)
  have wf: "wfNode ast" using p tokenize_good [OF t] by (rule parse_tree(2))
  have nl: "newlineOf cfg = [0x0D, 0x0A]" using n by (simp add: newlineOf_def)
  from format_pieces(1) [OF j t p wf, of cfg] f
  have out: "out = ntexts [0x0D, 0x0A] (outPieces ops cfg ast)" by (simp add: nl)
  have pl: "list_all plainPiece (outPieces ops cfg ast)"
    using plainPiece_node_all [OF j blank_newFormatter, of cfg ast]
    by (simp add: outPieces_def)
  have pc: "pieceComments (outPieces ops cfg ast) = nodeComments ast"
    by (simp add: outPieces_def nodePieces_comments)
  have "noLoneCR x" if "x \<in> set (pieceComments (outPieces ops cfg ast))" for x
  proof -
    from that parse_tree(1) [OF p] have "x \<in> set (tokComments tokens)" unfolding pc by blast
    with c t show ?thesis by (simp add: commentsOf_def list_all_iff)
  qed
  with pl show ?thesis unfolding out by (rule onlyCRLF_pieces)
qed

text \<open>
  C7, as the claim states it, fails for a carriage return that no line feed follows: the
  replacement rewrites \<^verbatim>\<open>\n\<close> and \<^verbatim>\<open>\r\n\<close> only, and a block comment is copied with
  such a carriage return in it.  The separators U+2028 and U+2029 are copied as well,
  from a comment or from a string.
\<close>

theorem newline_policy_counterexample:
  \<open>format literalOps (DEFAULT_CONFIG\<lparr>newline := CRLF\<rparr>) (js ''[/*a'' @ [0x0D] @ js ''b*/]'')
     = Inr (js ''['' @ [0x0D, 0x0A, 0x09] @ js ''/*a'' @ [0x0D] @ js ''b*/'' @ [0x0D, 0x0A] @ js '']'')
   \<and> \<not> onlyCRLF (js ''['' @ [0x0D, 0x0A, 0x09] @ js ''/*a'' @ [0x0D] @ js ''b*/'' @ [0x0D, 0x0A] @ js '']'')
   \<and> format literalOps (DEFAULT_CONFIG\<lparr>newline := CRLF\<rparr>) (js ''["a'' @ [0x2028] @ js ''b"]'')
     = Inr (js ''["a'' @ [0x2028] @ js ''b"]'')\<close>
  by code_simp

text \<open>
  C7, amended.  With \<^verbatim>\<open>newline = CRLF\<close> every line feed of the output is preceded by a
  carriage return; when moreover no comment of the input has a carriage return that no
  line feed follows, and the number built-ins print JSON numbers, carriage return and
  line feed occur in the output only as the pair \<^verbatim>\<open>\r\n\<close>.  For such number built-ins
  the outputs for \<^verbatim>\<open>insert_final_newline\<close> true and false differ by the one line
  terminator that ends the first; the second is not empty and ends with a character that
  is neither white space nor a line terminator.
\<close>

theorem newline_policy:
  \<open>(newline cfg = CRLF \<and> format ops cfg s = Inr out \<longrightarrow> crlfTerminated out)
   \<and> (newline cfg = CRLF \<and> jsonNumbers ops \<and> list_all noLoneCR (commentsOf s)
        \<and> format ops cfg s = Inr out \<longrightarrow> onlyCRLF out)
   \<and> (jsonNumbers ops \<and> format ops (cfg\<lparr>insert_final_newline := True\<rparr>) s = Inr a
        \<and> format ops (cfg\<lparr>insert_final_newline := False\<rparr>) s = Inr b \<longrightarrow>
       a = b @ (if newline cfg = CRLF then [0x0D, 0x0A] else [0x0A])
       \<and> b \<noteq> [] \<and> \<not> isSpace (last b))\<close>
proof -
  have part1: "crlfTerminated out" if "newline cfg = CRLF" "format ops cfg s = Inr out"
    using that by (auto simp: format_def Let_def replaceNewlines_crlf split: sum.splits)
  have part2: "onlyCRLF out" if "newline cfg = CRLF" "jsonNumbers ops"
    "list_all noLoneCR (commentsOf s)" "format ops cfg s = Inr out"
    using that by (rule format_onlyCRLF)
  have part3: "a = b @ (if newline cfg = CRLF then [0x0D, 0x0A] else [0x0A])
       \<and> b \<noteq> [] \<and> \<not> isSpace (last b)"
    if j: "jsonNumbers ops" and fa: "format ops (cfg\<lparr>insert_final_newline := True\<rparr>) s = Inr a"
      and fb: "format ops (cfg\<lparr>insert_final_newline := False\<rparr>) s = Inr b"
  proof -
    define nl :: jsstring where "nl = (if newline cfg = CRLF then [0x0D, 0x0A] else [0x0A])"
    from fa obtain tokens ast where t: "tokenize s = Inr tokens" and p: "parse ops tokens = Inr ast"
      by (auto simp: format_def split: sum.splits)
    define this1 where "this1 = newFormatter (cfg\<lparr>insert_final_newline := True\<rparr>)"
    define this0 where "this0 = newFormatter (cfg\<lparr>insert_final_newline := False\<rparr>)"
    define formatted where "formatted = formatNode ops this0 ast 0 [] False"
    have "sameLayout this1 this0"
      by (simp add: sameLayout_def this1_def this0_def newFormatter_def)
    then have same: "formatNode ops this1 ast 0 [] False = formatted"
      unfolding formatted_def by (rule formatNode_sameLayout)
    from parse_not_comment [OF p] j have v: "endsVisible formatted"
      unfolding formatted_def by (intro formatNode_endsVisible)
    then have ne: "formatted \<noteq> []" and sp: "\<not> isSpace (last formatted)"
      by (simp_all add: endsVisible_def)
    from sp have lf: "last formatted \<noteq> 0x0A" and cr: "last formatted \<noteq> 0x0D"
      by (auto simp: isSpace_def)
    from ne lf have ew: "\<not> endsWith formatted [0x0A]"
      by (simp add: endsWith_def) (metis append_butlast_last_id append_take_drop_id last_snoc
          length_butlast butlast_conv_take append_eq_conv_conj)
    have a: "a = replaceNewlines nl (formatted @ [0x0A])"
      using fa t p same ne ew
      by (simp add: format_def Let_def finalNewline_def this1_def nl_def)
    have b: "b = replaceNewlines nl formatted"
      using fb t p ne ew
      by (simp add: format_def Let_def finalNewline_def this0_def formatted_def nl_def)
    from replaceNewlines_snoc [of formatted nl] cr have "a = b @ nl" unfolding a b by simp
    moreover from replaceNewlines_last [OF ne lf, of nl] sp have "b \<noteq> [] \<and> \<not> isSpace (last b)"
      unfolding b by simp
    ultimately show ?thesis unfolding nl_def by simp
  qed
  from part1 part2 part3 show ?thesis by blast
qed

theorem newline_policy_witness:
  \<open>format literalOps (DEFAULT_CONFIG\<lparr>newline := CRLF, insert_final_newline := True\<rparr>)
       (js ''[1, /*x'' @ [0x0D, 0x0A] @ js ''y*/ 2] // z'' @ [0x0A])
     = Inr (js ''['' @ [0x0D, 0x0A, 0x09] @ js ''1,'' @ [0x0D, 0x0A, 0x09] @ js ''/*x'' @ [0x0D, 0x0A]
            @ js ''y*/'' @ [0x0D, 0x0A, 0x09] @ js ''2'' @ [0x0D, 0x0A] @ js '']'' @ [0x0D, 0x0A])
   \<and> format literalOps (DEFAULT_CONFIG\<lparr>newline := CRLF, insert_final_newline := False\<rparr>)
       (js ''[1, /*x'' @ [0x0D, 0x0A] @ js ''y*/ 2] // z'' @ [0x0A])
     = Inr (js ''['' @ [0x0D, 0x0A, 0x09] @ js ''1,'' @ [0x0D, 0x0A, 0x09] @ js ''/*x'' @ [0x0D, 0x0A]
            @ js ''y*/'' @ [0x0D, 0x0A, 0x09] @ js ''2'' @ [0x0D, 0x0A] @ js '']'')
   \<and> list_all noLoneCR (commentsOf (js ''[1, /*x'' @ [0x0D, 0x0A] @ js ''y*/ 2] // z'' @ [0x0A]))
   \<and> crlfTerminated (js ''['' @ [0x0D, 0x0A, 0x09] @ js ''1,'' @ [0x0D, 0x0A, 0x09] @ js ''/*x'' @ [0x0D, 0x0A]
            @ js ''y*/'' @ [0x0D, 0x0A, 0x09] @ js ''2'' @ [0x0D, 0x0A] @ js '']'' @ [0x0D, 0x0A])
   \<and> onlyCRLF (js ''['' @ [0x0D, 0x0A, 0x09] @ js ''1,'' @ [0x0D, 0x0A, 0x09] @ js ''/*x'' @ [0x0D, 0x0A]
            @ js ''y*/'' @ [0x0D, 0x0A, 0x09] @ js ''2'' @ [0x0D, 0x0A] @ js '']'' @ [0x0D, 0x0A])
   \<and> \<not> isSpace (last (js ''['' @ [0x0D, 0x0A, 0x09] @ js ''1,'' @ [0x0D, 0x0A, 0x09] @ js ''/*x''
            @ [0x0D, 0x0A] @ js ''y*/'' @ [0x0D, 0x0A, 0x09] @ js ''2'' @ [0x0D, 0x0A] @ js '']''))\<close>
proof -
  define crlf where "crlf = DEFAULT_CONFIG\<lparr>newline := CRLF\<rparr>"
  define s where "s = js ''[1, /*x'' @ [0x0D, 0x0A] @ js ''y*/ 2] // z'' @ [0x0A]"
  define b where "b = js ''['' @ [0x0D, 0x0A, 0x09] @ js ''1,'' @ [0x0D, 0x0A, 0x09] @ js ''/*x''
            @ [0x0D, 0x0A] @ js ''y*/'' @ [0x0D, 0x0A, 0x09] @ js ''2'' @ [0x0D, 0x0A] @ js '']''"
  have j: "jsonNumbers literalOps" by (rule jsonNumbers_literalOps)
  have n: "newline (crlf\<lparr>insert_final_newline := True\<rparr>) = CRLF" "newline crlf = CRLF"
    by (simp_all add: crlf_def)
  have fa: "format literalOps (crlf\<lparr>insert_final_newline := True\<rparr>) s = Inr (b @ [0x0D, 0x0A])"
    unfolding crlf_def s_def b_def by code_simp
  have fb: "format literalOps (crlf\<lparr>insert_final_newline := False\<rparr>) s = Inr b"
    unfolding crlf_def s_def b_def by code_simp
  have c: "list_all noLoneCR (commentsOf s)" unfolding s_def by code_simp
  have e: "DEFAULT_CONFIG\<lparr>newline := CRLF, insert_final_newline := True\<rparr>
             = crlf\<lparr>insert_final_newline := True\<rparr>"
    "DEFAULT_CONFIG\<lparr>newline := CRLF, insert_final_newline := False\<rparr>
             = crlf\<lparr>insert_final_newline := False\<rparr>"
    by (simp_all add: crlf_def)
  from newline_policy [of "crlf\<lparr>insert_final_newline := True\<rparr>" literalOps s "b @ [0x0D, 0x0A]"
      "b @ [0x0D, 0x0A]" b] newline_policy [of crlf literalOps s "b @ [0x0D, 0x0A]" "b @ [0x0D, 0x0A]" b]
    j n fa fb c
  have k: "crlfTerminated (b @ [0x0D, 0x0A]) \<and> onlyCRLF (b @ [0x0D, 0x0A]) \<and> \<not> isSpace (last b)"
    by simp
  show ?thesis
    using fa fb c k unfolding e s_def b_def by simp
qed

section \<open>Reading a string again\<close>





lemma jsonChars_plain:
  "c \<noteq> 0x22 \<Longrightarrow> c \<noteq> 0x5C \<Longrightarrow> \<not> c < 0x20 \<Longrightarrow> jsonChars (c # s) = map_option ((#) c) (jsonChars s)"
  by simp



section \<open>Parsing the output\<close>



text \<open>
  The tree that the parser builds from the output written for a tree: the scalars with
  the text written for them, the comments with their line terminators replaced.
\<close>

fun canon :: "'n NumberOps \<Rightarrow> jsstring \<Rightarrow> 'n AstNode \<Rightarrow> 'n AstNode"
  and canonChild :: "'n NumberOps \<Rightarrow> jsstring \<Rightarrow> 'n ObjChild \<Rightarrow> 'n ObjChild" where
  "canon ops nl (JsonString v raw) = JsonString v (JSON_stringify v)"
| "canon ops nl (JsonNumber v raw) =
     JsonNumber (parseFloat ops (numberToJSON ops v)) (numberToJSON ops v)"
| "canon ops nl (JsonBoolean v raw) = JsonBoolean v (if v then js ''true'' else js ''false'')"
| "canon ops nl (JsonNull raw) = JsonNull (js ''null'')"
| "canon ops nl (JsonComment ctext isBlock) =
     JsonComment (replaceNewlines nl ctext) (startsWith (replaceNewlines nl ctext) (js ''/*''))"
| "canon ops nl (JsonArray children) = JsonArray (map (canon ops nl) children)"
| "canon ops nl (JsonObject children) = JsonObject (map (canonChild ops nl) children)"
| "canonChild ops nl (ObjComment ctext isBlock) =
     ObjComment (replaceNewlines nl ctext) (startsWith (replaceNewlines nl ctext) (js ''/*''))"
| "canonChild ops nl (ObjPair key v) = ObjPair key (canon ops nl v)"

lemma isComment_canon [simp]: "isComment (canon ops nl c) = isComment c"
  by (cases c) simp_all

lemma isArray_canon [simp]: "isArray (canon ops nl c) = isArray c"
  by (cases c) simp_all

lemma isObject_canon [simp]: "isObject (canon ops nl c) = isObject c"
  by (cases c) simp_all

lemma isNumber_canon [simp]: "isNumber (canon ops nl c) = isNumber c"
  by (cases c) simp_all

lemma isObjComment_canonChild [simp]: "isObjComment (canonChild ops nl c) = isObjComment c"
  by (cases c) simp_all















lemma ptoks_first: "ptoks nl (p # q # qs) = ptoks nl [p] @ ptoks nl (q # qs)"
  by (cases p) simp_all













section \<open>The tree of the output, formatted\<close>


















section \<open>Replacing the line terminators twice\<close>











section \<open>Formatting the output again\<close>




end
